(* ===== verification/Prelude.thy ===== *)
theory Prelude
  imports Main "HOL-Library.Multiset" "HOL-Library.AList"
begin

text \<open>
  The prelude of the development: what the components share.

  \<^item> Python exceptions as a datatype, a fallible computation as \<open>py_error + 'a\<close>
    (\<open>Inl\<close> the exception), its sequencing \<open>bindE\<close> and the loop \<open>foldE\<close> that stops at
    the first exception.
  \<^item> Python slices and dictionaries (association lists that keep the insertion order).
  \<^item> The collections \<open>err_simps\<close> (rewriting of fallible computations) and \<open>frame_simps\<close>
    (fields an operation does not write) that the component theories extend.
\<close>

named_theorems err_simps "rewriting of fallible computations"

named_theorems frame_simps "fields an operation leaves unchanged"

subsection \<open>Exceptions as values\<close>

text \<open>
  The exceptions the modelled code raises itself (\<open>ValueError\<close>, \<open>RuntimeError\<close>, a failed
  \<open>assert\<close>) and those of the language (an index out of range, a missing key, an attribute
  of \<open>None\<close>, an integer that does not fit \<open>int.to_bytes\<close>, a division by zero, \<open>next\<close> of an empty iterator).
\<close>

datatype py_error =
    ValueError
  | RuntimeError
  | AssertionError
  | IndexError
  | KeyError
  | AttributeError
  | OverflowError
  | ZeroDivisionError
  | StopIteration
  | NotImplementedError

type_synonym 'a result = "py_error + 'a"

definition bindE :: "'a result \<Rightarrow> ('a \<Rightarrow> 'b result) \<Rightarrow> 'b result" where
  "bindE m f = (case m of Inl e \<Rightarrow> Inl e | Inr x \<Rightarrow> f x)"

lemma bindE_Inr [simp]: "bindE (Inr x) f = f x"
  by (simp add: bindE_def)

lemma bindE_Inl [simp]: "bindE (Inl e) f = Inl e"
  by (simp add: bindE_def)

lemma bindE_assoc: "bindE (bindE m f) g = bindE m (\<lambda>x. bindE (f x) g)"
  by (cases m) simp_all

lemma bindE_eq_Inr [err_simps]:
  "bindE m f = Inr y \<longleftrightarrow> (\<exists>x. m = Inr x \<and> f x = Inr y)"
  by (cases m) auto

lemma bindE_eq_Inl [err_simps]:
  "bindE m f = Inl e \<longleftrightarrow> m = Inl e \<or> (\<exists>x. m = Inr x \<and> f x = Inl e)"
  by (cases m) auto

lemma bindE_InrE:
  assumes "bindE m f = Inr y"
  obtains x where "m = Inr x" and "f x = Inr y"
  using assms by (auto simp: err_simps)

lemma bindE_cong [fundef_cong]:
  assumes "m = m'" and "\<And>x. m' = Inr x \<Longrightarrow> f x = g x"
  shows "bindE m f = bindE m' g"
  using assms by (cases m') auto

text \<open>An \<open>assert\<close> statement.\<close>

definition assertE :: "bool \<Rightarrow> unit result" where
  "assertE b = (if b then Inr () else Inl AssertionError)"

lemma assertE_simps [simp]:
  "assertE True = Inr ()" "assertE False = Inl AssertionError"
  by (simp_all add: assertE_def)

lemma assertE_eq_Inr [err_simps]: "assertE b = Inr u \<longleftrightarrow> b"
  by (simp add: assertE_def)

text \<open>A \<open>for\<close> loop whose body may raise.\<close>

fun foldE :: "('a \<Rightarrow> 's \<Rightarrow> 's result) \<Rightarrow> 'a list \<Rightarrow> 's \<Rightarrow> 's result" where
  "foldE f [] s = Inr s"
| "foldE f (x # xs) s = bindE (f x s) (foldE f xs)"

lemma foldE_append: "foldE f (xs @ ys) s = bindE (foldE f xs s) (foldE f ys)"
proof (induction xs arbitrary: s)
  case Nil
  then show ?case by simp
next
  case (Cons x xs)
  then show ?case by (cases "f x s") simp_all
qed

text \<open>The loop rule: an invariant over the elements still to come carries to the end.\<close>

lemma foldE_invariant:
  assumes "P xs s"
    and "\<And>y ys t. P (y # ys) t \<Longrightarrow> \<exists>t'. f y t = Inr t' \<and> P ys t'"
  shows "\<exists>s'. foldE f xs s = Inr s' \<and> P [] s'"
  using assms(1)
proof (induction xs arbitrary: s)
  case Nil
  then show ?case by simp
next
  case (Cons x xs)
  from assms(2) [OF Cons.prems] obtain t' where "f x s = Inr t'" and "P xs t'"
    by blast
  with Cons.IH show ?case by simp
qed

text \<open>A list comprehension whose element may raise.\<close>

fun mapE :: "('a \<Rightarrow> 'b result) \<Rightarrow> 'a list \<Rightarrow> 'b list result" where
  "mapE f [] = Inr []"
| "mapE f (x # xs) = bindE (f x) (\<lambda>y. bindE (mapE f xs) (\<lambda>ys. Inr (y # ys)))"

lemma mapE_Inr: "(\<And>x. x \<in> set xs \<Longrightarrow> f x = Inr (g x)) \<Longrightarrow> mapE f xs = Inr (map g xs)"
  by (induction xs) auto

subsection \<open>Slices\<close>

text \<open>\<open>xs[a:b]\<close> for \<open>0 \<le> a\<close>, \<open>0 \<le> b\<close>: bounds past the end are clipped.\<close>

definition slice :: "nat \<Rightarrow> nat \<Rightarrow> 'a list \<Rightarrow> 'a list" where
  "slice a b xs = take (b - a) (drop a xs)"

lemma length_slice [simp]: "length (slice a b xs) = min b (length xs) - a"
  by (simp add: slice_def)

lemma slice_nth: "i < min b (length xs) - a \<Longrightarrow> slice a b xs ! i = xs ! (a + i)"
  by (simp add: slice_def)

lemma slice_take: "b \<le> n \<Longrightarrow> slice a b (take n xs) = slice a b xs"
  by (simp add: slice_def drop_take min_def)

lemma slice_append: "b \<le> length xs \<Longrightarrow> slice a b (xs @ ys) = slice a b xs"
  by (simp add: slice_def)

text \<open>
  Indexing and slicing with Python's integers: a negative index counts from the end, an index
  out of range raises, a slice clips its bounds.
\<close>

definition py_position :: "nat \<Rightarrow> int \<Rightarrow> nat option" where
  "py_position n i = (if int n \<le> i \<or> i < - int n then None else Some (nat (i mod int n)))"

definition py_index :: "'a list \<Rightarrow> int \<Rightarrow> 'a result" where
  "py_index xs i = (case py_position (length xs) i of None \<Rightarrow> Inl IndexError | Some k \<Rightarrow> Inr (xs ! k))"

definition py_bound :: "int \<Rightarrow> int \<Rightarrow> nat" where
  "py_bound n i = nat (if i < 0 then max 0 (n + i) else min i n)"

definition py_slice :: "int \<Rightarrow> int \<Rightarrow> 'a list \<Rightarrow> 'a list" where
  "py_slice a b xs =
     (let n = int (length xs) in slice (py_bound n a) (py_bound n b) xs)"

lemma py_position_eq:
  "py_position n i = (if 0 \<le> i \<and> i < int n then Some (nat i)
     else if i < 0 \<and> 0 \<le> int n + i then Some (nat (int n + i)) else None)"
proof (cases "0 \<le> i")
  case False
  then have "i mod int n = int n + i" if "0 \<le> int n + i"
    using that mod_pos_pos_trivial [of "i + int n" "int n"] by (simp add: add.commute)
  with False show ?thesis by (auto simp: py_position_def)
qed (auto simp: py_position_def)

lemmas py_index_eq = py_index_def py_position_eq

lemma py_index_nth: "0 \<le> i \<Longrightarrow> i < int (length xs) \<Longrightarrow> py_index xs i = Inr (xs ! nat i)"
  by (simp add: py_index_eq)

lemma py_index_nat: "i < length xs \<Longrightarrow> py_index xs (int i) = Inr (xs ! i)"
  by (simp add: py_index_eq)

lemma py_index_Inr [err_simps]:
  "py_index xs i = Inr x \<longleftrightarrow>
     (let j = (if i < 0 then int (length xs) + i else i)
      in 0 \<le> j \<and> j < int (length xs) \<and> x = xs ! nat j)"
  by (auto simp: py_index_eq Let_def)

lemma py_slice_nonneg: "0 \<le> a \<Longrightarrow> 0 \<le> b \<Longrightarrow> py_slice a b xs = slice (nat a) (nat b) xs"
  by (auto simp: py_slice_def py_bound_def slice_def Let_def min_def nat_le_iff)

lemma py_slice_int: "py_slice (int a) (int b) xs = slice a b xs"
  by (simp add: py_slice_nonneg)

subsection \<open>Dictionaries\<close>

text \<open>
  A Python dictionary whose iteration order matters is an association list:
  \<open>AList.update\<close> replaces in place or appends, as \<open>d[k] = v\<close> does, and
  \<open>AList.delete\<close> is \<open>d.pop(k, None)\<close>.
\<close>

lemma distinct_map_fst_filter:
  "distinct (map fst kvs) \<Longrightarrow> distinct (map fst (filter P kvs))"
  by (simp add: distinct_map_filter)

subsection \<open>Lists\<close>

lemma upto_int: "[int a..int b - 1] = map int [a..<b]"
proof (induction b)
  case (Suc b)
  show ?case
  proof (cases "a \<le> b")
    case True
    then show ?thesis using Suc upto_rec2 [of "int a" "int b"] by simp
  qed simp
qed simp

lemma distinct_append_snoc:
  "distinct (xs @ [x]) \<longleftrightarrow> distinct xs \<and> x \<notin> set xs"
  by auto

lemma distinct_count_list: "distinct xs \<Longrightarrow> count_list xs x = (if x \<in> set xs then 1 else 0)"
  by (induction xs) auto

lemma mset_remove1_subset: "mset (remove1 x xs) \<subseteq># mset xs"
  by (metis diff_subset_eq_self mset_remove1)

lemma filter_not_in_remove1:
  "distinct xs \<Longrightarrow> filter (\<lambda>y. y \<noteq> x) xs = remove1 x xs"
  by (simp add: distinct_remove1_removeAll removeAll_filter_not_eq) (rule filter_cong, auto)

end
