(* ===== verification/Math_Utils.thy ===== *)
theory Math_Utils
  imports Prelude "HOL-Library.Word"
begin

text \<open>
  Integer arithmetic of \<open>vllm/utils/math_utils.py\<close>: ceiling division, rounding to a
  multiple, powers of two. Python's \<open>//\<close> rounds towards minus infinity, as \<open>div\<close> does on
  \<open>int\<close>; a zero divisor raises, which the \<open>py_\<close> variants state, and the plain functions
  are what the callers compute with a positive block size.
\<close>

unbundle bit_operations_syntax

definition cdiv :: "int \<Rightarrow> int \<Rightarrow> int" where
  "cdiv a b = - (a div (- b))"

definition py_cdiv :: "int \<Rightarrow> int \<Rightarrow> int result" where
  "py_cdiv a b = (if b = 0 then Inl ZeroDivisionError else Inr (cdiv a b))"

text \<open>\<open>int.bit_length\<close> of the standard library, on the naturals the source applies it to.\<close>

fun bit_length :: "nat \<Rightarrow> nat" where
  "bit_length n = (if n = 0 then 0 else Suc (bit_length (n div 2)))"

declare bit_length.simps [simp del]

definition next_power_of_2 :: "int \<Rightarrow> int" where
  "next_power_of_2 n = (if n < 1 then 1 else push_bit (bit_length (nat (n - 1))) 1)"

definition round_up :: "int \<Rightarrow> int \<Rightarrow> int" where
  "round_up x y = ((x + y - 1) div y) * y"

definition py_round_up :: "int \<Rightarrow> int \<Rightarrow> int result" where
  "py_round_up x y = (if y = 0 then Inl ZeroDivisionError else Inr (round_up x y))"

definition round_down :: "int \<Rightarrow> int \<Rightarrow> int" where
  "round_down x y = (x div y) * y"

definition py_round_down :: "int \<Rightarrow> int \<Rightarrow> int result" where
  "py_round_down x y = (if y = 0 then Inl ZeroDivisionError else Inr (round_down x y))"

definition largest_power_of_2_divisor :: "int \<Rightarrow> int" where
  "largest_power_of_2_divisor n = n AND (- n)"

subsection \<open>Ceiling division and rounding\<close>


lemma le_div_iff_mult_le_int: "(b :: int) > 0 \<Longrightarrow> n \<le> a div b \<longleftrightarrow> n * b \<le> a"
proof
  assume b: "b > 0" and "n \<le> a div b"
  then have "n * b \<le> a div b * b" by (simp add: mult_right_mono)
  also have "\<dots> \<le> a" using div_mult_mod_eq [of a b] pos_mod_sign [of b a] b by linarith
  finally show "n * b \<le> a" .
next
  assume b: "b > 0" and "n * b \<le> a"
  with zdiv_mono1 [of "n * b" a b] show "n \<le> a div b" by simp
qed

lemma cdiv_le_iff: "b > 0 \<Longrightarrow> cdiv a b \<le> n \<longleftrightarrow> a \<le> n * b"
proof -
  assume b: "b > 0"
  have "cdiv a b \<le> n \<longleftrightarrow> - n \<le> (- a) div b"
    by (auto simp: cdiv_def div_minus_right)
  also have "\<dots> \<longleftrightarrow> - n * b \<le> - a"
    using b by (rule le_div_iff_mult_le_int)
  finally show ?thesis by simp
qed

lemma less_cdiv_iff: "b > 0 \<Longrightarrow> n < cdiv a b \<longleftrightarrow> n * b < a"
  using cdiv_le_iff [of b a n] by linarith

lemma cdiv_bounds: "b > 0 \<Longrightarrow> a \<le> cdiv a b * b \<and> cdiv a b * b < a + b"
  using cdiv_le_iff [of b a "cdiv a b"] less_cdiv_iff [of b "cdiv a b - 1" a]
  by (simp add: algebra_simps)

lemma cdiv_nonneg: "b > 0 \<Longrightarrow> 0 \<le> a \<Longrightarrow> 0 \<le> cdiv a b"
  using less_cdiv_iff [of b "-1" a] by simp

lemma cdiv_mono: "b > 0 \<Longrightarrow> a \<le> a' \<Longrightarrow> cdiv a b \<le> cdiv a' b"
  by (meson cdiv_bounds cdiv_le_iff order_trans)

lemma cdiv_mult [simp]: "b > 0 \<Longrightarrow> cdiv (n * b) b = n"
  by (simp add: cdiv_def div_minus_right flip: mult_minus_left)

lemma cdiv_zero [simp]: "cdiv 0 b = 0"
  by (simp add: cdiv_def)

lemma cdiv_alt: "b > 0 \<Longrightarrow> cdiv a b = (a + b - 1) div b"
proof -
  assume b: "b > 0"
  have "cdiv a b \<le> (a + b - 1) div b"
    using b cdiv_bounds [of b a] by (simp add: le_div_iff_mult_le_int)
  moreover have "(a + b - 1) div b \<le> cdiv a b"
    using b cdiv_bounds [of b a] le_div_iff_mult_le_int [of b "cdiv a b + 1" "a + b - 1"]
    by (simp add: algebra_simps)
  ultimately show ?thesis by simp
qed

lemma div_le_cdiv: "b > 0 \<Longrightarrow> a div b \<le> cdiv a b"
  by (simp add: cdiv_alt zdiv_mono1)

lemma round_up_cdiv: "y > 0 \<Longrightarrow> round_up x y = cdiv x y * y"
  by (simp add: round_up_def cdiv_alt)

lemma round_down_bounds: "y > 0 \<Longrightarrow> round_down x y \<le> x \<and> x < round_down x y + y"
  using div_mult_mod_eq [of x y] pos_mod_sign [of y x] pos_mod_bound [of y x]
  unfolding round_down_def by linarith

lemma round_down_dvd [simp]: "y dvd round_down x y"
  by (simp add: round_down_def)

lemma round_down_nonneg: "y > 0 \<Longrightarrow> 0 \<le> x \<Longrightarrow> 0 \<le> round_down x y"
  by (simp add: round_down_def pos_imp_zdiv_nonneg_iff)

lemma round_down_greatest: "y > 0 \<Longrightarrow> y dvd m \<Longrightarrow> m \<le> x \<Longrightarrow> m \<le> round_down x y"
proof -
  assume "y > 0" "y dvd m" "m \<le> x"
  then obtain k where "m = k * y" "k \<le> x div y"
    by (metis dvdE mult.commute le_div_iff_mult_le_int)
  with \<open>y > 0\<close> show ?thesis by (simp add: round_down_def mult_right_mono)
qed

lemma sub_mod_eq_round_down: "x - x mod y = round_down x y" for x y :: int
  by (simp add: round_down_def minus_mod_eq_div_mult)

subsection \<open>Powers of two\<close>

lemma bit_length_0 [simp]: "bit_length 0 = 0"
  by (subst bit_length.simps) simp

lemma less_two_power_bit_length: "n < 2 ^ bit_length n"
proof (induction n rule: bit_length.induct)
  case (1 n)
  show ?case
  proof (cases "n = 0")
    case False
    with 1 have "n div 2 < 2 ^ bit_length (n div 2)" by simp
    moreover have "n < 2 * Suc (n div 2)" by arith
    ultimately show ?thesis using False by (simp add: bit_length.simps [of n])
  qed simp
qed

lemma two_power_bit_length_le: "n > 0 \<Longrightarrow> 2 ^ bit_length n \<le> 2 * n"
proof (induction n rule: bit_length.induct)
  case (1 n)
  show ?case
  proof (cases "n = 1")
    case True
    then show ?thesis by (simp add: bit_length.simps)
  next
    case False
    with 1 have "2 ^ bit_length (n div 2) \<le> 2 * (n div 2)" by simp
    moreover have "2 * (n div 2) \<le> n" by arith
    ultimately show ?thesis using 1(2) by (simp add: bit_length.simps [of n])
  qed
qed

lemma even_and_minus: "(2 * m) AND (- (2 * m)) = 2 * (m AND (- m))" for m :: int
proof -
  have "(2 * m) AND (2 * (- m)) = 2 * (m AND (- m))"
    by (subst and_int_rec) (simp del: mult_minus_right)
  then show ?thesis by simp
qed

lemma odd_and_minus: "odd n \<Longrightarrow> n AND (- n) = 1" for n :: int
proof -
  assume "odd n"
  then obtain b where n: "n = 2 * b + 1" by (auto elim: oddE)
  have "(- (2 * b) - 1) div 2 = NOT b" by (simp add: not_int_def)
  with n show ?thesis by (subst and_int_rec) simp
qed

lemma next_power_of_2_eq: "n \<ge> 1 \<Longrightarrow> next_power_of_2 n = 2 ^ bit_length (nat (n - 1))"
  by (simp add: next_power_of_2_def push_bit_eq_mult)

lemma largest_power_of_2_divisor_pos:
  "n > 0 \<Longrightarrow> \<exists>k q. odd q \<and> n = 2 ^ k * q \<and> largest_power_of_2_divisor n = 2 ^ k"
proof (induction "nat n" arbitrary: n rule: less_induct)
  case less
  show ?case
  proof (cases "even n")
    case True
    then obtain m where m: "n = 2 * m" by blast
    with less.prems have "nat m < nat n" "m > 0" by auto
    with less.hyps obtain k q
      where "odd q" "m = 2 ^ k * q" "largest_power_of_2_divisor m = 2 ^ k" by blast
    with m even_and_minus [of m] show ?thesis
      by (intro exI [of _ "Suc k"] exI [of _ q])
        (simp add: largest_power_of_2_divisor_def)
  next
    case False
    then show ?thesis
      by (intro exI [of _ 0] exI [of _ n])
        (simp add: largest_power_of_2_divisor_def odd_and_minus)
  qed
qed

lemma next_power_of_2_least:
  assumes "n > 0"
  shows "\<exists>k. next_power_of_2 n = 2 ^ k \<and> n \<le> 2 ^ k \<and> (\<forall>j. n \<le> 2 ^ j \<longrightarrow> k \<le> j)"
proof -
  let ?m = "nat (n - 1)"
  have m: "int ?m = n - 1" using assms by simp
  have up: "n \<le> 2 ^ bit_length ?m"
  proof -
    have "int ?m < int (2 ^ bit_length ?m)"
      using less_two_power_bit_length [of ?m] by (simp only: of_nat_less_iff)
    with m show ?thesis by simp
  qed
  have least: "bit_length ?m \<le> j" if "n \<le> 2 ^ j" for j
  proof (rule ccontr)
    assume "\<not> bit_length ?m \<le> j"
    then have lt: "j < bit_length ?m" by simp
    then have "?m > 0" by (cases "?m = 0") auto
    then have "2 ^ bit_length ?m \<le> 2 * ?m" by (rule two_power_bit_length_le)
    moreover have "(2 :: nat) ^ Suc j \<le> 2 ^ bit_length ?m"
      using lt by (intro power_increasing) auto
    ultimately have "2 ^ j \<le> ?m" unfolding power_Suc by linarith
    then have "int (2 ^ j) \<le> int ?m" by (simp only: of_nat_le_iff)
    with m that show False by simp
  qed
  show ?thesis using up least assms by (auto simp: next_power_of_2_eq)
qed

text \<open>
  Capacity planning: for a positive block size, \<open>cdiv a b\<close> is the least number of
  blocks that hold \<open>a\<close> tokens, \<open>round_up\<close> is that many whole blocks, the least multiple of
  the block size not below its argument, and \<open>round_down\<close> is the greatest not above it.
\<close>

theorem block_rounding_exact:
  assumes "b > 0"
  shows "(cdiv a b \<le> n \<longleftrightarrow> a \<le> n * b)
    \<and> round_up a b = cdiv a b * b \<and> a \<le> round_up a b \<and> round_up a b < a + b
    \<and> b dvd round_down a b \<and> round_down a b \<le> a \<and> (b dvd m \<and> m \<le> a \<longrightarrow> m \<le> round_down a b)"
  using assms cdiv_bounds [of b a]
  by (simp add: cdiv_le_iff round_up_cdiv round_down_greatest round_down_bounds)

theorem block_rounding_exact_witness:
  "cdiv 33 16 \<le> 3 \<and> \<not> cdiv 33 16 \<le> 2 \<and> 32 \<le> round_down 33 16"
proof -
  have b: "(0 :: int) < 16" by simp
  show ?thesis
    using block_rounding_exact [OF b, of 33 3 32] block_rounding_exact [OF b, of 33 2 32]
    by simp
qed

text \<open>
  \<open>next_power_of_2\<close> of a positive number is the least power of two that is not below
  it, and \<open>largest_power_of_2_divisor\<close> is the power of two in its factorisation: dividing
  by it leaves an odd number.
\<close>

theorem power_of_2_helpers:
  assumes "n > 0"
  shows "(\<exists>k. next_power_of_2 n = 2 ^ k \<and> n \<le> 2 ^ k \<and> (\<forall>j. n \<le> 2 ^ j \<longrightarrow> k \<le> j))
    \<and> (\<exists>k q. odd q \<and> n = 2 ^ k * q \<and> largest_power_of_2_divisor n = 2 ^ k)"
  using next_power_of_2_least [OF assms] largest_power_of_2_divisor_pos [OF assms] by blast

theorem power_of_2_helpers_witness:
  "\<exists>k. next_power_of_2 40 = 2 ^ k \<and> (40 :: int) \<le> 2 ^ k \<and> (\<forall>j. (40 :: int) \<le> 2 ^ j \<longrightarrow> k \<le> j)"
  using power_of_2_helpers [of 40] by simp

end
