(* ===== verification/Hash_Keys.thy ===== *)
theory Hash_Keys
  imports Math_Utils
begin

text \<open>
  Prefix-cache keys of \<open>vllm/v1/core/kv_cache_utils.py\<close>: block hashes are byte strings,
  a key is a block hash followed by its KV cache group id in four big-endian bytes, and an
  external hash is either the bytes or their value cut to 64 bits. Also the seed of
  \<open>NONE_HASH\<close>, the hash that stands for the empty prefix.
\<close>

type_synonym byte = "8 word"

type_synonym block_hash = "byte list"

type_synonym hash_key = "byte list"

subsection \<open>Big-endian integers of the standard library\<close>

text \<open>\<open>int.to_bytes(n, "big", signed=False)\<close> and \<open>int.from_bytes(_, "big", signed=False)\<close>.\<close>

fun be_bytes :: "nat \<Rightarrow> int \<Rightarrow> byte list" where
  "be_bytes 0 v = []"
| "be_bytes (Suc n) v = be_bytes n (v div 256) @ [word_of_int v]"

definition to_bytes_big :: "nat \<Rightarrow> int \<Rightarrow> byte list result" where
  "to_bytes_big n v = (if 0 \<le> v \<and> v < 256 ^ n then Inr (be_bytes n v) else Inl OverflowError)"

definition from_bytes_big :: "byte list \<Rightarrow> int" where
  "from_bytes_big bs = fold (\<lambda>b acc. acc * 256 + uint b) bs 0"

subsection \<open>Keys\<close>

definition make_block_hash_with_group_id :: "block_hash \<Rightarrow> int \<Rightarrow> hash_key result" where
  "make_block_hash_with_group_id block_hash group_id =
     bindE (to_bytes_big 4 group_id) (\<lambda>bs. Inr (block_hash @ bs))"

definition get_block_hash :: "hash_key \<Rightarrow> block_hash" where
  "get_block_hash key = take (length key - 4) key"

definition get_group_id :: "hash_key \<Rightarrow> int" where
  "get_group_id key = from_bytes_big (drop (length key - 4) key)"

datatype external_block_hash = ExtBytes block_hash | ExtInt int

text \<open>The flag is the environment variable \<open>VLLM_KV_EVENTS_USE_INT_BLOCK_HASHES\<close>.\<close>

definition maybe_convert_block_hash :: "bool \<Rightarrow> block_hash \<Rightarrow> external_block_hash" where
  "maybe_convert_block_hash use_int_block_hashes hash_bytes =
     (if \<not> use_int_block_hashes then ExtBytes hash_bytes
      else ExtInt (from_bytes_big hash_bytes AND (push_bit 64 1 - 1)))"

subsection \<open>The seed of the first hash\<close>

definition DEFAULT_NONE_HASH_SEED :: string where
  "DEFAULT_NONE_HASH_SEED = ''vllm-none-hash''"

text \<open>
  The environment variable \<open>PYTHONHASHSEED\<close>, whether the hash function is one of the
  non-cryptographic ones, and the hexadecimal random bytes of \<open>os.urandom\<close> are inputs.
\<close>

definition resolve_none_hash_seed :: "string option \<Rightarrow> bool \<Rightarrow> string \<Rightarrow> string" where
  "resolve_none_hash_seed hash_seed non_crypto random_hex =
     (case hash_seed of
        Some s \<Rightarrow> s
      | None \<Rightarrow> if non_crypto then random_hex else DEFAULT_NONE_HASH_SEED)"

definition get_none_hash_seed :: "string option \<Rightarrow> string" where
  "get_none_hash_seed none_hash_seed =
     (case none_hash_seed of None \<Rightarrow> DEFAULT_NONE_HASH_SEED | Some s \<Rightarrow> s)"

text \<open>\<open>init_none_hash\<close> sets the globals \<open>NONE_HASH\<close> and \<open>_NONE_HASH_SEED\<close>.\<close>

definition init_none_hash ::
  "(string \<Rightarrow> block_hash) \<Rightarrow> string option \<Rightarrow> bool \<Rightarrow> string \<Rightarrow> block_hash \<times> string option" where
  "init_none_hash hash_fn hash_seed non_crypto random_hex =
     (let seed = resolve_none_hash_seed hash_seed non_crypto random_hex
      in (hash_fn seed, Some seed))"

subsection \<open>Round trips\<close>

lemma length_be_bytes [simp]: "length (be_bytes n v) = n"
  by (induction n arbitrary: v) auto

lemma from_bytes_big_Nil [simp]: "from_bytes_big [] = 0"
  by (simp add: from_bytes_big_def)

lemma from_bytes_big_snoc [simp]:
  "from_bytes_big (bs @ [b]) = from_bytes_big bs * 256 + uint b"
  by (simp add: from_bytes_big_def)

lemma from_bytes_be_bytes: "0 \<le> v \<Longrightarrow> v < 256 ^ n \<Longrightarrow> from_bytes_big (be_bytes n v) = v"
proof (induction n arbitrary: v)
  case 0
  then show ?case by simp
next
  case (Suc n)
  have "v div 256 < 256 ^ n"
    using Suc.prems le_div_iff_mult_le_int [of 256 "256 ^ n" v] by simp
  with Suc show ?case
    by (simp add: pos_imp_zdiv_nonneg_iff uint_word_of_int)
qed

lemma be_bytes_inj:
  "0 \<le> v \<Longrightarrow> v < 256 ^ n \<Longrightarrow> 0 \<le> w \<Longrightarrow> w < 256 ^ n \<Longrightarrow> be_bytes n v = be_bytes n w \<longleftrightarrow> v = w"
  by (metis from_bytes_be_bytes)

lemma make_key_Inr:
  "make_block_hash_with_group_id h g = Inr k \<longleftrightarrow>
     0 \<le> g \<and> g < 2 ^ 32 \<and> k = h @ be_bytes 4 g"
  by (auto simp: make_block_hash_with_group_id_def to_bytes_big_def err_simps)

lemma from_bytes_big_append:
  "from_bytes_big (as @ bs) = from_bytes_big as * 256 ^ length bs + from_bytes_big bs"
proof (induction bs rule: rev_induct)
  case Nil
  then show ?case by simp
next
  case (snoc b bs)
  then show ?case by (simp flip: append_assoc add: algebra_simps)
qed

lemma from_bytes_big_bounds: "0 \<le> from_bytes_big bs \<and> from_bytes_big bs < 256 ^ length bs"
proof (induction bs rule: rev_induct)
  case (snoc b bs)
  have "uint b < 256" using uint_lt2p [of b] by simp
  moreover have "0 \<le> uint b" by simp
  moreover have "from_bytes_big bs + 1 \<le> 256 ^ length bs" using snoc by linarith
  ultimately show ?case using snoc by (simp add: algebra_simps)
qed simp

text \<open>
  C27. A prefix-cache key determines its block hash and its group: packing succeeds exactly
  for group ids that fit four bytes (otherwise Python's \<open>OverflowError\<close>), unpacking gives
  both parts back, and two packed keys are equal only if hashes and groups are.
\<close>

theorem key_packing_roundtrip:
  "(case make_block_hash_with_group_id h g of
      Inl e \<Rightarrow> e = OverflowError \<and> \<not> (0 \<le> g \<and> g < 2 ^ 32)
    | Inr k \<Rightarrow> 0 \<le> g \<and> g < 2 ^ 32 \<and> get_block_hash k = h \<and> get_group_id k = g
        \<and> (\<forall>h' g'. make_block_hash_with_group_id h' g' = Inr k \<longleftrightarrow> h' = h \<and> g' = g))"
proof (cases "0 \<le> g \<and> g < 2 ^ 32")
  case True
  then have mk: "make_block_hash_with_group_id h g = Inr (h @ be_bytes 4 g)"
    by (simp add: make_key_Inr)
  have "h @ be_bytes 4 g = h' @ be_bytes 4 g' \<longleftrightarrow> h = h' \<and> g = g'"
    if "0 \<le> g'" "g' < 2 ^ 32" for h' g'
    using True that be_bytes_inj [of g 4 g'] by (auto simp: append_eq_append_conv)
  then have "\<forall>h' g'. make_block_hash_with_group_id h' g' = Inr (h @ be_bytes 4 g) \<longleftrightarrow> h' = h \<and> g' = g"
    using True by (auto simp: make_key_Inr)
  with True from_bytes_be_bytes [of g 4] show ?thesis
    unfolding mk by (simp add: get_block_hash_def get_group_id_def)
next
  case False
  then show ?thesis by (auto simp: make_block_hash_with_group_id_def to_bytes_big_def)
qed

text \<open>
  With integer block hashes switched on, the external hash is the value of the last
  eight bytes of the block hash, so it fits 64 bits; switched off, it is the hash itself.
\<close>

theorem external_hash_low_64_bits:
  "maybe_convert_block_hash False h = ExtBytes h
   \<and> maybe_convert_block_hash True h = ExtInt (from_bytes_big (drop (length h - 8) h))
   \<and> from_bytes_big (drop (length h - 8) h) < 2 ^ 64"
proof -
  let ?lo = "drop (length h - 8) h" and ?hi = "take (length h - 8) h"
  have lo: "0 \<le> from_bytes_big ?lo \<and> from_bytes_big ?lo < 2 ^ 64"
  proof -
    have "(256 :: int) ^ length ?lo \<le> 256 ^ 8" by (rule power_increasing) auto
    with from_bytes_big_bounds [of ?lo] show ?thesis by simp
  qed
  have "from_bytes_big h mod 2 ^ 64 = from_bytes_big ?lo"
  proof (cases "length h \<le> 8")
    case True
    with lo show ?thesis by simp
  next
    case False
    have "from_bytes_big h = from_bytes_big ?hi * 2 ^ 64 + from_bytes_big ?lo"
      using from_bytes_big_append [of ?hi ?lo] False by simp
    with lo show ?thesis by simp
  qed
  moreover have "push_bit 64 1 - 1 = (mask 64 :: int)"
    by (simp add: mask_eq_exp_minus_1 push_bit_eq_mult)
  ultimately have "from_bytes_big h AND (push_bit 64 1 - 1) = from_bytes_big ?lo"
    by (simp only: take_bit_eq_mask [symmetric] take_bit_eq_mod)
  with lo show ?thesis by (simp add: maybe_convert_block_hash_def)
qed

text \<open>
  Seeds of \<open>NONE_HASH\<close>: two processes with the same \<open>PYTHONHASHSEED\<close> setting and a
  cryptographic hash compute the same \<open>NONE_HASH\<close>, whatever their random bytes; without the
  variable a non-cryptographic hash takes the random bytes; and the seed other components
  read afterwards is the one \<open>NONE_HASH\<close> was derived from.
\<close>

theorem none_hash_seed_policy:
  "init_none_hash f seed False r = init_none_hash f seed False r'
   \<and> init_none_hash f (Some s) c r = init_none_hash f (Some s) c' r'
   \<and> fst (init_none_hash f None True r) = f r
   \<and> fst (init_none_hash f seed c r) = f (get_none_hash_seed (snd (init_none_hash f seed c r)))"
  by (simp add: init_none_hash_def resolve_none_hash_seed_def get_none_hash_seed_def Let_def
      split: option.splits)

end
