(* ===== verification/Free_Queue.thy ===== *)
theory Free_Queue
  imports Hash_Keys
begin

text \<open>
  KV cache blocks and the queue of free blocks of \<open>vllm/v1/core/kv_cache_utils.py\<close>
  (\<open>KVCacheBlock\<close>, \<open>FreeKVCacheBlockQueue\<close>).

  The code links block objects in place, so the model has an explicit store: a block object
  is named by a reference, the store maps each reference to the object's fields, and every
  queue operation is the sequence of pointer assignments of the source. What the operations
  mean is stated against the list of queued references: \<open>queue_of q xs\<close> says that \<open>q\<close>'s
  pointers spell \<open>xs\<close> in both directions between the two fake blocks, and the locale
  \<open>free_queue_spec\<close> is the contract the block pool relies on.
\<close>

subsection \<open>Blocks\<close>

text \<open>The pool's blocks, and the two fake blocks at the ends of the free list.\<close>

datatype block_ref = Blk nat | FakeHead | FakeTail

text \<open>\<open>block_id\<close> is set by the constructor and never reassigned; fake blocks have \<open>-1\<close>.\<close>

fun block_id :: "block_ref \<Rightarrow> int" where
  "block_id (Blk i) = int i"
| "block_id FakeHead = -1"
| "block_id FakeTail = -1"

record kv_cache_block =
  ref_cnt :: int
  block_hash :: "hash_key option"
  block_hash_num_tokens :: "int option"
  prev_free_block :: "block_ref option"
  next_free_block :: "block_ref option"
  is_null :: bool

type_synonym store = "block_ref \<Rightarrow> kv_cache_block"

definition new_block :: kv_cache_block where
  "new_block = \<lparr>ref_cnt = 0, block_hash = None, block_hash_num_tokens = None,
     prev_free_block = None, next_free_block = None, is_null = False\<rparr>"

definition set_block_hash :: "block_ref \<Rightarrow> hash_key \<Rightarrow> int option \<Rightarrow> store \<Rightarrow> store result" where
  "set_block_hash b key num_tokens h =
     (if block_hash (h b) = None \<and> block_hash_num_tokens (h b) = None
      then Inr (h(b := (h b)\<lparr>block_hash := Some key, block_hash_num_tokens := num_tokens\<rparr>))
      else Inl AssertionError)"

definition reset_hash :: "block_ref \<Rightarrow> store \<Rightarrow> store" where
  "reset_hash b h = h(b := (h b)\<lparr>block_hash := None, block_hash_num_tokens := None\<rparr>)"

subsection \<open>The queue\<close>

record free_queue =
  store :: store
  num_free_blocks :: int

definition set_next :: "block_ref \<Rightarrow> block_ref option \<Rightarrow> store \<Rightarrow> store" where
  "set_next b p h = h(b := (h b)\<lparr>next_free_block := p\<rparr>)"

definition set_prev :: "block_ref \<Rightarrow> block_ref option \<Rightarrow> store \<Rightarrow> store" where
  "set_prev b p h = h(b := (h b)\<lparr>prev_free_block := p\<rparr>)"

text \<open>
  \<open>__init__(blocks)\<close>: the consecutive links, then the fake blocks. The fake blocks are new
  objects.
\<close>

definition link_block :: "block_ref list \<Rightarrow> nat \<Rightarrow> store \<Rightarrow> store" where
  "link_block blocks i h =
     (let h1 = (if i > 0 then set_prev (blocks ! i) (Some (blocks ! (i - 1))) h else h)
      in if i + 1 < length blocks then set_next (blocks ! i) (Some (blocks ! (i + 1))) h1 else h1)"

definition init_queue :: "block_ref list \<Rightarrow> store \<Rightarrow> free_queue" where
  "init_queue blocks h0 =
     (let h1 = fold (link_block blocks) [0..<length blocks] h0;
          h2 = h1(FakeHead := new_block, FakeTail := new_block)
      in \<lparr>store =
            (if blocks \<noteq> [] then
               (let h3 = set_next FakeHead (Some (hd blocks)) h2;
                    h4 = set_prev (hd blocks) (Some FakeHead) h3;
                    h5 = set_prev FakeTail (Some (last blocks)) h4
                in set_next (last blocks) (Some FakeTail) h5)
             else set_prev FakeTail (Some FakeHead) (set_next FakeHead (Some FakeTail) h2)),
          num_free_blocks = int (length blocks)\<rparr>)"

definition popleft :: "free_queue \<Rightarrow> (block_ref \<times> free_queue) result" where
  "popleft q =
     (let h = store q in
      case next_free_block (h FakeHead) of
        None \<Rightarrow> bindE (assertE (num_free_blocks q = 0)) (\<lambda>_. Inl ValueError)
      | Some first_block \<Rightarrow>
          if first_block = FakeTail
          then bindE (assertE (num_free_blocks q = 0)) (\<lambda>_. Inl ValueError)
          else
            (case next_free_block (h first_block) of
               None \<Rightarrow> Inl RuntimeError
             | Some second_block \<Rightarrow>
                 (let h1 = set_next FakeHead (Some second_block) h;
                      h2 = set_prev second_block (Some FakeHead) h1;
                      h3 = set_next first_block None (set_prev first_block None h2)
                  in Inr (first_block,
                       q\<lparr>store := h3, num_free_blocks := num_free_blocks q - 1\<rparr>))))"

text \<open>The loop of \<open>popleft_n\<close>: the blocks popped so far, the current block and the store.\<close>

fun popleft_n_loop ::
  "nat \<Rightarrow> block_ref option \<Rightarrow> store \<Rightarrow> block_ref list \<Rightarrow>
     (block_ref list \<times> block_ref option \<times> store) result" where
  "popleft_n_loop 0 cur h ret = Inr (ret, cur, h)"
| "popleft_n_loop (Suc k) None h ret = Inl AssertionError"
| "popleft_n_loop (Suc k) (Some cur) h ret =
     popleft_n_loop k (next_free_block (h cur))
       (set_next cur None (set_prev cur None h)) (ret @ [cur])"

definition popleft_n :: "int \<Rightarrow> free_queue \<Rightarrow> (block_ref list \<times> free_queue) result" where
  "popleft_n n q =
     (if n = 0 then Inr ([], q)
      else bindE (assertE (num_free_blocks q \<ge> n)) (\<lambda>_.
        bindE (popleft_n_loop (nat n) (next_free_block (store q FakeHead)) (store q) [])
          (\<lambda>(ret, cur, h).
             Inr (ret, q\<lparr>store :=
                 (case cur of
                    None \<Rightarrow> h
                  | Some c \<Rightarrow> set_prev c (Some FakeHead) (set_next FakeHead (Some c) h)),
               num_free_blocks := num_free_blocks q - n\<rparr>))))"

definition remove :: "block_ref \<Rightarrow> free_queue \<Rightarrow> free_queue result" where
  "remove b q =
     (let h = store q in
      case (prev_free_block (h b), next_free_block (h b)) of
        (Some p, Some n) \<Rightarrow>
          (let h1 = set_next p (Some n) h;
               h2 = set_prev n (Some p) h1;
               h3 = set_next b None (set_prev b None h2)
           in Inr (q\<lparr>store := h3, num_free_blocks := num_free_blocks q - 1\<rparr>))
      | _ \<Rightarrow> Inl RuntimeError)"

definition append_block :: "block_ref \<Rightarrow> free_queue \<Rightarrow> free_queue result" where
  "append_block b q =
     (let h = store q in
      case prev_free_block (h FakeTail) of
        None \<Rightarrow> Inl RuntimeError
      | Some last_block \<Rightarrow>
          (let h1 = set_prev b (Some last_block) (set_next last_block (Some b) h);
               h2 = set_prev FakeTail (Some b) (set_next b (Some FakeTail) h1)
           in Inr (q\<lparr>store := h2, num_free_blocks := num_free_blocks q + 1\<rparr>)))"

text \<open>The loop shared by \<open>prepend_n\<close> and \<open>append_n\<close>: chain the blocks after \<open>prev_block\<close>.\<close>

fun chain_after :: "block_ref \<Rightarrow> block_ref list \<Rightarrow> store \<Rightarrow> block_ref \<times> store" where
  "chain_after prev_block [] h = (prev_block, h)"
| "chain_after prev_block (b # bs) h =
     chain_after b bs (set_next prev_block (Some b) (set_prev b (Some prev_block) h))"

definition prepend_n :: "block_ref list \<Rightarrow> free_queue \<Rightarrow> free_queue result" where
  "prepend_n blocks q =
     (if blocks = [] then Inr q
      else case next_free_block (store q FakeHead) of
        None \<Rightarrow> Inl AssertionError
      | Some first_block \<Rightarrow>
          (let (prev_block, h) = chain_after FakeHead blocks (store q);
               h1 = set_prev first_block (Some prev_block) (set_next prev_block (Some first_block) h)
           in Inr (q\<lparr>store := h1,
                num_free_blocks := num_free_blocks q + int (length blocks)\<rparr>)))"

definition append_n :: "block_ref list \<Rightarrow> free_queue \<Rightarrow> free_queue result" where
  "append_n blocks q =
     (if blocks = [] then Inr q
      else case prev_free_block (store q FakeTail) of
        None \<Rightarrow> Inl AssertionError
      | Some last_block \<Rightarrow>
          (let (prev_block, h) = chain_after last_block blocks (store q);
               h1 = set_prev FakeTail (Some prev_block) (set_next prev_block (Some FakeTail) h)
           in Inr (q\<lparr>store := h1,
                num_free_blocks := num_free_blocks q + int (length blocks)\<rparr>)))"

text \<open>
  The two traversals follow pointers until they end, which they do only if the list is not
  cyclic: \<open>None\<close> is a traversal that does not return.
\<close>

partial_function (option) collect_until_end ::
  "store \<Rightarrow> block_ref \<Rightarrow> block_ref list \<Rightarrow> block_ref list option" where
  "collect_until_end h cur ret =
     (case next_free_block (h cur) of
        None \<Rightarrow> Some ret
      | Some n \<Rightarrow> collect_until_end h n (ret @ [cur]))"

definition get_all_free_blocks :: "free_queue \<Rightarrow> block_ref list result option" where
  "get_all_free_blocks q =
     (case next_free_block (store q FakeHead) of
        None \<Rightarrow> Some (Inl RuntimeError)
      | Some cur \<Rightarrow> map_option Inr (collect_until_end (store q) cur []))"

partial_function (option) iter_until_tail ::
  "store \<Rightarrow> block_ref option \<Rightarrow> block_ref list \<Rightarrow> block_ref list option" where
  "iter_until_tail h cur ret =
     (case cur of
        None \<Rightarrow> Some ret
      | Some c \<Rightarrow>
          if c = FakeTail then Some ret
          else iter_until_tail h (next_free_block (h c)) (ret @ [c]))"

definition iter_blocks_after :: "block_ref option \<Rightarrow> free_queue \<Rightarrow> block_ref list option" where
  "iter_blocks_after cursor q =
     iter_until_tail (store q)
       (next_free_block (store q (case cursor of None \<Rightarrow> FakeHead | Some c \<Rightarrow> c))) []"

subsection \<open>What the pointers spell\<close>

lemma pointer_fields [simp]:
  "next_free_block (set_next u v h b) = (if b = u then v else next_free_block (h b))"
  "prev_free_block (set_next u v h b) = prev_free_block (h b)"
  "prev_free_block (set_prev u v h b) = (if b = u then v else prev_free_block (h b))"
  "next_free_block (set_prev u v h b) = next_free_block (h b)"
  by (simp_all add: set_next_def set_prev_def)

text \<open>The fields of a block other than its two pointers.\<close>

definition payload :: "store \<Rightarrow> block_ref \<Rightarrow> int \<times> hash_key option \<times> int option \<times> bool" where
  "payload h b = (ref_cnt (h b), block_hash (h b), block_hash_num_tokens (h b), is_null (h b))"

lemma payload_links [simp]:
  "payload (set_next u v h) = payload h" "payload (set_prev u v h) = payload h"
  by (auto simp: payload_def set_next_def set_prev_def)

text \<open>\<open>linked h as\<close>: consecutive references of \<open>as\<close> point at each other.\<close>

fun linked :: "store \<Rightarrow> block_ref list \<Rightarrow> bool" where
  "linked h [] = True"
| "linked h [a] = True"
| "linked h (a # b # as) =
     (next_free_block (h a) = Some b \<and> prev_free_block (h b) = Some a \<and> linked h (b # as))"

lemma linked_append:
  "as \<noteq> [] \<Longrightarrow> bs \<noteq> [] \<Longrightarrow> linked h (as @ bs) \<longleftrightarrow>
     linked h as \<and> linked h bs
     \<and> next_free_block (h (last as)) = Some (hd bs) \<and> prev_free_block (h (hd bs)) = Some (last as)"
proof (induction h as rule: linked.induct)
  case (2 h a)
  then show ?case by (cases bs) auto
qed auto

lemma linked_cong:
  assumes "\<And>a. a \<in> set (butlast as) \<Longrightarrow> next_free_block (h' a) = next_free_block (h a)"
    and "\<And>a. a \<in> set (tl as) \<Longrightarrow> prev_free_block (h' a) = prev_free_block (h a)"
  shows "linked h' as = linked h as"
  using assms
proof (induction h as rule: linked.induct)
  case (3 h a b as)
  have "linked h' (b # as) = linked h (b # as)"
    by (rule "3.IH") (use 3 in \<open>auto simp: list.set_sel(2)\<close>)
  with 3(2) [of a] 3(3) [of b] show ?case by simp
qed auto

lemma linked_frame:
  assumes d: "distinct as"
    and nx: "\<And>a. a \<in> set as \<Longrightarrow> a \<noteq> last as \<Longrightarrow> next_free_block (h' a) = next_free_block (h a)"
    and pv: "\<And>a. a \<in> set as \<Longrightarrow> a \<noteq> hd as \<Longrightarrow> prev_free_block (h' a) = prev_free_block (h a)"
  shows "linked h' as = linked h as"
proof (rule linked_cong)
  fix a assume a: "a \<in> set (butlast as)"
  with d have "a \<noteq> last as"
    by (metis append_butlast_last_id butlast.simps(1) distinct_append_snoc empty_iff list.set(1))
  with a nx show "next_free_block (h' a) = next_free_block (h a)"
    by (blast dest: in_set_butlastD)
next
  fix a assume "a \<in> set (tl as)"
  with d have "a \<in> set as" "a \<noteq> hd as" by (cases as; auto)+
  then show "prev_free_block (h' a) = prev_free_block (h a)" by (rule pv)
qed

definition queue_of :: "free_queue \<Rightarrow> block_ref list \<Rightarrow> bool" where
  "queue_of q xs \<longleftrightarrow>
     distinct xs \<and> FakeHead \<notin> set xs \<and> FakeTail \<notin> set xs
     \<and> linked (store q) (FakeHead # xs @ [FakeTail])
     \<and> prev_free_block (store q FakeHead) = None \<and> next_free_block (store q FakeTail) = None
     \<and> (\<forall>b. b \<notin> set xs \<and> b \<noteq> FakeHead \<and> b \<noteq> FakeTail \<longrightarrow>
          prev_free_block (store q b) = None \<and> next_free_block (store q b) = None)
     \<and> num_free_blocks q = int (length xs)"

text \<open>Only the pointers and the counter matter.\<close>

lemma queue_of_cong:
  assumes "\<And>b. next_free_block (store q' b) = next_free_block (store q b)"
    and "\<And>b. prev_free_block (store q' b) = prev_free_block (store q b)"
    and "num_free_blocks q' = num_free_blocks q"
  shows "queue_of q' xs = queue_of q xs"
  using assms linked_cong [of "FakeHead # xs @ [FakeTail]" "store q'" "store q"]
  unfolding queue_of_def by simp

lemma queue_ofD:
  assumes "queue_of q xs"
  shows "distinct xs" "FakeHead \<notin> set xs" "FakeTail \<notin> set xs" "distinct (FakeHead # xs @ [FakeTail])"
    "linked (store q) (FakeHead # xs @ [FakeTail])" "num_free_blocks q = int (length xs)"
    "next_free_block (store q FakeTail) = None" "prev_free_block (store q FakeHead) = None"
    "\<And>b. b \<notin> set xs \<Longrightarrow> b \<noteq> FakeHead \<Longrightarrow> b \<noteq> FakeTail \<Longrightarrow>
       prev_free_block (store q b) = None \<and> next_free_block (store q b) = None"
  using assms unfolding queue_of_def by auto

lemma queue_of_head:
  "queue_of q xs \<Longrightarrow> next_free_block (store q FakeHead) = Some (hd (xs @ [FakeTail]))"
  by (cases xs) (auto simp: queue_of_def)

lemma queue_of_tail:
  assumes "queue_of q xs"
  shows "prev_free_block (store q FakeTail) = Some (last (FakeHead # xs))"
  using queue_ofD(5) [OF assms] linked_append [of "FakeHead # xs" "[FakeTail]" "store q"] by simp

text \<open>The pointers determine the list: at most one list is spelled.\<close>

lemma linked_unique:
  assumes "linked h (a # xs @ [FakeTail])" "linked h (a # ys @ [FakeTail])"
    and "FakeTail \<notin> set xs" "FakeTail \<notin> set ys"
  shows "xs = ys"
  using assms
proof (induction xs arbitrary: a ys)
  case Nil
  then show ?case by (cases ys) auto
next
  case (Cons x xs)
  then show ?case by (cases ys) auto
qed

lemma queue_of_unique: "queue_of q xs \<Longrightarrow> queue_of q ys \<Longrightarrow> xs = ys"
  unfolding queue_of_def by (blast intro: linked_unique)

subsection \<open>The operations on the spelled list\<close>

lemma popleft_Cons:
  assumes q: "queue_of q (x # xs)"
  shows "\<exists>q'. popleft q = Inr (x, q') \<and> queue_of q' xs \<and> payload (store q') = payload (store q)"
proof -
  obtain y ys where rest: "xs @ [FakeTail] = y # ys" by (cases "xs @ [FakeTail]") auto
  let ?h = "store q"
  let ?h3 = "set_next x None (set_prev x None (set_prev y (Some FakeHead) (set_next FakeHead (Some y) ?h)))"
  let ?q' = "q\<lparr>store := ?h3, num_free_blocks := num_free_blocks q - 1\<rparr>"
  from queue_ofD(4,5) [OF q] rest
  have lk: "linked ?h (FakeHead # x # y # ys)" and d: "distinct (FakeHead # x # y # ys)"
    by auto
  from lk d q have pop: "popleft q = Inr (x, ?q')"
    by (auto simp: popleft_def Let_def queue_of_def)
  have "linked ?h3 (y # ys) = linked ?h (y # ys)"
    using d by (intro linked_frame) auto
  with lk d have "linked ?h3 (FakeHead # xs @ [FakeTail])" unfolding rest by auto
  moreover have "set (y # ys) = set xs \<union> {FakeTail}"
    using arg_cong [OF rest, of set] by auto
  ultimately have "queue_of ?q' xs"
    using q d by (auto simp: queue_of_def)
  with pop show ?thesis by auto
qed

lemma popleft_Nil: "queue_of q [] \<Longrightarrow> popleft q = Inl ValueError"
  by (simp add: popleft_def Let_def queue_of_def)

lemma popleft_n_loop_spec:
  assumes "linked h (xs @ z # zs)" "distinct (xs @ z # zs)"
  shows "\<exists>h'. popleft_n_loop (length xs) (Some (hd (xs @ [z]))) h ret = Inr (ret @ xs, Some z, h')
    \<and> (\<forall>b. next_free_block (h' b) = (if b \<in> set xs then None else next_free_block (h b)))
    \<and> (\<forall>b. prev_free_block (h' b) = (if b \<in> set xs then None else prev_free_block (h b)))
    \<and> payload h' = payload h"
  using assms
proof (induction xs arbitrary: h ret)
  case Nil
  then show ?case by simp
next
  case (Cons x xs)
  let ?h1 = "set_next x None (set_prev x None h)"
  have nx: "next_free_block (h x) = Some (hd (xs @ [z]))"
    using Cons.prems(1) by (cases xs) auto
  have "linked ?h1 (xs @ z # zs) = linked h (xs @ z # zs)"
    using Cons.prems(2) by (intro linked_frame) auto
  moreover have "linked h (xs @ z # zs)" using Cons.prems(1) by (cases xs) auto
  ultimately obtain h' where h':
    "popleft_n_loop (length xs) (Some (hd (xs @ [z]))) ?h1 (ret @ [x]) = Inr ((ret @ [x]) @ xs, Some z, h')"
    "\<forall>b. next_free_block (h' b) = (if b \<in> set xs then None else next_free_block (?h1 b))"
    "\<forall>b. prev_free_block (h' b) = (if b \<in> set xs then None else prev_free_block (?h1 b))"
    "payload h' = payload ?h1"
    using Cons.IH [of ?h1 "ret @ [x]"] Cons.prems(2) by auto
  show ?case
    by (rule exI [of _ h']) (use h' nx in auto)
qed

lemma popleft_n_append:
  assumes q: "queue_of q (xs @ ys)"
  shows "\<exists>q'. popleft_n (int (length xs)) q = Inr (xs, q') \<and> queue_of q' ys
    \<and> payload (store q') = payload (store q)"
proof (cases "xs = []")
  case True
  with q show ?thesis by (simp add: popleft_n_def)
next
  case False
  obtain z zs where rest: "ys @ [FakeTail] = z # zs" by (cases "ys @ [FakeTail]") auto
  let ?h = "store q"
  from queue_ofD(4,5) [OF q] rest
  have lk: "linked ?h (FakeHead # xs @ z # zs)" and d: "distinct (FakeHead # xs @ z # zs)"
    by auto
  have lk': "linked ?h (xs @ z # zs)" using lk by (cases xs) auto
  from d have "distinct (xs @ z # zs)" by simp
  from popleft_n_loop_spec [OF lk' this, of "[]"] obtain h' where loop:
    "popleft_n_loop (length xs) (Some (hd (xs @ [z]))) ?h [] = Inr (xs, Some z, h')"
    and h': "\<forall>b. next_free_block (h' b) = (if b \<in> set xs then None else next_free_block (?h b))"
    "\<forall>b. prev_free_block (h' b) = (if b \<in> set xs then None else prev_free_block (?h b))"
    "payload h' = payload ?h"
    by auto
  let ?h2 = "set_prev z (Some FakeHead) (set_next FakeHead (Some z) h')"
  let ?q' = "q\<lparr>store := ?h2, num_free_blocks := num_free_blocks q - int (length xs)\<rparr>"
  have hd: "next_free_block (?h FakeHead) = Some (hd (xs @ [z]))"
    using queue_of_head [OF q] False by simp
  have pop: "popleft_n (int (length xs)) q = Inr (xs, ?q')"
    using loop False queue_ofD(6) [OF q] by (simp add: popleft_n_def hd)
  have "linked ?h2 (z # zs) = linked ?h (z # zs)"
    using d h' by (intro linked_frame) auto
  moreover have "linked ?h (z # zs)" using lk' False by (simp add: linked_append)
  ultimately have "linked ?h2 (FakeHead # ys @ [FakeTail])" unfolding rest by simp
  moreover have "set (z # zs) = set ys \<union> {FakeTail}" using arg_cong [OF rest, of set] by auto
  ultimately have "queue_of ?q' ys" using q d h' by (auto simp: queue_of_def)
  with pop h' show ?thesis by auto
qed

lemma popleft_n_nonpos:
  assumes q: "queue_of q xs" and n: "n > int (length xs)"
  shows "popleft_n n q = Inl AssertionError"
  using n queue_ofD(6) [OF q] by (auto simp: popleft_n_def)

lemma remove_mid:
  assumes q: "queue_of q (as @ b # bs)"
  shows "\<exists>q'. remove b q = Inr q' \<and> queue_of q' (as @ bs) \<and> payload (store q') = payload (store q)"
proof -
  obtain y ys where rest: "bs @ [FakeTail] = y # ys" by (cases "bs @ [FakeTail]") auto
  let ?h = "store q" and ?p = "last (FakeHead # as)"
  let ?h3 = "set_next b None (set_prev b None (set_prev y (Some ?p) (set_next ?p (Some y) ?h)))"
  let ?q' = "q\<lparr>store := ?h3, num_free_blocks := num_free_blocks q - 1\<rparr>"
  from queue_ofD(4,5) [OF q] rest
  have lk: "linked ?h ((FakeHead # as) @ b # y # ys)" and d: "distinct ((FakeHead # as) @ b # y # ys)"
    by auto
  have parts: "linked ?h (FakeHead # as)" "next_free_block (?h ?p) = Some b"
    "prev_free_block (?h b) = Some ?p" "next_free_block (?h b) = Some y" "linked ?h (y # ys)"
    using lk linked_append [of "FakeHead # as" "b # y # ys" ?h] by auto
  have rem: "remove b q = Inr ?q'" using parts by (simp add: remove_def Let_def)
  have p: "?p \<in> set (FakeHead # as)" "?p \<notin> set (butlast (FakeHead # as))"
    using d by (metis last_in_set list.discI,
        metis append_butlast_last_id distinct_append distinct_append_snoc list.discI)
  have "linked ?h3 (FakeHead # as) = linked ?h (FakeHead # as)"
    using d p by (intro linked_frame) auto
  moreover have "linked ?h3 (y # ys) = linked ?h (y # ys)"
    using d p by (intro linked_frame) auto
  ultimately have "linked ?h3 ((FakeHead # as) @ y # ys)"
    using parts d p by (subst linked_append) auto
  then have "linked ?h3 (FakeHead # (as @ bs) @ [FakeTail])" using rest by simp
  moreover have y: "y \<in> set bs \<union> {FakeTail}" using arg_cong [OF rest, of set] by auto
  moreover have "prev_free_block (?h3 c) = None \<and> next_free_block (?h3 c) = None"
    if "c \<notin> set (as @ bs)" "c \<noteq> FakeHead" "c \<noteq> FakeTail" for c
  proof (cases "c = b")
    case False
    with that y p(1) have "c \<notin> set (as @ b # bs)" "c \<noteq> y" "c \<noteq> ?p" by auto
    with queue_ofD(9) [OF q, of c] that False show ?thesis by simp
  qed simp
  moreover have "b \<noteq> FakeHead" "b \<noteq> FakeTail" "?p \<noteq> FakeTail" "y \<noteq> FakeHead"
    using queue_ofD(4) [OF q] p(1) d by auto
  ultimately have "queue_of ?q' (as @ bs)"
    using queue_ofD(1,2,3,6,7,8) [OF q] unfolding queue_of_def by simp
  with rem show ?thesis by auto
qed

lemma remove_member:
  assumes "queue_of q xs" "b \<in> set xs"
  shows "\<exists>q'. remove b q = Inr q' \<and> queue_of q' (remove1 b xs) \<and> payload (store q') = payload (store q)"
proof -
  obtain as bs where xs: "xs = as @ b # bs" "b \<notin> set as"
    using assms(2) by (meson split_list_first)
  with remove_mid [of q as b bs] assms(1) show ?thesis by (simp add: remove1_append)
qed

lemma remove_not_member: "queue_of q xs \<Longrightarrow> b \<notin> set xs \<Longrightarrow> remove b q = Inl RuntimeError"
  unfolding queue_of_def remove_def Let_def
  by (cases "b = FakeHead"; cases "b = FakeTail") (auto split: option.splits)

lemma chain_after_spec:
  assumes "distinct (p # bs)" and "chain_after p bs h = (l, h')"
  shows "l = last (p # bs) \<and> linked h' (p # bs) \<and> payload h' = payload h
    \<and> (\<forall>c. c \<notin> set bs \<longrightarrow> prev_free_block (h' c) = prev_free_block (h c))
    \<and> (\<forall>c. c \<notin> set (p # bs) \<or> c = l \<longrightarrow> next_free_block (h' c) = next_free_block (h c))"
  using assms
proof (induction bs arbitrary: p h)
  case Nil
  then show ?case by simp
next
  case (Cons b bs)
  let ?h1 = "set_next p (Some b) (set_prev b (Some p) h)"
  have IH: "l = last (b # bs) \<and> linked h' (b # bs) \<and> payload h' = payload ?h1
    \<and> (\<forall>c. c \<notin> set bs \<longrightarrow> prev_free_block (h' c) = prev_free_block (?h1 c))
    \<and> (\<forall>c. c \<notin> set (b # bs) \<or> c = l \<longrightarrow> next_free_block (h' c) = next_free_block (?h1 c))"
    by (rule Cons.IH) (use Cons.prems in auto)
  have "l \<in> set (b # bs)" using IH by (metis last_in_set list.discI)
  with Cons.prems(1) have "l \<noteq> p" by auto
  with IH Cons.prems(1) show ?case by auto
qed

text \<open>The two bulk insertions splice a chain between neighbours \<open>as\<close> and \<open>cs\<close>.\<close>

lemma splice_chain:
  assumes q: "queue_of q xs" and ends: "FakeHead # xs @ [FakeTail] = as @ cs" "as \<noteq> []" "cs \<noteq> []"
    and new: "bs \<noteq> []" "distinct bs" "set bs \<inter> set (FakeHead # xs @ [FakeTail]) = {}"
    and chain: "chain_after (last as) bs (store q) = (l, h)"
    and q': "q' = q\<lparr>store := set_prev (hd cs) (Some l) (set_next l (Some (hd cs)) h),
               num_free_blocks := num_free_blocks q + int (length bs)\<rparr>"
    and ys: "FakeHead # ys @ [FakeTail] = as @ bs @ cs"
  shows "queue_of q' ys \<and> payload (store q') = payload (store q)"
proof -
  let ?h = "store q" and ?h1 = "set_prev (hd cs) (Some l) (set_next l (Some (hd cs)) h)"
  have d: "distinct (as @ bs @ cs)"
    using queue_ofD(4) [OF q] new unfolding ends(1) by auto
  have lk: "linked ?h as" "linked ?h cs"
    using queue_ofD(5) [OF q] ends by (simp_all add: linked_append)
  have la: "last as \<in> set as" and hc: "hd cs \<in> set cs" using ends(2,3) by auto
  have "distinct (last as # bs)" using d la by auto
  from chain_after_spec [OF this chain]
  have l: "l = last bs" and lb: "linked h (last as # bs)" and pl: "payload h = payload ?h"
    and pv: "\<And>c. c \<notin> set bs \<Longrightarrow> prev_free_block (h c) = prev_free_block (?h c)"
    and nx: "\<And>c. c \<notin> set (last as # bs) \<or> c = l \<Longrightarrow> next_free_block (h c) = next_free_block (?h c)"
    using new(1) by auto
  have lbs: "l \<in> set bs" using l new(1) by simp
  from lb new(1) have first: "linked h bs" "next_free_block (h (last as)) = Some (hd bs)"
    "prev_free_block (h (hd bs)) = Some (last as)" by (cases bs; auto)+
  have hb: "hd bs \<in> set bs" using new(1) by simp
  have "linked ?h1 as = linked ?h as"
    using d lbs la hc nx pv by (intro linked_frame) auto
  moreover have "linked ?h1 cs = linked ?h cs"
  proof -
    have "next_free_block (h c) = next_free_block (?h c)" "prev_free_block (h c) = prev_free_block (?h c)"
      if "c \<in> set cs" for c
      using that d la by (auto intro!: nx pv)
    with d lbs la hc show ?thesis by (intro linked_frame) auto
  qed
  moreover have "linked ?h1 bs = linked h bs"
    using d lbs la hc l by (intro linked_frame) auto
  moreover have "next_free_block (?h1 (last as)) = Some (hd bs)" "prev_free_block (?h1 (hd bs)) = Some (last as)"
    using first d lbs la hc hb by auto
  moreover have "next_free_block (?h1 (last bs)) = Some (hd cs)" "prev_free_block (?h1 (hd cs)) = Some (last bs)"
    using d hc lbs l by auto
  ultimately have "linked ?h1 (as @ bs @ cs)"
    using lk first ends(2,3) new(1) by (subst linked_append; simp)+
  then have 1: "linked (store q') (FakeHead # ys @ [FakeTail])" unfolding q' ys by simp
  have dist: "distinct (FakeHead # ys @ [FakeTail])" using d unfolding ys .
  have len: "length ys = length xs + length bs"
    using arg_cong [OF ys, of length] arg_cong [OF ends(1), of length] by simp
  have sets: "set ys \<union> {FakeHead, FakeTail} = set xs \<union> {FakeHead, FakeTail} \<union> set bs"
    using arg_cong [OF ys, of set] arg_cong [OF ends(1), of set] by auto
  have fh: "FakeHead = hd as" and ft: "FakeTail = last cs"
    using ends by (metis hd_append2 list.sel(1), metis last_ConsR last_appendR last_snoc append_is_Nil_conv list.discI)
  have nfh: "FakeHead \<notin> set bs" and nft: "FakeTail \<notin> set bs" using new(3) by auto
  have "FakeHead \<notin> set cs" "FakeTail \<notin> set as"
    using d fh ft ends(2,3) by (metis Un_iff disjoint_iff distinct_append hd_in_set set_append,
        metis Un_iff disjoint_iff distinct_append last_in_set set_append)
  then have hds: "hd cs \<noteq> FakeHead" "last as \<noteq> FakeTail" "l \<noteq> FakeHead" "l \<noteq> FakeTail"
    using hc la lbs nfh nft by auto
  have other: "prev_free_block (store q' c) = None \<and> next_free_block (store q' c) = None"
    if c: "c \<notin> set ys" "c \<noteq> FakeHead" "c \<noteq> FakeTail" for c
  proof -
    have "c \<notin> set (as @ bs @ cs)" using c arg_cong [OF ys, of set] by auto
    then have "c \<noteq> hd cs" "c \<noteq> l" "c \<notin> set bs" "c \<noteq> last as" "c \<notin> set xs"
      using hc la lbs sets c by auto
    with queue_ofD(9) [OF q, of c] c pv nx show ?thesis unfolding q' by auto
  qed
  have "prev_free_block (store q' FakeHead) = None" "next_free_block (store q' FakeTail) = None"
    using queue_ofD(7,8) [OF q] hds nfh nft pv [of FakeHead] nx [of FakeTail] unfolding q' by auto
  with 1 dist len other queue_ofD(6) [OF q] have "queue_of q' ys"
    unfolding queue_of_def q' by simp
  then show ?thesis unfolding q' by (simp add: pl)
qed

lemma append_n_spec:
  assumes q: "queue_of q xs"
    and bs: "distinct bs" "set bs \<inter> set (FakeHead # xs @ [FakeTail]) = {}"
  shows "\<exists>q'. append_n bs q = Inr q' \<and> queue_of q' (xs @ bs) \<and> payload (store q') = payload (store q)"
proof (cases "bs = []")
  case True
  with q show ?thesis by (simp add: append_n_def)
next
  case False
  obtain l h where chain: "chain_after (last (FakeHead # xs)) bs (store q) = (l, h)" by force
  let ?q' = "q\<lparr>store := set_prev FakeTail (Some l) (set_next l (Some FakeTail) h),
    num_free_blocks := num_free_blocks q + int (length bs)\<rparr>"
  have "append_n bs q = Inr ?q'"
    using False chain queue_of_tail [OF q] by (simp add: append_n_def)
  moreover have "queue_of ?q' (xs @ bs) \<and> payload (store ?q') = payload (store q)"
    by (rule splice_chain [OF q, where as = "FakeHead # xs" and cs = "[FakeTail]" and bs = bs])
      (use False bs chain in auto)
  ultimately show ?thesis by blast
qed

lemma prepend_n_spec:
  assumes q: "queue_of q xs"
    and bs: "distinct bs" "set bs \<inter> set (FakeHead # xs @ [FakeTail]) = {}"
  shows "\<exists>q'. prepend_n bs q = Inr q' \<and> queue_of q' (bs @ xs) \<and> payload (store q') = payload (store q)"
proof (cases "bs = []")
  case True
  with q show ?thesis by (simp add: prepend_n_def)
next
  case False
  obtain l h where chain: "chain_after FakeHead bs (store q) = (l, h)" by force
  let ?c = "hd (xs @ [FakeTail])"
  let ?q' = "q\<lparr>store := set_prev ?c (Some l) (set_next l (Some ?c) h),
    num_free_blocks := num_free_blocks q + int (length bs)\<rparr>"
  have "prepend_n bs q = Inr ?q'"
    using False chain queue_of_head [OF q] by (simp add: prepend_n_def)
  moreover have "queue_of ?q' (bs @ xs) \<and> payload (store ?q') = payload (store q)"
    by (rule splice_chain [OF q, where as = "[FakeHead]" and cs = "xs @ [FakeTail]" and bs = bs])
      (use False bs chain in auto)
  ultimately show ?thesis by blast
qed

lemma append_block_eq_append_n:
  "b \<noteq> FakeTail \<Longrightarrow> prev_free_block (store q FakeTail) = Some l \<Longrightarrow> l \<noteq> b \<Longrightarrow>
     append_block b q = append_n [b] q"
  by (simp add: append_block_def append_n_def Let_def set_prev_def set_next_def fun_upd_twist)

lemma append_block_spec:
  assumes q: "queue_of q xs" and b: "b \<notin> set (FakeHead # xs @ [FakeTail])"
  shows "\<exists>q'. append_block b q = Inr q' \<and> queue_of q' (xs @ [b]) \<and> payload (store q') = payload (store q)"
proof -
  have "last (FakeHead # xs) \<noteq> b" using b by (metis in_set_conv_decomp last_in_set list.discI append_Cons Un_iff set_append)
  with b have "append_block b q = append_n [b] q"
    by (intro append_block_eq_append_n [OF _ queue_of_tail [OF q]]) auto
  with append_n_spec [OF q, of "[b]"] b show ?thesis by auto
qed

subsection \<open>Construction and traversal\<close>

lemma linked_nthI:
  assumes "\<And>i. Suc i < length as \<Longrightarrow>
    next_free_block (h (as ! i)) = Some (as ! Suc i) \<and> prev_free_block (h (as ! Suc i)) = Some (as ! i)"
  shows "linked h as"
  using assms
proof (induction h as rule: linked.induct)
  case (3 h a b as)
  have "linked h (b # as)"
    by (rule "3.IH") (use 3(2) [of "Suc _"] in auto)
  with 3(2) [of 0] show ?case by simp
qed auto

lemma link_block_fields:
  "payload (link_block bs i h) = payload h"
  "next_free_block (link_block bs i h c) =
     (if Suc i < length bs \<and> c = bs ! i then Some (bs ! Suc i) else next_free_block (h c))"
  "prev_free_block (link_block bs i h c) =
     (if 0 < i \<and> c = bs ! i then Some (bs ! (i - 1)) else prev_free_block (h c))"
  by (auto simp: link_block_def Let_def)

lemma fold_link_block:
  assumes "distinct bs" "k \<le> length bs"
    and "\<And>c. next_free_block (h c) = None \<and> prev_free_block (h c) = None"
  defines "h' \<equiv> fold (link_block bs) [0..<k] h"
  shows "payload h' = payload h
    \<and> (\<forall>c. c \<notin> set bs \<longrightarrow> next_free_block (h' c) = None \<and> prev_free_block (h' c) = None)
    \<and> (\<forall>i < length bs. next_free_block (h' (bs ! i)) = (if i < k \<and> Suc i < length bs then Some (bs ! Suc i) else None)
         \<and> prev_free_block (h' (bs ! i)) = (if 0 < i \<and> i < k then Some (bs ! (i - 1)) else None))"
  using assms(2) unfolding h'_def
proof (induction k)
  case 0
  with assms(3) show ?case by simp
next
  case (Suc k)
  define g where "g = fold (link_block bs) [0..<k] h"
  have step: "fold (link_block bs) [0..<Suc k] h = link_block bs k g"
    by (simp add: g_def)
  from Suc have IH: "payload g = payload h"
    "\<And>c. c \<notin> set bs \<Longrightarrow> next_free_block (g c) = None \<and> prev_free_block (g c) = None"
    "\<And>i. i < length bs \<Longrightarrow>
       next_free_block (g (bs ! i)) = (if i < k \<and> Suc i < length bs then Some (bs ! Suc i) else None)
       \<and> prev_free_block (g (bs ! i)) = (if 0 < i \<and> i < k then Some (bs ! (i - 1)) else None)"
    unfolding g_def by auto
  have inj: "bs ! i = bs ! k \<longleftrightarrow> i = k" if "i < length bs" for i
    using assms(1) Suc.prems that by (simp add: nth_eq_iff_index_eq)
  have "next_free_block (link_block bs k g c) = None
      \<and> prev_free_block (link_block bs k g c) = None" if c: "c \<notin> set bs" for c
  proof -
    have "c \<noteq> bs ! k" using c Suc.prems nth_mem [of k bs] by auto
    then show ?thesis using IH(2) [OF c] by (simp add: link_block_fields)
  qed
  moreover have "next_free_block (link_block bs k g (bs ! i))
        = (if i < Suc k \<and> Suc i < length bs then Some (bs ! Suc i) else None)
      \<and> prev_free_block (link_block bs k g (bs ! i))
        = (if 0 < i \<and> i < Suc k then Some (bs ! (i - 1)) else None)" if "i < length bs" for i
  proof (cases "i = k")
    case True
    with IH(3) [OF that] show ?thesis by (auto simp: link_block_fields)
  next
    case False
    then have "bs ! i \<noteq> bs ! k" "i < Suc k \<longleftrightarrow> i < k" using inj [OF that] by auto
    with IH(3) [OF that] show ?thesis by (simp only: link_block_fields) simp
  qed
  ultimately show ?case unfolding step using IH(1) by (simp add: link_block_fields)
qed

lemma init_queue_spec:
  assumes bs: "distinct bs" "FakeHead \<notin> set bs" "FakeTail \<notin> set bs"
    and h: "\<And>c. next_free_block (h c) = None \<and> prev_free_block (h c) = None"
  shows "queue_of (init_queue bs h) bs
    \<and> (\<forall>i. payload (store (init_queue bs h)) (Blk i) = payload h (Blk i))"
proof -
  let ?h1 = "fold (link_block bs) [0..<length bs] h"
  note f = fold_link_block [OF bs(1) order_refl h]
  then have out: "\<And>c. c \<notin> set bs \<Longrightarrow> next_free_block (?h1 c) = None \<and> prev_free_block (?h1 c) = None"
    and at: "\<And>i. i < length bs \<Longrightarrow> next_free_block (?h1 (bs ! i)) = (if Suc i < length bs then Some (bs ! Suc i) else None)
         \<and> prev_free_block (?h1 (bs ! i)) = (if 0 < i then Some (bs ! (i - 1)) else None)"
    and pl: "payload ?h1 = payload h"
    by auto
  have lk1: "linked ?h1 bs"
    by (rule linked_nthI) (use at in auto)
  let ?h = "store (init_queue bs h)"
  have pay: "payload ?h (Blk i) = payload h (Blk i)" for i
    using pl by (auto simp: init_queue_def Let_def payload_def set_next_def set_prev_def fun_eq_iff)
  show ?thesis
  proof (cases "bs = []")
    case True
    then have "queue_of (init_queue bs h) bs"
      using h by (simp add: queue_of_def init_queue_def Let_def new_block_def)
    with pay show ?thesis by blast
  next
    case False
    then have in1: "hd bs \<in> set bs" "last bs \<in> set bs" by auto
    then have ne: "hd bs \<noteq> FakeHead" "hd bs \<noteq> FakeTail" "last bs \<noteq> FakeHead" "last bs \<noteq> FakeTail"
      using bs by auto
    have fields:
      "next_free_block (?h c) = (if c = last bs then Some FakeTail else if c = FakeHead then Some (hd bs)
         else if c = FakeTail then None else next_free_block (?h1 c))"
      "prev_free_block (?h c) = (if c = hd bs then Some FakeHead else if c = FakeTail then Some (last bs)
         else if c = FakeHead then None else prev_free_block (?h1 c))" for c
      using False ne by (auto simp: init_queue_def Let_def new_block_def)
    have "linked ?h bs = linked ?h1 bs"
      using bs fields by (intro linked_frame) auto
    then have "linked ?h (FakeHead # bs @ [FakeTail])"
      using lk1 False fields ne linked_append [of "[FakeHead]" "bs @ [FakeTail]" ?h]
        linked_append [of bs "[FakeTail]" ?h] by simp
    moreover have "num_free_blocks (init_queue bs h) = int (length bs)"
      by (simp add: init_queue_def Let_def)
    ultimately have "queue_of (init_queue bs h) bs"
      using bs fields out ne in1 unfolding queue_of_def by auto
    with pay show ?thesis by blast
  qed
qed

lemma collect_until_end_spec:
  "linked h (xs @ [FakeTail]) \<Longrightarrow> next_free_block (h FakeTail) = None \<Longrightarrow>
     collect_until_end h (hd (xs @ [FakeTail])) ret = Some (ret @ xs)"
proof (induction xs arbitrary: ret)
  case Nil
  then show ?case by (simp add: collect_until_end.simps)
next
  case (Cons x xs)
  then have "next_free_block (h x) = Some (hd (xs @ [FakeTail]))" "linked h (xs @ [FakeTail])"
    by (cases xs; auto)+
  with Cons show ?case by (subst collect_until_end.simps) simp
qed

lemma iter_until_tail_spec:
  "linked h (xs @ [FakeTail]) \<Longrightarrow> FakeTail \<notin> set xs \<Longrightarrow>
     iter_until_tail h (Some (hd (xs @ [FakeTail]))) ret = Some (ret @ xs)"
proof (induction xs arbitrary: ret)
  case Nil
  then show ?case by (simp add: iter_until_tail.simps)
next
  case (Cons x xs)
  then have "next_free_block (h x) = Some (hd (xs @ [FakeTail]))" "linked h (xs @ [FakeTail])"
    by (cases xs; auto)+
  with Cons show ?case by (subst iter_until_tail.simps) auto
qed

lemma get_all_free_blocks_spec:
  assumes q: "queue_of q xs"
  shows "get_all_free_blocks q = Some (Inr xs)"
proof -
  have "linked (store q) (xs @ [FakeTail])"
    using queue_ofD(5) [OF q] by (cases "xs @ [FakeTail]") auto
  with queue_ofD(7) [OF q] queue_of_head [OF q] show ?thesis
    by (simp add: get_all_free_blocks_def collect_until_end_spec)
qed

lemma iter_blocks_after_None:
  assumes q: "queue_of q xs"
  shows "iter_blocks_after None q = Some xs"
proof -
  have "linked (store q) (xs @ [FakeTail])"
    using queue_ofD(5) [OF q] by (cases "xs @ [FakeTail]") auto
  with queue_ofD(3) [OF q] queue_of_head [OF q] show ?thesis
    by (simp add: iter_blocks_after_def iter_until_tail_spec)
qed

lemma iter_blocks_after_Some:
  assumes q: "queue_of q (as @ c # bs)"
  shows "iter_blocks_after (Some c) q = Some bs"
proof -
  have "linked (store q) ((FakeHead # as) @ c # bs @ [FakeTail])"
    using queue_ofD(5) [OF q] by simp
  then have "linked (store q) (c # bs @ [FakeTail])"
    by (subst (asm) linked_append) auto
  then have "next_free_block (store q c) = Some (hd (bs @ [FakeTail]))"
    "linked (store q) (bs @ [FakeTail])" by (cases bs; auto)+
  with queue_ofD(3) [OF q] show ?thesis
    by (simp add: iter_blocks_after_def iter_until_tail_spec)
qed

subsection \<open>The contract\<close>

text \<open>
  What a client of the queue may rely on, over the list of queued elements: \<open>spells q xs\<close>
  relates a queue to the list, \<open>info\<close> is the part of the state the queue must not touch, and
  \<open>elem\<close> tells the elements a client may insert.
\<close>

locale free_queue_spec =
  fixes spells :: "'q \<Rightarrow> 'a list \<Rightarrow> bool"
    and info :: "'q \<Rightarrow> 'i"
    and count :: "'q \<Rightarrow> int"
    and elem :: "'a \<Rightarrow> bool"
    and pop_n :: "int \<Rightarrow> 'q \<Rightarrow> ('a list \<times> 'q) result"
    and delete :: "'a \<Rightarrow> 'q \<Rightarrow> 'q result"
    and push_front :: "'a list \<Rightarrow> 'q \<Rightarrow> 'q result"
    and push_back :: "'a list \<Rightarrow> 'q \<Rightarrow> 'q result"
  assumes spells_unique: "spells q xs \<Longrightarrow> spells q ys \<Longrightarrow> xs = ys"
    and spells_wf: "spells q xs \<Longrightarrow> distinct xs \<and> (\<forall>x \<in> set xs. elem x)"
    and count_length: "spells q xs \<Longrightarrow> count q = int (length xs)"
    and pop_n_prefix: "spells q (xs @ ys) \<Longrightarrow>
      \<exists>q'. pop_n (int (length xs)) q = Inr (xs, q') \<and> spells q' ys \<and> info q' = info q"
    and delete_member: "spells q xs \<Longrightarrow> x \<in> set xs \<Longrightarrow>
      \<exists>q'. delete x q = Inr q' \<and> spells q' (remove1 x xs) \<and> info q' = info q"
    and push_front_fresh: "spells q xs \<Longrightarrow> distinct (bs @ xs) \<Longrightarrow> \<forall>b \<in> set bs. elem b \<Longrightarrow>
      \<exists>q'. push_front bs q = Inr q' \<and> spells q' (bs @ xs) \<and> info q' = info q"
    and push_back_fresh: "spells q xs \<Longrightarrow> distinct (xs @ bs) \<Longrightarrow> \<forall>b \<in> set bs. elem b \<Longrightarrow>
      \<exists>q'. push_back bs q = Inr q' \<and> spells q' (xs @ bs) \<and> info q' = info q"
begin

lemma pop_n_take:
  assumes "spells q xs" "0 \<le> n" "n \<le> int (length xs)"
  shows "\<exists>q'. pop_n n q = Inr (take (nat n) xs, q') \<and> spells q' (drop (nat n) xs) \<and> info q' = info q"
proof -
  have "int (length (take (nat n) xs)) = n" using assms(2,3) by simp
  with pop_n_prefix [of q "take (nat n) xs" "drop (nat n) xs"] assms(1) show ?thesis by simp
qed

text \<open>
  Reuse order: after releasing \<open>fs\<close> to the front and \<open>ls\<close> to the back, the next
  \<open>length fs\<close> elements handed out are \<open>fs\<close>, then everything queued before, and
  \<open>ls\<close> only once that is used up.
\<close>

lemma reuse_order:
  assumes q: "spells q xs" and d: "distinct (fs @ xs @ ls)"
    and e: "\<forall>b \<in> set (fs @ ls). elem b"
  shows "\<exists>q1 q2 q3 q4 q5. push_front fs q = Inr q1 \<and> push_back ls q1 = Inr q2
    \<and> pop_n (int (length fs)) q2 = Inr (fs, q3)
    \<and> pop_n (int (length xs)) q3 = Inr (xs, q4)
    \<and> pop_n (int (length ls)) q4 = Inr (ls, q5) \<and> spells q5 [] \<and> info q5 = info q"
proof -
  have "distinct (fs @ xs)" "\<forall>b \<in> set fs. elem b" using d e by auto
  then obtain q1 where q1: "push_front fs q = Inr q1" "spells q1 (fs @ xs)" "info q1 = info q"
    using push_front_fresh [OF q] by blast
  have "distinct ((fs @ xs) @ ls)" "\<forall>b \<in> set ls. elem b" using d e by auto
  then obtain q2 where q2: "push_back ls q1 = Inr q2" "spells q2 ((fs @ xs) @ ls)" "info q2 = info q1"
    using push_back_fresh [OF q1(2)] by blast
  have "spells q2 (fs @ (xs @ ls))" using q2(2) by simp
  from pop_n_prefix [OF this] obtain q3
    where q3: "pop_n (int (length fs)) q2 = Inr (fs, q3)" "spells q3 (xs @ ls)" "info q3 = info q2"
    by blast
  from pop_n_prefix [OF q3(2)] obtain q4
    where q4: "pop_n (int (length xs)) q3 = Inr (xs, q4)" "spells q4 ls" "info q4 = info q3"
    by blast
  have "spells q4 (ls @ [])" using q4(2) by simp
  from pop_n_prefix [OF this] obtain q5
    where "pop_n (int (length ls)) q4 = Inr (ls, q5)" "spells q5 []" "info q5 = info q4"
    by blast
  with q1 q2 q3 q4 show ?thesis by auto
qed

end

text \<open>The pointer queue keeps the contract.\<close>

definition real_block :: "block_ref \<Rightarrow> bool" where
  "real_block b \<longleftrightarrow> b \<noteq> FakeHead \<and> b \<noteq> FakeTail"

lemma real_block_Blk [simp]: "real_block (Blk i)"
  by (simp add: real_block_def)

interpretation fq: free_queue_spec queue_of "\<lambda>q. payload (store q)" num_free_blocks real_block
  popleft_n remove prepend_n append_n
proof (unfold_locales, goal_cases)
  case (1 q xs ys)
  then show ?case by (rule queue_of_unique)
next
  case (2 q xs)
  then show ?case by (auto simp: queue_of_def real_block_def)
next
  case (3 q xs)
  then show ?case by (rule queue_ofD(6))
next
  case (4 q xs ys)
  then show ?case by (rule popleft_n_append)
next
  case (5 q xs x)
  then show ?case by (rule remove_member)
next
  case (6 q xs bs)
  then show ?case by (intro prepend_n_spec) (auto simp: real_block_def)
next
  case (7 q xs bs)
  then show ?case by (intro append_n_spec) (auto simp: real_block_def)
qed

subsection \<open>Properties\<close>

text \<open>
  C23. The linked free list refines a list. In a queue that spells \<open>xs\<close>, \<open>popleft\<close> hands out
  the first element or raises \<open>ValueError\<close> when there is none, \<open>popleft_n\<close> hands out the first
  \<open>n\<close> and its assertion fails when there are fewer, \<open>remove\<close> deletes exactly the given block
  from anywhere and raises \<open>RuntimeError\<close> for a block that is not queued, \<open>prepend_n\<close>,
  \<open>append_n\<close> and \<open>append\<close> insert new blocks at the ends, the counter is the length, and no
  operation touches a reference count, a hash or a null flag.
\<close>

theorem free_queue_refines_list:
  assumes q: "queue_of q xs" and bs: "distinct (bs @ xs)" "FakeHead \<notin> set bs" "FakeTail \<notin> set bs"
    and n: "0 \<le> n"
  shows "num_free_blocks q = int (length xs)
    \<and> (case xs of
         [] \<Rightarrow> popleft q = Inl ValueError
       | x # xs' \<Rightarrow> \<exists>q'. popleft q = Inr (x, q') \<and> queue_of q' xs' \<and> payload (store q') = payload (store q))
    \<and> (if n \<le> int (length xs)
       then \<exists>q'. popleft_n n q = Inr (take (nat n) xs, q') \<and> queue_of q' (drop (nat n) xs)
              \<and> payload (store q') = payload (store q)
       else popleft_n n q = Inl AssertionError)
    \<and> (if b \<in> set xs
       then \<exists>q'. remove b q = Inr q' \<and> queue_of q' (remove1 b xs) \<and> payload (store q') = payload (store q)
       else remove b q = Inl RuntimeError)
    \<and> (\<exists>q'. prepend_n bs q = Inr q' \<and> queue_of q' (bs @ xs) \<and> payload (store q') = payload (store q))
    \<and> (\<exists>q'. append_n bs q = Inr q' \<and> queue_of q' (xs @ bs) \<and> payload (store q') = payload (store q))
    \<and> (\<forall>b \<in> set bs. \<exists>q'. append_block b q = Inr q' \<and> queue_of q' (xs @ [b])
         \<and> payload (store q') = payload (store q))"
proof (intro conjI)
  show "case xs of [] \<Rightarrow> popleft q = Inl ValueError
       | x # xs' \<Rightarrow> \<exists>q'. popleft q = Inr (x, q') \<and> queue_of q' xs' \<and> payload (store q') = payload (store q)"
    using q popleft_Cons popleft_Nil by (auto split: list.split)
  show "\<forall>b \<in> set bs. \<exists>q'. append_block b q = Inr q' \<and> queue_of q' (xs @ [b])
      \<and> payload (store q') = payload (store q)"
  proof
    fix b assume "b \<in> set bs"
    with bs have "b \<notin> set (FakeHead # xs @ [FakeTail])" by auto
    then show "\<exists>q'. append_block b q = Inr q' \<and> queue_of q' (xs @ [b])
        \<and> payload (store q') = payload (store q)"
      by (rule append_block_spec [OF q])
  qed
  have "distinct (xs @ bs)" "\<forall>b \<in> set bs. real_block b" using bs by (auto simp: real_block_def)
  with bs(1) fq.push_front_fresh [OF q, of bs] fq.push_back_fresh [OF q, of bs]
  show "\<exists>q'. prepend_n bs q = Inr q' \<and> queue_of q' (bs @ xs) \<and> payload (store q') = payload (store q)"
    "\<exists>q'. append_n bs q = Inr q' \<and> queue_of q' (xs @ bs) \<and> payload (store q') = payload (store q)"
    by blast+
qed (use fq.count_length [OF q] fq.pop_n_take [OF q n] fq.delete_member [OF q] remove_not_member [OF q]
      popleft_n_nonpos [OF q] in auto)

text \<open>
  C26. A new queue over the pool's blocks spells them in block-id order, and a traversal of a
  queue always ends: \<open>get_all_free_blocks\<close> and \<open>iter_blocks_after(None)\<close> return the whole list
  in eviction order, \<open>iter_blocks_after(c)\<close> the part behind the cursor.
\<close>

theorem free_queue_construction_and_traversal:
  assumes bs: "distinct bs" "FakeHead \<notin> set bs" "FakeTail \<notin> set bs"
    and q: "queue_of q (as @ c # cs)"
  shows "queue_of (init_queue bs (\<lambda>_. new_block)) bs
    \<and> get_all_free_blocks q = Some (Inr (as @ c # cs))
    \<and> iter_blocks_after None q = Some (as @ c # cs)
    \<and> iter_blocks_after (Some c) q = Some cs"
  using init_queue_spec [OF bs, of "\<lambda>_. new_block"] get_all_free_blocks_spec [OF q]
    iter_blocks_after_None [OF q] iter_blocks_after_Some [OF q]
  by (simp add: new_block_def)

text \<open>
  C25. Eviction order. Blocks released to the front are the next ones handed out, in the order
  given; blocks released to the back are handed out only after every block that was already
  queued. So cached blocks, which are appended, are reused least recently released first.
\<close>

theorem free_queue_reuse_order:
  assumes "queue_of q xs" and "distinct (fs @ xs @ ls)" and "\<forall>b \<in> set (fs @ ls). real_block b"
  shows "\<exists>q1 q2 q3 q4 q5. prepend_n fs q = Inr q1 \<and> append_n ls q1 = Inr q2
    \<and> popleft_n (int (length fs)) q2 = Inr (fs, q3)
    \<and> popleft_n (int (length xs)) q3 = Inr (xs, q4)
    \<and> popleft_n (int (length ls)) q4 = Inr (ls, q5)
    \<and> queue_of q5 [] \<and> payload (store q5) = payload (store q)"
  using assms by (rule fq.reuse_order)

text \<open>Witnesses: the queue of a small pool.\<close>

lemma small_queue: "queue_of (init_queue [Blk 0, Blk 1] (\<lambda>_. new_block)) [Blk 0, Blk 1]"
  using init_queue_spec [of "[Blk 0, Blk 1]" "\<lambda>_. new_block"] by (simp add: new_block_def)

theorem free_queue_refines_list_witness:
  "let q = init_queue [Blk 0, Blk 1] (\<lambda>_. new_block)
   in num_free_blocks q = 2 \<and> (\<exists>q'. popleft q = Inr (Blk 0, q') \<and> queue_of q' [Blk 1])
      \<and> (\<exists>q'. append_n [Blk 7] q = Inr q' \<and> queue_of q' [Blk 0, Blk 1, Blk 7])
      \<and> remove (Blk 5) q = Inl RuntimeError"
  using free_queue_refines_list [OF small_queue, of "[Blk 7]" 2 "Blk 5"]
  by (auto simp: Let_def)

theorem free_queue_construction_and_traversal_witness:
  "iter_blocks_after (Some (Blk 0)) (init_queue [Blk 0, Blk 1] (\<lambda>_. new_block)) = Some [Blk 1]"
  using free_queue_construction_and_traversal
    [of "[Blk 2, Blk 3]" "init_queue [Blk 0, Blk 1] (\<lambda>_. new_block)" "[]" "Blk 0" "[Blk 1]"] small_queue
  by simp

theorem free_queue_reuse_order_witness:
  "\<exists>q1 q2 q3. prepend_n [Blk 5] (init_queue [Blk 0, Blk 1] (\<lambda>_. new_block)) = Inr q1
    \<and> append_n [Blk 6] q1 = Inr q2 \<and> popleft_n 1 q2 = Inr ([Blk 5], q3)"
  using free_queue_reuse_order [OF small_queue, of "[Blk 5]" "[Blk 6]"] by auto

end
