(* ===== verification/Block_Map.thy ===== *)
theory Block_Map
  imports Free_Queue
begin

text \<open>
  \<open>BlockHashToBlockMap\<close> of \<open>vllm/v1/core/block_pool.py\<close>: the prefix-cache index from a hash
  key to the blocks cached under it. The source keeps a single block as it is and turns a
  second one under the same key into a dictionary by block id; \<open>entries m k\<close> is the list both
  representations stand for, and the locale \<open>prefix_index\<close> states the operations on it.
\<close>

subsection \<open>The map\<close>

datatype cached_blocks = OneBlock block_ref | BlockDict "(int \<times> block_ref) list"

type_synonym block_map = "hash_key \<rightharpoonup> cached_blocks"

definition empty_map :: block_map where
  "empty_map = Map.empty"

definition get_one_block :: "hash_key \<Rightarrow> block_map \<Rightarrow> block_ref option result" where
  "get_one_block key m =
     (case m key of
        None \<Rightarrow> Inr None
      | Some (OneBlock b) \<Rightarrow> Inr (Some b)
      | Some (BlockDict d) \<Rightarrow> (case d of [] \<Rightarrow> Inl StopIteration | (_, b) # _ \<Rightarrow> Inr (Some b)))"

definition contain :: "hash_key \<Rightarrow> int \<Rightarrow> block_map \<Rightarrow> bool" where
  "contain key bid m =
     (case m key of
        None \<Rightarrow> False
      | Some (OneBlock b) \<Rightarrow> block_id b = bid
      | Some (BlockDict d) \<Rightarrow> bid \<in> fst ` set d)"

definition insert_block :: "hash_key \<Rightarrow> block_ref \<Rightarrow> block_map \<Rightarrow> block_map" where
  "insert_block key b m =
     (case m key of
        None \<Rightarrow> m(key \<mapsto> OneBlock b)
      | Some (OneBlock b0) \<Rightarrow>
          m(key \<mapsto> BlockDict (AList.update (block_id b) b [(block_id b0, b0)]))
      | Some (BlockDict d) \<Rightarrow> m(key \<mapsto> BlockDict (AList.update (block_id b) b d)))"

definition pop_block :: "hash_key \<Rightarrow> int \<Rightarrow> block_map \<Rightarrow> block_ref option \<times> block_map" where
  "pop_block key bid m =
     (case m key of
        None \<Rightarrow> (None, m)
      | Some (OneBlock b) \<Rightarrow>
          if block_id b = bid then (Some b, m(key := None))
          else (None, (m(key := None))(key \<mapsto> OneBlock b))
      | Some (BlockDict d) \<Rightarrow>
          (let m' = m(key := None); d' = AList.delete bid d
           in (map_of d bid, if length d' > 0 then m'(key \<mapsto> BlockDict d') else m')))"

subsection \<open>The list a key stands for\<close>

definition entries :: "block_map \<Rightarrow> hash_key \<Rightarrow> block_ref list" where
  "entries m k =
     (case m k of None \<Rightarrow> [] | Some (OneBlock b) \<Rightarrow> [b] | Some (BlockDict d) \<Rightarrow> map snd d)"

text \<open>
  Well-formed maps: no empty dictionary, each dictionary keyed by the ids of its blocks, and
  only pool blocks.
\<close>

fun is_pool_block :: "block_ref \<Rightarrow> bool" where
  "is_pool_block (Blk _) = True"
| "is_pool_block _ = False"

definition id_keyed :: "(int \<times> block_ref) list \<Rightarrow> bool" where
  "id_keyed d \<longleftrightarrow> list_all (\<lambda>(i, b). i = block_id b \<and> is_pool_block b) d"

definition map_wf :: "block_map \<Rightarrow> bool" where
  "map_wf m \<longleftrightarrow>
     (\<forall>k d. m k = Some (BlockDict d) \<longrightarrow>
        d \<noteq> [] \<and> distinct (map fst d) \<and> id_keyed d)
     \<and> (\<forall>k b. m k = Some (OneBlock b) \<longrightarrow> is_pool_block b)"

lemma is_pool_block_iff: "is_pool_block b \<longleftrightarrow> (\<exists>i. b = Blk i)"
  by (cases b) auto

lemma block_id_inj: "is_pool_block b \<Longrightarrow> is_pool_block c \<Longrightarrow> block_id b = block_id c \<longleftrightarrow> b = c"
  by (cases b; cases c) auto

text \<open>Updating and deleting in a dictionary keyed by the ids of its blocks.\<close>

lemma id_keyed_simps [simp]:
  "id_keyed []"
  "id_keyed ((i, b) # d) \<longleftrightarrow> i = block_id b \<and> is_pool_block b \<and> id_keyed d"
  by (auto simp: id_keyed_def)

lemma id_keyed_pool: "id_keyed d \<Longrightarrow> b \<in> snd ` set d \<Longrightarrow> is_pool_block b"
  by (auto simp: id_keyed_def list_all_iff)

lemma id_keyed_update: "id_keyed d \<Longrightarrow> is_pool_block b \<Longrightarrow> id_keyed (AList.update (block_id b) b d)"
  by (induction d) auto

lemma id_keyed_delete: "id_keyed d \<Longrightarrow> id_keyed (AList.delete k d)"
  by (induction d) auto

lemma id_keyed_mem:
  "id_keyed d \<Longrightarrow> is_pool_block b \<Longrightarrow> block_id b \<in> fst ` set d \<longleftrightarrow> b \<in> snd ` set d"
proof (induction d)
  case (Cons p d)
  then show ?case by (cases p) (auto simp: block_id_inj)
qed simp

lemma dict_update:
  assumes "id_keyed d" "is_pool_block b"
  shows "map snd (AList.update (block_id b) b d) =
    (if b \<in> snd ` set d then map snd d else map snd d @ [b])"
  using assms
proof (induction d)
  case (Cons p d)
  obtain i c where p: "p = (i, c)" by force
  with Cons.prems have "block_id c = block_id b \<longleftrightarrow> c = b" by (simp add: block_id_inj)
  with p Cons show ?case by auto
qed simp

lemma dict_delete:
  assumes "id_keyed d" "is_pool_block b" "distinct (map fst d)"
  shows "map snd (AList.delete (block_id b) d) = remove1 b (map snd d)"
    and "map_of d (block_id b) = (if b \<in> snd ` set d then Some b else None)"
  using assms
proof (induction d)
  case (Cons p d)
  obtain i c where p: "p = (i, c)" by force
  { case 1
    with p have ic: "i = block_id c" "block_id c = block_id b \<longleftrightarrow> c = b"
      by (simp_all add: block_id_inj)
    from 1 p ic Cons.IH(1) show ?case by auto
  next
    case 2
    with p have ic: "i = block_id c" "block_id c = block_id b \<longleftrightarrow> c = b"
      by (simp_all add: block_id_inj)
    from 2 p ic Cons.IH(2) show ?case by auto }
qed simp_all

lemma id_keyed_distinct: "id_keyed d \<Longrightarrow> distinct (map fst d) \<Longrightarrow> distinct (map snd d)"
proof (induction d)
  case (Cons p d)
  then show ?case by (cases p) (auto simp: id_keyed_mem)
qed simp

subsection \<open>Each operation on the entries\<close>

lemma map_wf_empty [simp]: "map_wf empty_map" "entries empty_map k = []"
  by (auto simp: map_wf_def empty_map_def entries_def)

lemma map_wfD:
  assumes "map_wf m"
  shows "distinct (entries m k)" "b \<in> set (entries m k) \<Longrightarrow> is_pool_block b"
    and "entries m k = [] \<longleftrightarrow> m k = None"
  using assms
  by (cases "m k"; force simp: map_wf_def entries_def id_keyed_distinct
      intro: id_keyed_pool split: cached_blocks.splits)+

lemma get_one_block_entries:
  "map_wf m \<Longrightarrow>
   get_one_block k m = Inr (case entries m k of [] \<Rightarrow> None | b # _ \<Rightarrow> Some b)"
  by (auto simp: get_one_block_def entries_def map_wf_def
      split: option.splits cached_blocks.splits list.splits)

lemma contain_entries:
  "map_wf m \<Longrightarrow> is_pool_block b \<Longrightarrow> contain k (block_id b) m \<longleftrightarrow> b \<in> set (entries m k)"
  by (auto simp: contain_def entries_def map_wf_def block_id_inj id_keyed_mem
      split: option.splits cached_blocks.splits)

lemma entries_insert:
  assumes "map_wf m" "is_pool_block b"
  shows "entries (insert_block k b m) k' =
    (if k' = k \<and> b \<notin> set (entries m k) then entries m k @ [b] else entries m k')"
proof (cases "m k")
  case (Some v)
  show ?thesis
  proof (cases v)
    case (OneBlock c)
    with assms Some have "is_pool_block c" by (auto simp: map_wf_def)
    with assms Some OneBlock show ?thesis
      by (auto simp: insert_block_def entries_def dict_update block_id_inj)
  next
    case (BlockDict d)
    with assms Some have "id_keyed d" by (auto simp: map_wf_def)
    with assms Some BlockDict show ?thesis
      by (auto simp: insert_block_def entries_def dict_update)
  qed
qed (auto simp: insert_block_def entries_def)

lemma map_wf_insert: "map_wf m \<Longrightarrow> is_pool_block b \<Longrightarrow> map_wf (insert_block k b m)"
  by (auto simp: map_wf_def insert_block_def id_keyed_update distinct_update
      split: option.splits cached_blocks.splits)

lemma pop_block_entries:
  assumes "map_wf m" "is_pool_block b"
  shows "fst (pop_block k (block_id b) m) = (if b \<in> set (entries m k) then Some b else None)"
    and "entries (snd (pop_block k (block_id b) m)) k' =
      (if k' = k then remove1 b (entries m k) else entries m k')"
proof -
  have d: "map snd (AList.delete (block_id b) d) = remove1 b (map snd d)"
    "map_of d (block_id b) = (if b \<in> snd ` set d then Some b else None)"
    if "m k = Some (BlockDict d)" for d
    using dict_delete [of d b] that assms by (auto simp: map_wf_def)
  show "fst (pop_block k (block_id b) m) = (if b \<in> set (entries m k) then Some b else None)"
    using assms d by (auto simp: pop_block_def entries_def map_wf_def Let_def block_id_inj
        split: option.splits cached_blocks.splits)
  show "entries (snd (pop_block k (block_id b) m)) k' =
      (if k' = k then remove1 b (entries m k) else entries m k')"
  proof (cases "\<exists>d. m k = Some (BlockDict d)")
    case True
    then obtain e where e: "m k = Some (BlockDict e)" by blast
    show ?thesis using d(1) [OF e] e by (cases "AList.delete (block_id b) e")
        (auto simp: pop_block_def entries_def Let_def)
  next
    case False
    with assms show ?thesis
      by (auto simp: pop_block_def entries_def map_wf_def block_id_inj
          split: option.splits cached_blocks.splits)
  qed
qed

lemma map_wf_pop: "map_wf m \<Longrightarrow> map_wf (snd (pop_block k i m))"
  by (auto simp: map_wf_def pop_block_def Let_def id_keyed_delete distinct_delete
      split: option.splits cached_blocks.splits if_splits)


subsection \<open>The interface of the index\<close>

text \<open>
  What a client of the index relies on: a well-formed index stands for a list of distinct
  entries per key; the operations act on the list of their key and leave the others alone.
\<close>

locale prefix_index =
  fixes wf :: "'m \<Rightarrow> bool" and ents :: "'m \<Rightarrow> 'k \<Rightarrow> 'b list" and ok :: "'b \<Rightarrow> bool"
    and ident :: "'b \<Rightarrow> 'i" and first :: "'k \<Rightarrow> 'm \<Rightarrow> 'b option result"
    and has :: "'k \<Rightarrow> 'i \<Rightarrow> 'm \<Rightarrow> bool" and ins :: "'k \<Rightarrow> 'b \<Rightarrow> 'm \<Rightarrow> 'm"
    and del :: "'k \<Rightarrow> 'i \<Rightarrow> 'm \<Rightarrow> 'b option \<times> 'm"
  assumes ents_distinct: "wf m \<Longrightarrow> distinct (ents m k)"
    and ents_ok: "wf m \<Longrightarrow> b \<in> set (ents m k) \<Longrightarrow> ok b"
    and first_ents: "wf m \<Longrightarrow> first k m = Inr (case ents m k of [] \<Rightarrow> None | b # _ \<Rightarrow> Some b)"
    and has_ents: "wf m \<Longrightarrow> ok b \<Longrightarrow> has k (ident b) m \<longleftrightarrow> b \<in> set (ents m k)"
    and ins_wf: "wf m \<Longrightarrow> ok b \<Longrightarrow> wf (ins k b m)"
    and ins_ents: "wf m \<Longrightarrow> ok b \<Longrightarrow> ents (ins k b m) k' =
      (if k' = k \<and> b \<notin> set (ents m k) then ents m k @ [b] else ents m k')"
    and del_wf: "wf m \<Longrightarrow> wf (snd (del k i m))"
    and del_result: "wf m \<Longrightarrow> ok b \<Longrightarrow>
      fst (del k (ident b) m) = (if b \<in> set (ents m k) then Some b else None)"
    and del_ents: "wf m \<Longrightarrow> ok b \<Longrightarrow>
      ents (snd (del k (ident b) m)) k' = (if k' = k then remove1 b (ents m k) else ents m k')"
begin

lemma set_ins: "wf m \<Longrightarrow> ok b \<Longrightarrow>
  c \<in> set (ents (ins k b m) k') \<longleftrightarrow> c \<in> set (ents m k') \<or> (c = b \<and> k' = k)"
  by (auto simp: ins_ents)

lemma set_del: "wf m \<Longrightarrow> ok b \<Longrightarrow>
  c \<in> set (ents (snd (del k (ident b) m)) k') \<longleftrightarrow> c \<in> set (ents m k') \<and> \<not> (c = b \<and> k' = k)"
  by (auto simp: del_ents ents_distinct)

lemma first_Some_iff: "wf m \<Longrightarrow> (\<exists>b. first k m = Inr (Some b)) \<longleftrightarrow> ents m k \<noteq> []"
  by (auto simp: first_ents split: list.splits)

lemma first_SomeD: "wf m \<Longrightarrow> first k m = Inr (Some b) \<Longrightarrow> b \<in> set (ents m k)"
  by (auto simp: first_ents split: list.splits)

lemma first_stable: "wf m \<Longrightarrow> ok c \<Longrightarrow> first k m = Inr (Some b) \<Longrightarrow> first k (ins k' c m) = Inr (Some b)"
  by (auto simp: first_ents ins_wf ins_ents split: list.splits)

lemma del_ins_fresh:
  "wf m \<Longrightarrow> ok b \<Longrightarrow> b \<notin> set (ents m k) \<Longrightarrow>
   fst (del k (ident b) (ins k b m)) = Some b \<and> ents (snd (del k (ident b) (ins k b m))) k' = ents m k'"
  by (auto simp: del_result del_ents ins_wf ins_ents remove1_append)

end

interpretation bm: prefix_index map_wf entries is_pool_block block_id get_one_block contain
    insert_block pop_block
  by unfold_locales
    (simp_all add: map_wfD get_one_block_entries contain_entries map_wf_insert entries_insert
      map_wf_pop pop_block_entries)

subsection \<open>Properties\<close>

text \<open>
  C24. The two representations of the index are a list of distinct blocks per key: inserting
  appends the block under its key unless it is there, popping a block id returns the block
  exactly when it was indexed under the key and removes that entry only, a lookup returns the
  block indexed first, and \<open>contain\<close> is membership. No lookup meets an empty dictionary.
\<close>

theorem block_map_refines_lists:
  assumes wf: "map_wf m"
  shows "map_wf (insert_block k (Blk i) m) \<and> map_wf (snd (pop_block k (int i) m))
    \<and> (\<forall>k'. entries (insert_block k (Blk i) m) k' =
         (if k' = k \<and> Blk i \<notin> set (entries m k) then entries m k @ [Blk i] else entries m k'))
    \<and> (\<forall>k'. entries (snd (pop_block k (int i) m)) k' =
         (if k' = k then remove1 (Blk i) (entries m k) else entries m k'))
    \<and> fst (pop_block k (int i) m) = (if Blk i \<in> set (entries m k) then Some (Blk i) else None)
    \<and> (contain k (int i) m \<longleftrightarrow> Blk i \<in> set (entries m k))
    \<and> get_one_block k m = Inr (case entries m k of [] \<Rightarrow> None | c # _ \<Rightarrow> Some c)"
  using wf bm.del_ents [of m "Blk i"] bm.del_result [of m "Blk i"] bm.has_ents [of m "Blk i"]
  by (simp add: bm.ins_wf bm.del_wf bm.ins_ents bm.first_ents)

text \<open>A key with two blocks: the second insertion, a lookup, and the removal of the first.\<close>

theorem block_map_refines_lists_witness:
  "let k = [7]; m = insert_block k (Blk 4) (insert_block k (Blk 2) empty_map) in
   entries m k = [Blk 2, Blk 4] \<and> get_one_block k m = Inr (Some (Blk 2)) \<and>
   fst (pop_block k 2 m) = Some (Blk 2) \<and> entries (snd (pop_block k 2 m)) k = [Blk 4] \<and>
   contain k 4 m"
proof -
  let ?m1 = "insert_block [7] (Blk 2) empty_map" and ?k = "[7] :: hash_key"
  note r = block_map_refines_lists
  have wf1: "map_wf ?m1" and e1: "entries ?m1 ?k = [Blk 2]"
    using r [OF map_wf_empty(1), of ?k 2] by auto
  let ?m2 = "insert_block [7] (Blk 4) ?m1"
  have wf2: "map_wf ?m2" and e2: "entries ?m2 ?k = [Blk 2, Blk 4]"
    using r [OF wf1, of ?k 4] e1 by auto
  show ?thesis
    using e2 r [OF wf2, of ?k 2] r [OF wf2, of ?k 4] by (simp add: Let_def)
qed

end
