(* ===== verification/Request.thy ===== *)
theory Request
  imports Hash_Keys Complex_Main "HOL-Library.List_Lexorder" "HOL-Library.Char_ord"
    "HOL-Library.Product_Lexorder"
begin

text \<open>
  Requests (\<open>vllm/v1/request.py\<close>): the status enumeration with its order, the request record
  with the fields the cache manager and the scheduler read or write, its constructor, and the
  methods. Opaque payloads that no modelled code inspects (trace headers, transfer parameters,
  multi-modal tensors, reasoning options) are left out of the record.

  The block hasher a request is created with is an argument of the operations that call it.
  Times are rationals; \<open>py_id\<close> is the identity \<open>id(self)\<close> of the object.
\<close>

subsection \<open>Status and finish reason\<close>

datatype request_status =
    WAITING
  | WAITING_FOR_STRUCTURED_OUTPUT_GRAMMAR
  | WAITING_FOR_REMOTE_KVS
  | WAITING_FOR_STREAMING_REQ
  | RUNNING
  | PREEMPTED
  | FINISHED_STOPPED
  | FINISHED_LENGTH_CAPPED
  | FINISHED_ABORTED
  | FINISHED_IGNORED
  | FINISHED_ERROR
  | FINISHED_REPETITION

text \<open>The value \<open>enum.auto()\<close> gives each member; an \<open>IntEnum\<close> is compared by it.\<close>

fun status_value :: "request_status \<Rightarrow> nat" where
  "status_value WAITING = 1"
| "status_value WAITING_FOR_STRUCTURED_OUTPUT_GRAMMAR = 2"
| "status_value WAITING_FOR_REMOTE_KVS = 3"
| "status_value WAITING_FOR_STREAMING_REQ = 4"
| "status_value RUNNING = 5"
| "status_value PREEMPTED = 6"
| "status_value FINISHED_STOPPED = 7"
| "status_value FINISHED_LENGTH_CAPPED = 8"
| "status_value FINISHED_ABORTED = 9"
| "status_value FINISHED_IGNORED = 10"
| "status_value FINISHED_ERROR = 11"
| "status_value FINISHED_REPETITION = 12"

lemma status_value_inj: "status_value s = status_value t \<Longrightarrow> s = t"
  by (cases s; cases t) simp_all

instantiation request_status :: linorder
begin

definition less_eq_request_status :: "request_status \<Rightarrow> request_status \<Rightarrow> bool" where
  "less_eq_request_status s t \<longleftrightarrow> status_value s \<le> status_value t"

definition less_request_status :: "request_status \<Rightarrow> request_status \<Rightarrow> bool" where
  "less_request_status s t \<longleftrightarrow> status_value s < status_value t"

instance
  by standard (auto simp: less_eq_request_status_def less_request_status_def
      dest: status_value_inj)

end

datatype finish_reason = FR_STOP | FR_LENGTH | FR_ABORT | FR_ERROR | FR_REPETITION

definition status_is_finished :: "request_status \<Rightarrow> bool" where
  "status_is_finished s \<longleftrightarrow> s > PREEMPTED"

definition finished_reason_map :: "request_status \<rightharpoonup> finish_reason" where
  "finished_reason_map =
     [FINISHED_STOPPED \<mapsto> FR_STOP,
      FINISHED_LENGTH_CAPPED \<mapsto> FR_LENGTH,
      FINISHED_ABORTED \<mapsto> FR_ABORT,
      FINISHED_IGNORED \<mapsto> FR_LENGTH,
      FINISHED_ERROR \<mapsto> FR_ERROR,
      WAITING_FOR_STREAMING_REQ \<mapsto> FR_STOP,
      FINISHED_REPETITION \<mapsto> FR_REPETITION]"

definition status_finished_reason :: "request_status \<Rightarrow> finish_reason option" where
  "status_finished_reason s = finished_reason_map s"

subsection \<open>Parameters and inputs of a request\<close>

record repetition_detection_params =
  max_pattern_size :: int
  min_pattern_size :: int
  min_count :: int

text \<open>\<open>has_structured_outputs\<close>: the parameters ask for structured output.\<close>

record sampling_params =
  sp_max_tokens :: "int option"
  min_tokens :: int
  eos_token_id :: "int option"
  stop_token_ids :: "int list option"
  repetition_detection :: "repetition_detection_params option"
  sp_skip_reading_prefix_cache :: "bool option"
  has_structured_outputs :: bool
  report_mode_arg :: "string option"

record pooling_params =
  pp_skip_reading_prefix_cache :: "bool option"

record lora_request =
  lora_name :: string
  lora_int_id :: int

text \<open>The placeholder of a multi-modal item; \<open>is_embed\<close> is its boolean mask.\<close>

record placeholder_range =
  ph_offset :: int
  ph_length :: int
  is_embed :: "bool list option"

definition embeds_cumsum :: "placeholder_range \<Rightarrow> int list option" where
  "embeds_cumsum p =
     map_option (\<lambda>mask. map (\<lambda>k. int (length (filter id (take (Suc k) mask)))) [0..<length mask]) (is_embed p)"

definition get_num_embeds :: "placeholder_range \<Rightarrow> int" where
  "get_num_embeds p =
     (case embeds_cumsum p of
        None \<Rightarrow> ph_length p
      | Some cs \<Rightarrow> if cs = [] then 0 else last cs)"

record mm_feature =
  mm_identifier :: string
  mm_position :: placeholder_range

datatype stop_reason = StopToken int | StopString string

datatype event_type = EV_QUEUED | EV_SCHEDULED | EV_PREEMPTED

record prefill_stats =
  ps_num_prompt_tokens :: int
  ps_num_computed_tokens :: int
  ps_num_cached_tokens :: int
  ps_num_local_cached_tokens :: int
  ps_num_external_cached_tokens :: int
  ps_num_cache_creation_tokens :: int

definition new_prefill_stats :: prefill_stats where
  "new_prefill_stats = \<lparr>ps_num_prompt_tokens = 0, ps_num_computed_tokens = 0,
     ps_num_cached_tokens = 0, ps_num_local_cached_tokens = 0,
     ps_num_external_cached_tokens = 0, ps_num_cache_creation_tokens = 0\<rparr>"

record streaming_update =
  su_mm_features :: "mm_feature list"
  su_prompt_token_ids :: "int list option"
  su_max_tokens :: int
  su_arrival_time :: rat
  su_sampling_params :: "sampling_params option"

text \<open>A row of a prompt-embedding tensor is the list of its bytes.\<close>

type_synonym embed_row = "byte list"

subsection \<open>The request\<close>

record request =
  py_id :: int
  request_id :: string
  client_index :: int
  priority :: int
  sampling_params :: "sampling_params option"
  pooling_params :: "pooling_params option"
  lora_request :: "lora_request option"
  structured_output_request :: bool
  arrival_time :: rat
  status :: request_status
  events :: "(event_type \<times> rat) list"
  stop_reason :: "stop_reason option"
  max_tokens :: int
  kv_cache_report_mode :: "string option"
  prompt_token_ids :: "int list option"
  prompt_embeds :: "embed_row list option"
  prompt_is_token_ids :: "bool list option"
  prompt_embeds_per_block_hashes :: "int \<times> int \<rightharpoonup> byte list"
  num_prompt_tokens :: int
  output_token_ids :: "int list"
  all_token_ids :: "int list"
  num_output_placeholders :: int
  num_stale_output_tokens :: int
  drop_stale_output :: bool
  num_in_flight_tokens :: int
  next_decode_eligible_step :: int
  last_sched_seq :: int
  spec_token_ids :: "int list"
  num_computed_tokens :: int
  cache_salt :: "string option"
  mm_features :: "mm_feature list"
  session_id :: "string option"
  is_prefill_chunk :: bool
  shared_prefix_boundary :: int
  num_nans_in_logits :: int
  num_preemptions :: int
  prefill_stats :: "prefill_stats option"
  block_hashes :: "block_hash list"
  skip_reading_prefix_cache :: bool
  resumable :: bool
  streaming_queue :: "streaming_update option list option"
  abort_immediately :: bool


subsection \<open>Construction\<close>

text \<open>The arguments of the constructor, as an engine-core request carries them.\<close>

record engine_core_request =
  ec_request_id :: string
  ec_prompt_token_ids :: "int list option"
  ec_mm_features :: "mm_feature list option"
  ec_sampling_params :: "sampling_params option"
  ec_pooling_params :: "pooling_params option"
  ec_arrival_time :: "rat option"
  ec_lora_request :: "lora_request option"
  ec_cache_salt :: "string option"
  ec_prompt_embeds :: "embed_row list option"
  ec_prompt_is_token_ids :: "bool list option"
  ec_client_index :: int
  ec_priority :: int
  ec_resumable :: bool
  ec_session_id :: "string option"
  ec_abort_immediately :: bool

definition length_from_prompt_token_ids_or_embeds ::
  "int list option \<Rightarrow> embed_row list option \<Rightarrow> int result" where
  "length_from_prompt_token_ids_or_embeds ids embeds =
     (case (ids, embeds) of
        (None, None) \<Rightarrow> Inl ValueError
      | (None, Some e) \<Rightarrow> Inr (int (length e))
      | (Some t, None) \<Rightarrow> Inr (int (length t))
      | (Some t, Some e) \<Rightarrow> if length e \<noteq> length t then Inl ValueError else Inr (int (length t)))"

text \<open>
  A block hasher: the hashes of the blocks that became full, and the request with the
  embedding hashes it memoised. The option is termination.
\<close>

type_synonym block_hasher = "request \<Rightarrow> (block_hash list \<times> request) result option"

definition update_block_hashes :: "block_hasher option \<Rightarrow> request \<Rightarrow> request result option" where
  "update_block_hashes hasher r =
     (case hasher of
        None \<Rightarrow> Some (Inr r)
      | Some h \<Rightarrow>
          map_option (\<lambda>m. bindE m (\<lambda>(hs, r'). Inr (r'\<lparr>block_hashes := block_hashes r' @ hs\<rparr>))) (h r))"

definition get_skip_reading_prefix_cache ::
  "sampling_params option \<Rightarrow> pooling_params option \<Rightarrow> bool" where
  "get_skip_reading_prefix_cache sp pp =
     (case Option.bind sp sp_skip_reading_prefix_cache of
        Some v \<Rightarrow> v
      | None \<Rightarrow> (case Option.bind pp pp_skip_reading_prefix_cache of Some v \<Rightarrow> v | None \<Rightarrow> False))"

definition structured_output_from :: "sampling_params option \<Rightarrow> bool" where
  "structured_output_from sp = (case sp of None \<Rightarrow> False | Some p \<Rightarrow> has_structured_outputs p)"

text \<open>Maximum number of output tokens, initial status and event report mode.\<close>

definition init_mode ::
  "sampling_params option \<Rightarrow> pooling_params option \<Rightarrow> (int \<times> request_status \<times> string option) result" where
  "init_mode sp pp =
     (case (pp, sp) of
        (Some _, _) \<Rightarrow> Inr (1, WAITING, None)
      | (None, Some p) \<Rightarrow>
          (case sp_max_tokens p of
             None \<Rightarrow> Inl AssertionError
           | Some mt \<Rightarrow>
               Inr (mt, if structured_output_from sp then WAITING_FOR_STRUCTURED_OUTPUT_GRAMMAR else WAITING,
                 Some (case report_mode_arg p of None \<Rightarrow> ''incremental'' | Some md \<Rightarrow> md)))
      | (None, None) \<Rightarrow> Inl ValueError)"

definition init_token_ids :: "int list option \<Rightarrow> bool list option \<Rightarrow> int \<Rightarrow> int list" where
  "init_token_ids ids is_toks n =
     (case ids of
        None \<Rightarrow> replicate (nat n) 0
      | Some t \<Rightarrow>
          (case is_toks of
             None \<Rightarrow> t
           | Some m \<Rightarrow> map (\<lambda>(x, is_tok). if is_tok then x else 0) (zip t m)))"

text \<open>
  \<open>Request.__init__\<close>: the fields as the constructor sets them before the hasher runs, then
  the hashes and the flag. \<open>now\<close> is the clock and \<open>oid\<close> the identity of the new object.
\<close>

definition init_fields ::
  "rat \<Rightarrow> int \<Rightarrow> engine_core_request \<Rightarrow> int \<Rightarrow> request_status \<Rightarrow> string option \<Rightarrow> int \<Rightarrow> request" where
  "init_fields now oid a mt st report n =
     \<lparr>py_id = oid, request_id = ec_request_id a, client_index = ec_client_index a,
      priority = ec_priority a, sampling_params = ec_sampling_params a,
      pooling_params = ec_pooling_params a, lora_request = ec_lora_request a,
      structured_output_request = structured_output_from (ec_sampling_params a),
      arrival_time = (case ec_arrival_time a of Some t \<Rightarrow> t | None \<Rightarrow> now),
      status = st, events = [], stop_reason = None, max_tokens = mt,
      kv_cache_report_mode = report, prompt_token_ids = ec_prompt_token_ids a,
      prompt_embeds = ec_prompt_embeds a, prompt_is_token_ids = ec_prompt_is_token_ids a,
      prompt_embeds_per_block_hashes = Map.empty, num_prompt_tokens = n,
      output_token_ids = [],
      all_token_ids = init_token_ids (ec_prompt_token_ids a) (ec_prompt_is_token_ids a) n,
      num_output_placeholders = 0, num_stale_output_tokens = 0, drop_stale_output = False,
      num_in_flight_tokens = 0, next_decode_eligible_step = 0, last_sched_seq = 0,
      spec_token_ids = [], num_computed_tokens = 0, cache_salt = ec_cache_salt a,
      mm_features = (case ec_mm_features a of None \<Rightarrow> [] | Some fs \<Rightarrow> fs),
      session_id = ec_session_id a, is_prefill_chunk = False, shared_prefix_boundary = 0,
      num_nans_in_logits = 0, num_preemptions = 0, prefill_stats = Some new_prefill_stats,
      block_hashes = [], skip_reading_prefix_cache = False, resumable = ec_resumable a,
      streaming_queue = None, abort_immediately = ec_abort_immediately a\<rparr>"

definition init_request ::
  "block_hasher option \<Rightarrow> rat \<Rightarrow> int \<Rightarrow> engine_core_request \<Rightarrow> request result option" where
  "init_request hasher now oid a =
     (case init_mode (ec_sampling_params a) (ec_pooling_params a) of
        Inl e \<Rightarrow> Some (Inl e)
      | Inr (mt, st, report) \<Rightarrow>
          (case length_from_prompt_token_ids_or_embeds (ec_prompt_token_ids a) (ec_prompt_embeds a) of
             Inl e \<Rightarrow> Some (Inl e)
           | Inr n \<Rightarrow>
               map_option (\<lambda>m. bindE m (\<lambda>r.
                   Inr (r\<lparr>skip_reading_prefix_cache :=
                            get_skip_reading_prefix_cache (sampling_params r) (pooling_params r)\<rparr>)))
                 (update_block_hashes hasher (init_fields now oid a mt st report n))))"

definition streaming_update_from_request :: "request \<Rightarrow> streaming_update option" where
  "streaming_update_from_request r =
     (if \<not> resumable r then None
      else Some \<lparr>su_mm_features = mm_features r, su_prompt_token_ids = prompt_token_ids r,
        su_max_tokens = max_tokens r, su_arrival_time = arrival_time r,
        su_sampling_params = sampling_params r\<rparr>)"

subsection \<open>Methods\<close>

text \<open>A single token id is the one-element list.\<close>

definition append_output_token_ids ::
  "block_hasher option \<Rightarrow> int list \<Rightarrow> request \<Rightarrow> request result option" where
  "append_output_token_ids hasher ts r =
     update_block_hashes hasher
       (r\<lparr>output_token_ids := output_token_ids r @ ts, all_token_ids := all_token_ids r @ ts\<rparr>)"

definition use_structured_output :: "request \<Rightarrow> bool" where
  "use_structured_output r = structured_output_request r"

definition num_tokens :: "request \<Rightarrow> int" where
  "num_tokens r = int (length (all_token_ids r))"

definition num_tokens_with_spec :: "request \<Rightarrow> int" where
  "num_tokens_with_spec r = int (length (all_token_ids r)) + int (length (spec_token_ids r))"

definition num_output_tokens :: "request \<Rightarrow> int" where
  "num_output_tokens r = int (length (output_token_ids r))"

definition num_encoder_inputs :: "request \<Rightarrow> int" where
  "num_encoder_inputs r = int (length (mm_features r))"

definition has_encoder_inputs :: "request \<Rightarrow> bool" where
  "has_encoder_inputs r \<longleftrightarrow> num_encoder_inputs r > 0"

definition is_finished :: "request \<Rightarrow> bool" where
  "is_finished r = status_is_finished (status r)"

definition get_finished_reason :: "request \<Rightarrow> finish_reason option" where
  "get_finished_reason r = status_finished_reason (status r)"

text \<open>\<open>mm_features[input_id]\<close>; an index below \<open>-len\<close> is out of range.\<close>

definition get_num_encoder_embeds :: "int \<Rightarrow> request \<Rightarrow> int result" where
  "get_num_encoder_embeds i r =
     (let n = num_encoder_inputs r in
      if \<not> i < n then Inl AssertionError
      else if i \<ge> 0 then Inr (get_num_embeds (mm_position (mm_features r ! nat i)))
      else if - i \<le> n then Inr (get_num_embeds (mm_position (mm_features r ! nat (n + i))))
      else Inl IndexError)"

definition record_event :: "event_type \<Rightarrow> rat option \<Rightarrow> rat \<Rightarrow> request \<Rightarrow> request" where
  "record_event ev ts now r =
     r\<lparr>events := events r @ [(ev, case ts of None \<Rightarrow> now | Some t \<Rightarrow> t)]\<rparr>"

definition take_request_events :: "request \<Rightarrow> (event_type \<times> rat) list option \<times> request" where
  "take_request_events r = (if events r = [] then (None, r) else (Some (events r), r\<lparr>events := []\<rparr>))"

definition take_prefill_stats :: "request \<Rightarrow> prefill_stats option \<times> request" where
  "take_prefill_stats r =
     (case prefill_stats r of None \<Rightarrow> (None, r) | Some s \<Rightarrow> (Some s, r\<lparr>prefill_stats := None\<rparr>))"

definition request_lt :: "request \<Rightarrow> request \<Rightarrow> bool" where
  "request_lt a b =
     (if priority a \<noteq> priority b then priority a < priority b
      else if arrival_time a \<noteq> arrival_time b then arrival_time a < arrival_time b
      else if request_id a \<noteq> request_id b then request_id a < request_id b
      else py_id a < py_id b)"


subsection \<open>The order of requests\<close>

text \<open>The lexicographic key the comparison stands for.\<close>

definition request_key :: "request \<Rightarrow> int \<times> rat \<times> string \<times> int" where
  "request_key r = (priority r, arrival_time r, request_id r, py_id r)"

lemma request_lt_key: "request_lt a b \<longleftrightarrow> request_key a < request_key b"
  by (auto simp: request_lt_def request_key_def less_prod_def')

lemma request_lt_irrefl [simp]: "\<not> request_lt a a"
  by (simp add: request_lt_key)



text \<open>A small request, three prompt tokens and text only, for the concrete instances of the properties.\<close>

definition sample_sampling :: sampling_params where
  "sample_sampling = \<lparr>sp_max_tokens = Some 16, min_tokens = 0, eos_token_id = Some 0,
     stop_token_ids = None, repetition_detection = None, sp_skip_reading_prefix_cache = None,
     has_structured_outputs = False, report_mode_arg = None\<rparr>"

definition sample_args :: engine_core_request where
  "sample_args = \<lparr>ec_request_id = ''r'', ec_prompt_token_ids = Some [11, 12, 13], ec_mm_features = None,
     ec_sampling_params = Some sample_sampling, ec_pooling_params = None, ec_arrival_time = Some 0,
     ec_lora_request = None, ec_cache_salt = None, ec_prompt_embeds = None,
     ec_prompt_is_token_ids = None, ec_client_index = 0, ec_priority = 0, ec_resumable = False,
     ec_session_id = None, ec_abort_immediately = False\<rparr>"

lemma sample_args_init:
  "init_mode (ec_sampling_params sample_args) (ec_pooling_params sample_args)
     = Inr (16, WAITING, Some ''incremental'')"
  "length_from_prompt_token_ids_or_embeds (ec_prompt_token_ids sample_args) (ec_prompt_embeds sample_args) = Inr 3"
  by (simp_all add: sample_args_def sample_sampling_def init_mode_def structured_output_from_def
      length_from_prompt_token_ids_or_embeds_def)



text \<open>
  The statuses after \<open>PREEMPTED\<close> are exactly the finished ones and each of them has a
  finish reason; of the others only a streaming request that waits for its next input has one,
  and it is \<open>stop\<close>.
\<close>

theorem finished_status_has_reason:
  "(status_is_finished s \<longleftrightarrow>
      s \<in> {FINISHED_STOPPED, FINISHED_LENGTH_CAPPED, FINISHED_ABORTED, FINISHED_IGNORED,
           FINISHED_ERROR, FINISHED_REPETITION})
   \<and> (status_finished_reason s \<noteq> None \<longleftrightarrow> status_is_finished s \<or> s = WAITING_FOR_STREAMING_REQ)
   \<and> (status_finished_reason s = Some FR_LENGTH \<longleftrightarrow> s \<in> {FINISHED_LENGTH_CAPPED, FINISHED_IGNORED})
   \<and> (status_finished_reason s = Some FR_STOP \<longleftrightarrow> s \<in> {FINISHED_STOPPED, WAITING_FOR_STREAMING_REQ})"
  by (cases s) (simp_all add: status_is_finished_def less_request_status_def
      status_finished_reason_def finished_reason_map_def)

end
