(* ===== verification/Block_Hash.thy ===== *)
theory Block_Hash
  imports Request Math_Utils
begin

text \<open>
  Block hashes of a request (\<open>vllm/v1/core/kv_cache_utils.py\<close>): the extra keys of a block
  (multi-modal items, LoRA name, cache salt, prompt embeddings), the chained hash of a block,
  the incremental hasher a request calls when tokens arrive, and the views of the hashes at a
  coarser block size.

  The hash function, the digest of a slice of prompt embeddings and the global \<open>NONE_HASH\<close>
  are arguments. The \<open>while True\<close> loop of the hasher is a \<open>partial_function\<close>, so that a block
  size for which it does not end is visible as \<open>None\<close>.
\<close>

subsection \<open>Extra keys\<close>

text \<open>The members of an extra-key tuple: \<open>(identifier, offset)\<close>, a string, a digest.\<close>

datatype extra_key = KeyMM string int | KeyStr string | KeyBytes "byte list"

text \<open>
  The loop over \<open>mm_features[curr_mm_idx:]\<close>: the keys of the block \<open>[s, e)\<close> and the index
  at which the loop stops.
\<close>

fun gen_mm_loop :: "mm_feature list \<Rightarrow> int \<Rightarrow> int \<Rightarrow> int \<Rightarrow> extra_key list \<times> int" where
  "gen_mm_loop [] s e i = ([], i)"
| "gen_mm_loop (f # fs) s e i =
     (let offset = ph_offset (mm_position f); len = ph_length (mm_position f) in
      if e > offset then
        if s \<ge> offset + len then gen_mm_loop fs s e (i + 1)
        else
          (let key = KeyMM (mm_identifier f) (offset - s) in
           if e \<ge> offset + len
           then (let (ks, j) = gen_mm_loop fs s e (i + 1) in (key # ks, j))
           else ([key], i))
      else ([], i))"

definition gen_mm_extra_hash_keys ::
  "request \<Rightarrow> int \<Rightarrow> int \<Rightarrow> int \<Rightarrow> (extra_key list \<times> int) result" where
  "gen_mm_extra_hash_keys r s e start_mm_idx =
     (let fs = mm_features r in
      if fs = [] then Inr ([], start_mm_idx)
      else
        (let last_pos = mm_position (last fs) in
         if ph_offset last_pos + ph_length last_pos \<le> s then Inr ([], start_mm_idx)
         else if start_mm_idx < 0 then
           bindE (assertE (- start_mm_idx \<le> int (length fs))) (\<lambda>_.
             (let i = int (length fs) + start_mm_idx in Inr (gen_mm_loop (drop (nat i) fs) s e i)))
         else Inr (gen_mm_loop (drop (nat start_mm_idx) fs) s e start_mm_idx)))"

definition gen_lora_extra_hash_keys :: "request \<Rightarrow> extra_key list" where
  "gen_lora_extra_hash_keys r =
     (case lora_request r of None \<Rightarrow> [] | Some l \<Rightarrow> [KeyStr (lora_name l)])"

type_synonym embeds_digest = "embed_row list \<Rightarrow> byte list"

definition gen_prompt_embeds_extra_hash_keys ::
  "embeds_digest \<Rightarrow> request \<Rightarrow> int \<Rightarrow> int \<Rightarrow> extra_key list \<times> request" where
  "gen_prompt_embeds_extra_hash_keys dig r s e =
     (case prompt_embeds r of
        None \<Rightarrow> ([], r)
      | Some embeds \<Rightarrow>
          (case prompt_embeds_per_block_hashes r (s, e) of
             Some h \<Rightarrow> ([KeyBytes h], r)
           | None \<Rightarrow>
               (let h = dig (py_slice s e embeds)
                in ([KeyBytes h],
                    r\<lparr>prompt_embeds_per_block_hashes := (prompt_embeds_per_block_hashes r)((s, e) \<mapsto> h)\<rparr>))))"

definition cache_salt_keys :: "request \<Rightarrow> int \<Rightarrow> extra_key list" where
  "cache_salt_keys r s =
     (case cache_salt r of
        None \<Rightarrow> []
      | Some salt \<Rightarrow> if s = 0 \<and> salt \<noteq> '''' then [KeyStr salt] else [])"

definition generate_block_hash_extra_keys ::
  "embeds_digest \<Rightarrow> request \<Rightarrow> int \<Rightarrow> int \<Rightarrow> int \<Rightarrow> (extra_key list option \<times> int \<times> request) result" where
  "generate_block_hash_extra_keys dig r s e start_mm_idx =
     bindE (gen_mm_extra_hash_keys r s e start_mm_idx) (\<lambda>(mm_keys, new_start_mm_idx).
       (let lora_keys = gen_lora_extra_hash_keys r;
            salt_keys = cache_salt_keys r s;
            (embeds_keys, r') = gen_prompt_embeds_extra_hash_keys dig r s e;
            extra_keys = lora_keys @ mm_keys @ salt_keys @ embeds_keys
        in Inr (if extra_keys = [] then None else Some extra_keys, new_start_mm_idx, r')))"

subsection \<open>The hash of a block and of a request\<close>

type_synonym hash_function = "block_hash \<times> int list \<times> extra_key list option \<Rightarrow> block_hash"

definition hash_block_tokens ::
  "hash_function \<Rightarrow> block_hash \<Rightarrow> block_hash option \<Rightarrow> int list \<Rightarrow> extra_key list option \<Rightarrow> block_hash" where
  "hash_block_tokens hf none_hash parent toks keys =
     hf (if parent = None \<or> parent = Some [] then none_hash else the parent, toks, keys)"

partial_function (option) hash_loop ::
  "hash_function \<Rightarrow> embeds_digest \<Rightarrow> block_hash \<Rightarrow> int \<Rightarrow> int \<Rightarrow> request \<Rightarrow> int \<Rightarrow> int
     \<Rightarrow> block_hash option \<Rightarrow> block_hash list \<Rightarrow> (block_hash list \<times> request) result option" where
  "hash_loop hf dig none_hash bs n r s mm_idx prev acc =
     (let e = s + bs in
      if e > n then Some (Inr (acc, r))
      else
        (case generate_block_hash_extra_keys dig r s e mm_idx of
           Inl err \<Rightarrow> Some (Inl err)
         | Inr (keys, mm_idx', r') \<Rightarrow>
             (let h = hash_block_tokens hf none_hash prev (py_slice s e (all_token_ids r')) keys
              in hash_loop hf dig none_hash bs n r' (s + bs) mm_idx' (Some h) (acc @ [h]))))"

definition request_block_hasher ::
  "hash_function \<Rightarrow> embeds_digest \<Rightarrow> block_hash \<Rightarrow> int \<Rightarrow> block_hasher" where
  "request_block_hasher hf dig none_hash bs r =
     (let s = int (length (block_hashes r)) * bs; n = num_tokens r in
      if s + bs > n then Some (Inr ([], r))
      else hash_loop hf dig none_hash bs n r s (if s > 0 then -1 else 0)
             (if block_hashes r = [] then None else Some (last (block_hashes r))) [])"

subsection \<open>Views at a coarser block size\<close>

datatype block_hash_list =
    RawHashes "block_hash list"
  | WithBlockSize "block_hash list" int

definition block_hash_list_with_block_size :: "block_hash list \<Rightarrow> int \<Rightarrow> int \<Rightarrow> block_hash_list result" where
  "block_hash_list_with_block_size hs hash_block_size target_block_size =
     (if hash_block_size = 0 then Inl ZeroDivisionError
      else bindE (assertE (target_block_size mod hash_block_size = 0)) (\<lambda>_.
        Inr (WithBlockSize hs (target_block_size div hash_block_size))))"

definition bhl_len :: "block_hash_list \<Rightarrow> int result" where
  "bhl_len l =
     (case l of
        RawHashes hs \<Rightarrow> Inr (int (length hs))
      | WithBlockSize hs scale \<Rightarrow>
          if scale = 0 then Inl ZeroDivisionError
          else (let n = int (length hs) div scale in if n < 0 then Inl ValueError else Inr n))"

definition bhl_get :: "block_hash_list \<Rightarrow> int \<Rightarrow> block_hash result" where
  "bhl_get l i =
     (case l of
        RawHashes hs \<Rightarrow> py_index hs i
      | WithBlockSize hs scale \<Rightarrow> py_index hs ((i + 1) * scale - 1))"

text \<open>\<open>l[start:]\<close>: the bounds come from \<open>slice.indices(len(self))\<close>.\<close>

definition bhl_from :: "block_hash_list \<Rightarrow> int \<Rightarrow> block_hash list result" where
  "bhl_from l start =
     (case l of
        RawHashes hs \<Rightarrow> Inr (py_slice start (int (length hs)) hs)
      | WithBlockSize hs scale \<Rightarrow>
          bindE (bhl_len l) (\<lambda>n. mapE (bhl_get l) [int (py_bound n start)..n - 1]))"

definition resolve_block_hashes ::
  "block_hash_list \<Rightarrow> int \<Rightarrow> int \<Rightarrow> bool \<Rightarrow> int option \<Rightarrow> block_hash_list result" where
  "resolve_block_hashes l hash_block_size block_size fine alignment_tokens =
     (if block_size = hash_block_size then Inr l
      else
        (case l of
           WithBlockSize hs scale \<Rightarrow>
             if hash_block_size = 0 then Inl ZeroDivisionError
             else bindE (assertE (scale = block_size div hash_block_size)) (\<lambda>_. Inr l)
         | RawHashes hs \<Rightarrow>
             (let view =
                (if hash_block_size = 0 then Inl ZeroDivisionError
                 else bindE (assertE (block_size mod hash_block_size = 0)) (\<lambda>_.
                   block_hash_list_with_block_size hs hash_block_size block_size))
              in case alignment_tokens of
                   None \<Rightarrow> view
                 | Some a \<Rightarrow>
                     if fine \<and> a < block_size then
                       if a = 0 then Inl ZeroDivisionError
                       else if block_size mod a = 0 then Inr l else view
                     else view)))"


subsection \<open>What the keys of a block are\<close>

text \<open>
  The code assumes the multi-modal items sorted; \<open>mm_ordered\<close> says that they are in order and
  do not overlap. \<open>mm_keys\<close> are the items that have a token in the block, \<open>ref_extra_keys\<close>
  the keys of a block as a function of the request alone.
\<close>

definition mm_off :: "mm_feature \<Rightarrow> int" where
  "mm_off f = ph_offset (mm_position f)"

definition mm_end :: "mm_feature \<Rightarrow> int" where
  "mm_end f = ph_offset (mm_position f) + ph_length (mm_position f)"


definition mm_keys :: "mm_feature list \<Rightarrow> int \<Rightarrow> int \<Rightarrow> extra_key list" where
  "mm_keys fs s e =
     map (\<lambda>f. KeyMM (mm_identifier f) (mm_off f - s)) (filter (\<lambda>f. mm_off f < e \<and> s < mm_end f) fs)"

definition embeds_keys :: "embeds_digest \<Rightarrow> request \<Rightarrow> int \<Rightarrow> int \<Rightarrow> extra_key list" where
  "embeds_keys dig r s e =
     (case prompt_embeds r of None \<Rightarrow> [] | Some em \<Rightarrow> [KeyBytes (dig (py_slice s e em))])"

definition ref_extra_keys :: "embeds_digest \<Rightarrow> request \<Rightarrow> int \<Rightarrow> int \<Rightarrow> extra_key list option" where
  "ref_extra_keys dig r s e =
     (let ks = gen_lora_extra_hash_keys r @ mm_keys (mm_features r) s e @ cache_salt_keys r s
               @ embeds_keys dig r s e
      in if ks = [] then None else Some ks)"











text \<open>A non-negative start index never fails, in any order of the items.\<close>

lemma gen_mm_loop_mono: "gen_mm_loop fs s e i = (ks, j) \<Longrightarrow> i \<le> j"
proof (induction fs arbitrary: i ks j)
  case (Cons f fs)
  obtain ks' j' where l: "gen_mm_loop fs s e (i + 1) = (ks', j')" by force
  from Cons.IH [OF l] Cons.prems l show ?case by (auto simp: Let_def split: if_splits)
qed simp

lemma gen_mm_nonneg: "0 \<le> idx \<Longrightarrow> \<exists>ks j. gen_mm_extra_hash_keys r s e idx = Inr (ks, j) \<and> 0 \<le> j"
proof -
  assume idx: "0 \<le> idx"
  obtain ks j where "gen_mm_loop (drop (nat idx) (mm_features r)) s e idx = (ks, j)" by force
  with gen_mm_loop_mono [OF this] idx show ?thesis by (auto simp: gen_mm_extra_hash_keys_def Let_def)
qed


abbreviation with_memo :: "request \<Rightarrow> (int \<times> int \<rightharpoonup> byte list) \<Rightarrow> request" where
  "with_memo r m \<equiv> r\<lparr>prompt_embeds_per_block_hashes := m\<rparr>"


lemma prompt_embeds_keys_request:
  "\<exists>ks m. gen_prompt_embeds_extra_hash_keys dig r s e = (ks, with_memo r m)"
proof (cases "prompt_embeds r = None \<or> prompt_embeds_per_block_hashes r (s, e) \<noteq> None")
  case True
  then show ?thesis by (intro exI [of _ "fst (gen_prompt_embeds_extra_hash_keys dig r s e)"]
      exI [of _ "prompt_embeds_per_block_hashes r"])
    (auto simp: gen_prompt_embeds_extra_hash_keys_def split: option.splits)
qed (auto simp: gen_prompt_embeds_extra_hash_keys_def Let_def split: option.splits)

lemma generate_nonneg:
  assumes "0 \<le> idx"
  shows "\<exists>ks j m. generate_block_hash_extra_keys dig r s e idx = Inr (ks, j, with_memo r m) \<and> 0 \<le> j"
  using gen_mm_nonneg [OF assms, of r s e] prompt_embeds_keys_request [of dig r s e]
  by (auto simp: generate_block_hash_extra_keys_def Let_def)



subsection \<open>The chain of hashes\<close>

text \<open>
  The hashes of the first \<open>k\<close> blocks of a request, computed from its tokens and keys alone:
  each hash covers its parent's hash, the tokens of the block and the keys of the block.
\<close>

definition chain_parent :: "block_hash list \<Rightarrow> block_hash option" where
  "chain_parent hs = (if hs = [] then None else Some (last hs))"

primrec ref_chain ::
  "hash_function \<Rightarrow> embeds_digest \<Rightarrow> block_hash \<Rightarrow> int \<Rightarrow> request \<Rightarrow> nat \<Rightarrow> block_hash list" where
  "ref_chain hf dig none_hash bs r 0 = []"
| "ref_chain hf dig none_hash bs r (Suc k) =
     (let p = ref_chain hf dig none_hash bs r k; s = int k * bs; e = s + bs
      in p @ [hash_block_tokens hf none_hash (chain_parent p) (py_slice s e (all_token_ids r))
                (ref_extra_keys dig r s e)])"

lemma length_ref_chain [simp]: "length (ref_chain hf dig nh bs r k) = k"
  by (induction k) (simp_all add: Let_def)

lemma ref_chain_take: "j \<le> k \<Longrightarrow> take j (ref_chain hf dig nh bs r k) = ref_chain hf dig nh bs r j"
  by (induction k) (auto simp: Let_def le_Suc_eq)

text \<open>What the chain depends on: the tokens it covers and the inputs of the request.\<close>

definition same_inputs :: "request \<Rightarrow> request \<Rightarrow> bool" where
  "same_inputs r r' \<longleftrightarrow> mm_features r = mm_features r' \<and> lora_request r = lora_request r'
     \<and> cache_salt r = cache_salt r' \<and> prompt_embeds r = prompt_embeds r'"

lemma ref_extra_keys_cong: "same_inputs r r' \<Longrightarrow> ref_extra_keys dig r s e = ref_extra_keys dig r' s e"
  by (simp add: same_inputs_def ref_extra_keys_def gen_lora_extra_hash_keys_def cache_salt_keys_def
      embeds_keys_def)


lemma ref_extra_keys_memo [simp]: "ref_extra_keys dig (with_memo r m) s e = ref_extra_keys dig r s e"
  by (rule ref_extra_keys_cong) (simp add: same_inputs_def)

lemma ref_chain_eqI:
  assumes "same_inputs r r'" "all_token_ids r = all_token_ids r'"
  shows "ref_chain hf dig nh bs r k = ref_chain hf dig nh bs r' k"
  using assms by (induction k) (simp_all add: Let_def ref_extra_keys_cong)

lemma ref_chain_memo [simp]: "ref_chain hf dig nh bs (with_memo r m) k = ref_chain hf dig nh bs r k"
  by (rule ref_chain_eqI) (simp_all add: same_inputs_def)





subsection \<open>The life of a request\<close>








subsection \<open>A hash stands for its prefix\<close>








subsection \<open>Blocks completed after construction\<close>

text \<open>
  Once a request has a hash, the hasher starts at the last multi-modal item, so the items
  before it do not enter the hashes it computes.
\<close>

abbreviation with_items :: "request \<Rightarrow> mm_feature list \<Rightarrow> request" where
  "with_items r fs \<equiv> r\<lparr>mm_features := fs\<rparr>"

lemma gen_mm_loop_last_idx:
  "gen_mm_loop (drop (nat i) (fs @ [f])) s e i = (ks, j) \<Longrightarrow> i \<ge> int (length fs) \<Longrightarrow> j \<ge> int (length fs)"
  by (cases "nat i - length fs") (auto simp: Let_def split: if_splits)

lemma gen_mm_only_last:
  assumes "length fs = length gs" "idx = -1 \<or> idx \<ge> int (length fs)"
  shows "gen_mm_extra_hash_keys (with_items r (fs @ [f])) s e idx
      = gen_mm_extra_hash_keys (with_items r (gs @ [f])) s e idx"
    and "\<exists>ks j. gen_mm_extra_hash_keys (with_items r (fs @ [f])) s e idx = Inr (ks, j)
      \<and> (j = -1 \<or> j \<ge> int (length fs))"
proof -
  have d: "drop (nat i) (fs @ [f]) = drop (nat i) (gs @ [f])" if "i \<ge> int (length fs)" for i
    using that assms(1) by (simp add: nat_le_iff)
  show "gen_mm_extra_hash_keys (with_items r (fs @ [f])) s e idx
      = gen_mm_extra_hash_keys (with_items r (gs @ [f])) s e idx"
    using assms d [of idx] d [of "int (length fs)"] by (auto simp: gen_mm_extra_hash_keys_def Let_def)
  define i where "i = (if idx < 0 then int (length fs) else idx)"
  obtain ks j where l: "gen_mm_loop (drop (nat i) (fs @ [f])) s e i = (ks, j)" by force
  have "i \<ge> int (length fs)" using assms(2) by (auto simp: i_def)
  note j = gen_mm_loop_last_idx [OF l this]
  show "\<exists>ks j. gen_mm_extra_hash_keys (with_items r (fs @ [f])) s e idx = Inr (ks, j)
      \<and> (j = -1 \<or> j \<ge> int (length fs))"
    using assms(2) l j by (auto simp: gen_mm_extra_hash_keys_def Let_def i_def split: if_splits)
qed

lemma extra_keys_only_last:
  assumes "length fs = length gs" "idx = -1 \<or> idx \<ge> int (length fs)"
  shows "\<exists>ks j m. generate_block_hash_extra_keys dig (with_items r (fs @ [f])) s e idx
        = Inr (ks, j, with_items (with_memo r m) (fs @ [f]))
      \<and> generate_block_hash_extra_keys dig (with_items r (gs @ [f])) s e idx
        = Inr (ks, j, with_items (with_memo r m) (gs @ [f]))
      \<and> (j = -1 \<or> j \<ge> int (length fs))"
proof -
  obtain ks j where g: "gen_mm_extra_hash_keys (with_items r (fs @ [f])) s e idx = Inr (ks, j)"
      "gen_mm_extra_hash_keys (with_items r (gs @ [f])) s e idx = Inr (ks, j)"
      and j: "j = -1 \<or> j \<ge> int (length fs)"
    using gen_mm_only_last [OF assms] by metis
  have "\<exists>ek m. \<forall>hs. gen_prompt_embeds_extra_hash_keys dig (with_items r hs) s e
      = (ek, with_items (with_memo r m) hs)"
  proof (cases "prompt_embeds r")
    case None
    then show ?thesis
      by (intro exI [of _ "[]"] exI [of _ "prompt_embeds_per_block_hashes r"])
        (simp add: gen_prompt_embeds_extra_hash_keys_def)
  next
    case (Some em)
    show ?thesis
    proof (cases "prompt_embeds_per_block_hashes r (s, e)")
      case None
      with Some show ?thesis
        by (intro exI [of _ "[KeyBytes (dig (py_slice s e em))]"]
              exI [of _ "(prompt_embeds_per_block_hashes r)((s, e) \<mapsto> dig (py_slice s e em))"])
          (simp add: gen_prompt_embeds_extra_hash_keys_def Let_def)
    next
      case (Some h)
      with \<open>prompt_embeds r = Some em\<close> show ?thesis
        by (intro exI [of _ "[KeyBytes h]"] exI [of _ "prompt_embeds_per_block_hashes r"])
          (simp add: gen_prompt_embeds_extra_hash_keys_def)
    qed
  qed
  with g j show ?thesis
    by (auto simp: generate_block_hash_extra_keys_def gen_lora_extra_hash_keys_def cache_salt_keys_def Let_def)
qed

lemma hash_loop_only_last:
  assumes "length fs = length gs" "bs > 0" "idx = -1 \<or> idx \<ge> int (length fs)"
  shows "map_option (map_sum id fst) (hash_loop hf dig nh bs n (with_items r (fs @ [f])) s idx prev acc)
    = map_option (map_sum id fst) (hash_loop hf dig nh bs n (with_items r (gs @ [f])) s idx prev acc)"
  using assms(3)
proof (induction "nat (n - s)" arbitrary: s r idx prev acc rule: less_induct)
  case less
  show ?case
  proof (cases "s + bs > n")
    case True
    then show ?thesis by (simp add: hash_loop.simps Let_def)
  next
    case False
    obtain ks j m where
      g: "generate_block_hash_extra_keys dig (with_items r (fs @ [f])) s (s + bs) idx
          = Inr (ks, j, with_items (with_memo r m) (fs @ [f]))"
        "generate_block_hash_extra_keys dig (with_items r (gs @ [f])) s (s + bs) idx
          = Inr (ks, j, with_items (with_memo r m) (gs @ [f]))"
      and j: "j = -1 \<or> j \<ge> int (length fs)"
      using extra_keys_only_last [OF assms(1) less.prems] by blast
    let ?h = "hash_block_tokens hf nh prev (py_slice s (s + bs) (all_token_ids r)) ks"
    have step: "hash_loop hf dig nh bs n (with_items r (hs @ [f])) s idx prev acc
        = hash_loop hf dig nh bs n (with_items (with_memo r m) (hs @ [f])) (s + bs) j (Some ?h) (acc @ [?h])"
      if "generate_block_hash_extra_keys dig (with_items r (hs @ [f])) s (s + bs) idx
          = Inr (ks, j, with_items (with_memo r m) (hs @ [f]))" for hs
      using that False by (subst hash_loop.simps) (simp add: Let_def)
    have "nat (n - (s + bs)) < nat (n - s)" using False assms(2) by simp
    from less.hyps [OF this j, of "with_memo r m" "Some ?h" "acc @ [?h]"] show ?thesis
      unfolding step [OF g(1)] step [OF g(2)] .
  qed
qed

subsection \<open>The coarse view\<close>

lemma last_ref_chain_nth:
  assumes "0 < j" "j \<le> k"
  shows "last (ref_chain hf dig nh bs r j) = ref_chain hf dig nh bs r k ! (j - 1)"
proof -
  have "ref_chain hf dig nh bs r j \<noteq> []" using assms(1) length_ref_chain [of hf dig nh bs r j] by force
  with assms show ?thesis by (simp add: last_conv_nth flip: ref_chain_take [OF assms(2)])
qed

lemma with_block_size_get:
  assumes "c > 0" "0 \<le> i" "i < int (length hs) div int c"
  shows "bhl_get (WithBlockSize hs (int c)) i = Inr (hs ! ((nat i + 1) * c - 1))"
proof -
  have "(i + 1) * int c \<le> int (length hs)"
    using assms le_div_iff_mult_le_int [of "int c" "i + 1" "int (length hs)"] by simp
  moreover have "1 * 1 \<le> (i + 1) * int c" using assms by (intro mult_mono) auto
  moreover have "nat ((i + 1) * int c - 1) = (nat i + 1) * c - 1"
  proof -
    have "nat ((i + 1) * int c) = nat (i + 1) * c" using assms by (simp add: nat_mult_distrib)
    moreover have "nat (i + 1) = nat i + 1" using assms by simp
    ultimately show ?thesis by (simp add: nat_diff_distrib')
  qed
  ultimately show ?thesis by (simp add: bhl_get_def py_index_nth)
qed

lemma resolve_raw:
  assumes "bs > 0" "c > 0"
  shows "\<exists>l. resolve_block_hashes (RawHashes hs) bs (int c * bs) False None = Inr l
    \<and> bhl_len l = Inr (int (length hs div c))
    \<and> (\<forall>i < length hs div c. bhl_get l (int i) = Inr (hs ! ((i + 1) * c - 1)))
    \<and> (\<forall>j. 0 \<le> j \<longrightarrow> j \<le> int (length hs div c) \<longrightarrow>
         bhl_from l j = Inr (map (\<lambda>i. hs ! ((i + 1) * c - 1)) [nat j..<length hs div c]))"
proof -
  define l where "l = (if c = 1 then RawHashes hs else WithBlockSize hs (int c))"
  have res: "resolve_block_hashes (RawHashes hs) bs (int c * bs) False None = Inr l"
    using assms by (auto simp: resolve_block_hashes_def block_hash_list_with_block_size_def l_def Let_def)
  have len: "bhl_len l = Inr (int (length hs div c))"
    using assms(2) by (simp add: bhl_len_def l_def Let_def flip: zdiv_int)
  have get: "bhl_get l (int i) = Inr (hs ! ((i + 1) * c - 1))" if "i < length hs div c" for i
  proof (cases "c = 1")
    case True
    with that show ?thesis by (simp add: l_def bhl_get_def py_index_nat)
  next
    case False
    with that with_block_size_get [OF assms(2), of "int i" hs] show ?thesis
      by (simp add: l_def flip: zdiv_int)
  qed
  have frm: "bhl_from l j = Inr (map (\<lambda>i. hs ! ((i + 1) * c - 1)) [nat j..<length hs div c])"
    if j: "0 \<le> j" "j \<le> int (length hs div c)" for j
  proof (cases "c = 1")
    case True
    have "map (\<lambda>i. hs ! ((i + 1) * c - 1)) [nat j..<length hs div c] = map ((!) hs) [nat j..<length hs]"
      using True by simp
    also have "\<dots> = drop (nat j) hs" by (rule nth_equalityI) simp_all
    finally show ?thesis using True j(1)
      by (simp add: l_def bhl_from_def py_slice_nonneg Prelude.slice_def)
  next
    case False
    have "py_bound (int (length hs div c)) j = nat j" using j by (simp add: py_bound_def)
    with j(1) have rng: "[int (py_bound (int (length hs div c)) j)..int (length hs div c) - 1]
        = map int [nat j..<length hs div c]"
      using upto_int [of "nat j" "length hs div c"] by simp
    have "mapE (bhl_get l) (map int [nat j..<length hs div c])
        = Inr (map (\<lambda>x. hs ! ((nat x + 1) * c - 1)) (map int [nat j..<length hs div c]))"
      by (rule mapE_Inr) (auto simp: get)
    with False len rng show ?thesis by (simp add: l_def bhl_from_def comp_def)
  qed
  show ?thesis using res len get frm by blast
qed

subsection \<open>Properties\<close>






text \<open>
  C29. Blocks that are completed after a request has its first hash are keyed by the last
  multi-modal item only: replacing all earlier items by others leaves every hash the hasher
  then computes unchanged, also when such an item lies inside the block.
\<close>

theorem later_blocks_keyed_by_last_item_only:
  assumes "bs > 0" "block_hashes r \<noteq> []" "length fs = length gs"
  shows "map_option (map_sum id fst) (request_block_hasher hf dig nh bs (r\<lparr>mm_features := fs @ [f]\<rparr>))
    = map_option (map_sum id fst) (request_block_hasher hf dig nh bs (r\<lparr>mm_features := gs @ [f]\<rparr>))"
proof -
  have "int (length (block_hashes r)) * bs > 0" using assms by simp
  with hash_loop_only_last [OF assms(3,1), of "-1"] show ?thesis
    by (simp add: request_block_hasher_def num_tokens_def Let_def)
qed

text \<open>
  The instance: two blocks of two tokens, the first hashed; the second block holds one item
  that differs between the requests and one that does not. The keys of the block differ, the
  computed hashes do not.
\<close>

theorem later_blocks_keyed_by_last_item_only_witness:
  "let item = (\<lambda>i off. \<lparr>mm_identifier = i, mm_position = \<lparr>ph_offset = off, ph_length = 1, is_embed = None\<rparr>\<rparr>);
       r = (init_fields 0 1 sample_args 16 WAITING None 3)\<lparr>all_token_ids := [11, 12, 13, 13], block_hashes := [[7]]\<rparr>;
       hf = (\<lambda>(p, t, k). p @ concat (map (case_extra_key (\<lambda>s _. map (word_of_nat \<circ> of_char) s) (\<lambda>_. []) (\<lambda>b. b)) (the k)))
   in mm_keys [item ''A'' 2, item ''C'' 3] 2 4 \<noteq> mm_keys [item ''B'' 2, item ''C'' 3] 2 4
      \<and> map_option (map_sum id fst) (request_block_hasher hf (\<lambda>_. []) [0] 2 (r\<lparr>mm_features := [item ''A'' 2, item ''C'' 3]\<rparr>))
        = map_option (map_sum id fst) (request_block_hasher hf (\<lambda>_. []) [0] 2 (r\<lparr>mm_features := [item ''B'' 2, item ''C'' 3]\<rparr>))"
proof -
  let ?item = "\<lambda>i off. \<lparr>mm_identifier = i, mm_position = \<lparr>ph_offset = off, ph_length = 1, is_embed = None\<rparr>\<rparr>"
  let ?r = "(init_fields 0 1 sample_args 16 WAITING None 3)\<lparr>all_token_ids := [11, 12, 13, 13], block_hashes := [[7]]\<rparr>"
  have "block_hashes ?r \<noteq> []" by simp
  note th = later_blocks_keyed_by_last_item_only [OF _ this, of 2 "[?item ''A'' 2]" "[?item ''B'' 2]"
      _ _ _ "?item ''C'' 3"]
  show ?thesis unfolding Let_def
    by (intro conjI th [simplified]) (simp_all add: mm_keys_def mm_off_def mm_end_def)
qed

text \<open>
  C28. The view of the hashes at a block size that is a multiple \<open>c\<close> of the hash block size:
  it has one entry per full coarse block, entry \<open>i\<close> is the chain hash of the first
  \<open>(i + 1) * c\<close> hash blocks, and a slice of it is the list of those entries.
\<close>

theorem coarse_view_is_prefix_chain:
  assumes "bs > 0" "c > 0" "0 \<le> j" "j \<le> int (k div c)"
  shows "\<exists>l. resolve_block_hashes (RawHashes (ref_chain hf dig nh bs r k)) bs (int c * bs) False None = Inr l
    \<and> bhl_len l = Inr (int (k div c))
    \<and> (\<forall>i < k div c. bhl_get l (int i) = Inr (last (ref_chain hf dig nh bs r ((i + 1) * c))))
    \<and> bhl_from l j = Inr (map (\<lambda>i. last (ref_chain hf dig nh bs r ((i + 1) * c))) [nat j..<k div c])"
proof -
  let ?ch = "ref_chain hf dig nh bs r"
  have lst: "last (?ch ((i + 1) * c)) = ?ch k ! ((i + 1) * c - 1)" if "i < k div c" for i
  proof -
    have "(i + 1) * c \<le> k" using that assms(2) by (simp add: less_eq_div_iff_mult_less_eq flip: Suc_le_eq)
    with assms(2) show ?thesis by (intro last_ref_chain_nth) simp_all
  qed
  have "map (\<lambda>i. last (?ch ((i + 1) * c))) [nat j..<k div c] = map (\<lambda>i. ?ch k ! ((i + 1) * c - 1)) [nat j..<k div c]"
    by (intro map_cong refl lst) simp
  with resolve_raw [OF assms(1,2), of "?ch k"] assms(3,4) lst show ?thesis by fastforce
qed

theorem coarse_view_is_prefix_chain_witness:
  "\<exists>l. resolve_block_hashes (RawHashes (ref_chain (\<lambda>_. [1]) (\<lambda>_. []) [0] 16
        (init_fields 0 1 sample_args 16 WAITING None 3) 5)) 16 (int 2 * 16) False None = Inr l
    \<and> bhl_len l = Inr 2"
  using coarse_view_is_prefix_chain [of 16 2 0 5 "\<lambda>_. [1]" "\<lambda>_. []" "[0]"
      "init_fields 0 1 sample_args 16 WAITING None 3"] by auto

end
