(* ===== verification/Block_Pool.thy ===== *)
theory Block_Pool
  imports Block_Map Block_Hash
begin

text \<open>
  \<open>BlockPool\<close> of \<open>vllm/v1/core/block_pool.py\<close>: allocation, reference counts, the free queue
  in eviction order, and the prefix-cache index with its events.

  The pool's record holds the free queue (and with it the store of all blocks), the index,
  the secondary keys of each block, the event queue, the reuse watchers and two logs: the calls
  made to the metrics collector (when there is one) and the watchers that have fired. A Python
  set of keys is the list of its members in iteration order. The environment flag that selects
  integer external hashes is a field.
\<close>

subsection \<open>State\<close>

record block_stored =
  bs_block_hashes :: "external_block_hash list option"
  bs_parent_block_hash :: "external_block_hash option"
  bs_token_ids :: "int list"
  bs_block_size :: int
  bs_lora_id :: "int option"
  bs_medium :: string
  bs_lora_name :: "string option"
  bs_extra_keys :: "extra_key list option list option"
  bs_group_idx :: int
  bs_session_id :: "string option"

datatype kv_event =
    BlockStored block_stored
  | BlockRemoved "external_block_hash list" string int
  | AllBlocksCleared

datatype metrics_call =
    OnAllocated block_ref
  | OnAccessed block_ref
  | OnEvicted block_ref
  | OnReset

record block_pool =
  num_gpu_blocks :: int
  pool_medium :: string
  enable_caching :: bool
  hash_block_size :: int
  free_block_queue :: free_queue
  cached_block_hash_to_block :: block_map
  cached_block_hashes_by_block :: "int \<rightharpoonup> hash_key list"
  enable_kv_cache_events :: bool
  use_int_block_hashes :: bool
  kv_event_queue :: "kv_event list"
  metrics_collector :: "metrics_call list option"
  reuse_watchers :: "(int \<times> nat) list"
  reuse_fired :: "(nat \<times> block_ref) list"

abbreviation heap :: "block_pool \<Rightarrow> store" where
  "heap p \<equiv> store (free_block_queue p)"

definition set_heap :: "store \<Rightarrow> block_pool \<Rightarrow> block_pool" where
  "set_heap h p = p\<lparr>free_block_queue := (free_block_queue p)\<lparr>store := h\<rparr>\<rparr>"

definition pool_blocks :: "block_pool \<Rightarrow> block_ref list" where
  "pool_blocks p = map Blk [0..<nat (num_gpu_blocks p)]"

definition call_metrics :: "metrics_call \<Rightarrow> block_pool \<Rightarrow> block_pool" where
  "call_metrics c p =
     (case metrics_collector p of
        None \<Rightarrow> p
      | Some cs \<Rightarrow> p\<lparr>metrics_collector := Some (cs @ [c])\<rparr>)"

definition push_event :: "kv_event \<Rightarrow> block_pool \<Rightarrow> block_pool" where
  "push_event ev p = p\<lparr>kv_event_queue := kv_event_queue p @ [ev]\<rparr>"

definition convert_hash :: "block_pool \<Rightarrow> block_hash \<Rightarrow> external_block_hash" where
  "convert_hash p h = maybe_convert_block_hash (use_int_block_hashes p) h"

definition add_ref :: "int \<Rightarrow> block_ref \<Rightarrow> block_pool \<Rightarrow> block_pool" where
  "add_ref d b p = set_heap ((heap p)(b := (heap p b)\<lparr>ref_cnt := ref_cnt (heap p b) + d\<rparr>)) p"

definition null_block :: block_ref where
  "null_block = Blk 0"

definition init_pool ::
  "int \<Rightarrow> bool \<Rightarrow> int \<Rightarrow> bool \<Rightarrow> bool \<Rightarrow> string \<Rightarrow> bool \<Rightarrow> block_pool result" where
  "init_pool n caching hbs with_events with_metrics md use_int =
     bindE (assertE (n > 0)) (\<lambda>_.
       bindE (popleft (init_queue (map Blk [0..<nat n]) (\<lambda>_. new_block))) (\<lambda>(b, q).
         Inr \<lparr>num_gpu_blocks = n, pool_medium = md, enable_caching = caching, hash_block_size = hbs,
              free_block_queue = q\<lparr>store := (store q)(b := (store q b)\<lparr>is_null := True\<rparr>)\<rparr>,
              cached_block_hash_to_block = empty_map, cached_block_hashes_by_block = Map.empty,
              enable_kv_cache_events = with_events, use_int_block_hashes = use_int, kv_event_queue = [],
              metrics_collector = (if with_metrics then Some [] else None),
              reuse_watchers = [], reuse_fired = []\<rparr>))"

subsection \<open>Lookup\<close>

fun get_cached_block :: "block_hash \<Rightarrow> int list \<Rightarrow> block_pool \<Rightarrow> block_ref list option result" where
  "get_cached_block h [] p = Inr (Some [])"
| "get_cached_block h (g # gs) p =
     bindE (make_block_hash_with_group_id h g) (\<lambda>key.
       bindE (get_one_block key (cached_block_hash_to_block p)) (\<lambda>b.
         case b of
           None \<Rightarrow> Inr None
         | Some blk \<Rightarrow>
             bindE (get_cached_block h gs p) (\<lambda>rest. Inr (map_option (\<lambda>bs. blk # bs) rest))))"

subsection \<open>The keys of a block\<close>

definition remove_key :: "block_ref \<Rightarrow> hash_key \<Rightarrow> hash_key list \<times> block_map \<Rightarrow> hash_key list \<times> block_map" where
  "remove_key b key st =
     (let (removed, m) = st; (r, m') = pop_block key (block_id b) m
      in (if r \<noteq> None then removed @ [key] else removed, m'))"

definition remove_cached_block_hashes :: "block_ref \<Rightarrow> block_pool \<Rightarrow> hash_key list \<times> block_pool" where
  "remove_cached_block_hashes b p =
     (let primary = (case block_hash (heap p b) of None \<Rightarrow> [] | Some k \<Rightarrow> [k]);
          extra = (case cached_block_hashes_by_block p (block_id b) of None \<Rightarrow> [] | Some ks \<Rightarrow> ks);
          p1 = p\<lparr>cached_block_hashes_by_block := (cached_block_hashes_by_block p)(block_id b := None)\<rparr>
      in if primary @ extra = [] then ([], p1)
         else
           (let (removed, m) = fold (remove_key b) (primary @ extra) ([], cached_block_hash_to_block p1)
            in (removed, set_heap (reset_hash b (heap p1)) (p1\<lparr>cached_block_hash_to_block := m\<rparr>))))"

definition emit_block_removed_events :: "hash_key list \<Rightarrow> block_pool \<Rightarrow> block_pool" where
  "emit_block_removed_events keys p =
     (if \<not> enable_kv_cache_events p then p
      else fold (\<lambda>k. push_event (BlockRemoved [convert_hash p (get_block_hash k)] (pool_medium p) (get_group_id k)))
             keys p)"

definition set_add :: "'a \<Rightarrow> 'a list \<Rightarrow> 'a list" where
  "set_add x xs = (if x \<in> set xs then xs else xs @ [x])"

definition insert_block_hash :: "hash_key \<Rightarrow> block_ref \<Rightarrow> int option \<Rightarrow> block_pool \<Rightarrow> block_pool result" where
  "insert_block_hash key b num_toks p =
     (if block_hash (heap p b) = Some key then Inr p
      else if contain key (block_id b) (cached_block_hash_to_block p) then Inr p
      else
        bindE
          (if block_hash (heap p b) = None
           then bindE (set_block_hash b key num_toks (heap p)) (\<lambda>h. Inr (set_heap h p))
           else Inr (p\<lparr>cached_block_hashes_by_block :=
                  (cached_block_hashes_by_block p)(block_id b \<mapsto>
                     set_add key (case cached_block_hashes_by_block p (block_id b) of None \<Rightarrow> [] | Some ks \<Rightarrow> ks))\<rparr>))
          (\<lambda>p'. Inr (p'\<lparr>cached_block_hash_to_block :=
                   insert_block key b (cached_block_hash_to_block p')\<rparr>)))"

definition move_block_hashes :: "block_ref \<Rightarrow> block_ref \<Rightarrow> block_pool \<Rightarrow> block_pool result" where
  "move_block_hashes src dst p =
     bindE (assertE (block_hash (heap p dst) = None)) (\<lambda>_.
       bindE (assertE (cached_block_hashes_by_block p (block_id dst) = None)) (\<lambda>_.
         (let num_toks = block_hash_num_tokens (heap p src);
              (removed, p1) = remove_cached_block_hashes src p
          in foldE (\<lambda>k. insert_block_hash k dst num_toks) removed p1)))"

subsection \<open>Caching blocks\<close>

definition build_block_stored_event ::
  "block_pool \<Rightarrow> request \<Rightarrow> external_block_hash list option \<Rightarrow> external_block_hash option \<Rightarrow> int \<Rightarrow> int
     \<Rightarrow> int \<Rightarrow> int \<Rightarrow> extra_key list option list \<Rightarrow> kv_event" where
  "build_block_stored_event p r hashes parent s e bsz gid keys =
     BlockStored \<lparr>bs_block_hashes = hashes, bs_parent_block_hash = parent,
       bs_token_ids = py_slice s e (all_token_ids r), bs_block_size = bsz,
       bs_lora_id = map_option lora_int_id (lora_request r), bs_medium = pool_medium p,
       bs_lora_name = map_option lora_name (lora_request r),
       bs_extra_keys = (if keys = [] then None else Some keys),
       bs_group_idx = gid, bs_session_id = session_id r\<rparr>"

text \<open>Whether a block is skipped: it is the null block or masked out.\<close>

definition skip_block :: "bool list option \<Rightarrow> int \<Rightarrow> block_ref \<Rightarrow> block_pool \<Rightarrow> bool result" where
  "skip_block block_mask i blk p =
     (if is_null (heap p blk) then Inr True
      else (case block_mask of None \<Rightarrow> Inr False | Some bm \<Rightarrow> bindE (py_index bm i) (\<lambda>v. Inr (\<not> v))))"

text \<open>The body of the loop over the new full blocks, at index \<open>i\<close>.\<close>

definition cache_full_block ::
  "block_hash list \<Rightarrow> int \<Rightarrow> int \<Rightarrow> int \<Rightarrow> bool list option \<Rightarrow> nat \<times> block_ref
     \<Rightarrow> block_pool \<times> external_block_hash list option \<Rightarrow> (block_pool \<times> external_block_hash list option) result" where
  "cache_full_block new_block_hashes num_cached block_size gid block_mask ib st =
     (let (i, blk) = ib; (p, new_hashes) = st in
      bindE (skip_block block_mask (int i) blk p) (\<lambda>skip.
      if skip then Inr st
      else
        bindE (py_index new_block_hashes (int i)) (\<lambda>h.
          (let num_hash_tokens = (num_cached + int i + 1) * block_size in
           bindE (make_block_hash_with_group_id h gid) (\<lambda>key.
             bindE
               (if block_hash (heap p blk) \<noteq> None then
                  bindE (assertE (case block_hash_num_tokens (heap p blk) of
                           None \<Rightarrow> False | Some t \<Rightarrow> t < num_hash_tokens)) (\<lambda>_.
                    (let (removed, p1) = remove_cached_block_hashes blk p
                     in Inr (emit_block_removed_events removed p1)))
                else Inr p)
               (\<lambda>p1. bindE (insert_block_hash key blk (Some num_hash_tokens) p1) (\<lambda>p2.
                  Inr (p2, map_option (\<lambda>hs. hs @ [convert_hash p2 h]) new_hashes))))))))"

text \<open>The extra keys of the blocks of an event, with the running item index.\<close>

definition extra_keys_step ::
  "embeds_digest \<Rightarrow> int \<Rightarrow> int \<Rightarrow> extra_key list option list \<times> int \<times> request
     \<Rightarrow> (extra_key list option list \<times> int \<times> request) result" where
  "extra_keys_step dig block_size i st =
     (let (acc, mm_idx, r) = st in
      bindE (generate_block_hash_extra_keys dig r (i * block_size) (i * block_size + block_size) mm_idx)
        (\<lambda>(keys, mm_idx', r'). Inr (acc @ [keys], mm_idx', r')))"

definition cache_full_blocks ::
  "embeds_digest \<Rightarrow> request \<Rightarrow> block_ref list \<Rightarrow> int \<Rightarrow> int \<Rightarrow> int \<Rightarrow> int \<Rightarrow> bool list option \<Rightarrow> block_pool
     \<Rightarrow> (request \<times> block_pool) result" where
  "cache_full_blocks dig r blocks num_cached num_full block_size gid block_mask p =
     (if num_cached \<ge> num_full then Inr (r, p)
      else
        (let new_full_blocks = py_slice num_cached num_full blocks in
         bindE (assertE (case block_mask of None \<Rightarrow> True | Some bm \<Rightarrow> length bm = length new_full_blocks)) (\<lambda>_.
         bindE (resolve_block_hashes (RawHashes (block_hashes r)) (hash_block_size p) block_size False None) (\<lambda>bhl.
         bindE (bhl_from bhl num_cached) (\<lambda>new_block_hashes.
         bindE (foldE (cache_full_block new_block_hashes num_cached block_size gid block_mask)
                  (enumerate 0 new_full_blocks)
                  (p, if enable_kv_cache_events p then Some [] else None)) (\<lambda>(p1, new_hashes).
         if \<not> enable_kv_cache_events p1 then Inr (r, p1)
         else
           bindE (if num_cached = 0 then Inr None
                  else bindE (bhl_get bhl (num_cached - 1)) (\<lambda>h. Inr (Some (convert_hash p1 h)))) (\<lambda>parent.
           bindE (foldE (\<lambda>i st.
                    bindE (py_index blocks i) (\<lambda>blk.
                      bindE (skip_block block_mask (i - num_cached) blk p1) (\<lambda>skip.
                        if skip then Inr st else extra_keys_step dig block_size i st)))
                    [num_cached..num_full - 1] ([], 0, r)) (\<lambda>(keys, _, r').
           Inr (r', push_event (build_block_stored_event p1 r' new_hashes parent (num_cached * block_size)
                      (num_full * block_size) block_size gid keys) p1)))))))))"

definition emit_cached_block_events ::
  "embeds_digest \<Rightarrow> request \<Rightarrow> int \<Rightarrow> int \<Rightarrow> int \<Rightarrow> block_pool \<Rightarrow> (request \<times> block_pool) result" where
  "emit_cached_block_events dig r num_cached block_size gid p =
     (if \<not> enable_kv_cache_events p \<or> num_cached = 0 then Inr (r, p)
      else
        bindE (resolve_block_hashes (RawHashes (block_hashes r)) (hash_block_size p) block_size False None) (\<lambda>bhl.
        bindE (foldE (\<lambda>i (hs, st).
                 bindE (bhl_get bhl i) (\<lambda>h.
                   bindE (extra_keys_step dig block_size i st) (\<lambda>st'. Inr (hs @ [convert_hash p h], st'))))
                 [0..num_cached - 1] ([], ([], 0, r))) (\<lambda>(hs, keys, _, r').
        if hs = [] then Inr (r', p)
        else Inr (r', push_event (build_block_stored_event p r' (Some hs) None 0 (num_cached * block_size)
                        block_size gid keys) p))))"


definition get_partial_block_hash :: "request \<Rightarrow> int \<Rightarrow> block_pool \<Rightarrow> block_hash result" where
  "get_partial_block_hash r num_toks p =
     (if hash_block_size p = 0 then Inl ZeroDivisionError
      else
        bindE (assertE (num_toks mod hash_block_size p = 0)) (\<lambda>_.
          (let num_hash_blocks = num_toks div hash_block_size p in
           bindE (assertE (0 < num_hash_blocks \<and> num_hash_blocks \<le> int (length (block_hashes r)))) (\<lambda>_.
             py_index (block_hashes r) (num_hash_blocks - 1)))))"

definition get_partial_block_parent_hash_and_start ::
  "request \<Rightarrow> int \<Rightarrow> block_pool \<Rightarrow> (block_hash option \<times> int) result" where
  "get_partial_block_parent_hash_and_start r num_toks p =
     (if hash_block_size p = 0 then Inl ZeroDivisionError
      else
        (let num_hash_blocks = num_toks div hash_block_size p in
         bindE (if num_hash_blocks > 1
                then bindE (py_index (block_hashes r) (num_hash_blocks - 2)) (\<lambda>h. Inr (Some h))
                else Inr None) (\<lambda>parent.
           Inr (parent, (num_hash_blocks - 1) * hash_block_size p))))"

definition cache_partial_block ::
  "embeds_digest \<Rightarrow> request \<Rightarrow> block_ref \<Rightarrow> int \<Rightarrow> int \<Rightarrow> int \<Rightarrow> bool \<Rightarrow> block_pool
     \<Rightarrow> (hash_key option \<times> request \<times> block_pool) result" where
  "cache_partial_block dig r b num_toks gid block_size replace_existing p =
     (if is_null (heap p b) then Inr (None, r, p)
      else if hash_block_size p = 0 then Inl ZeroDivisionError
      else
        bindE (assertE (block_size mod hash_block_size p = 0)) (\<lambda>_.
        bindE (if replace_existing then Inr ()
               else if block_size > hash_block_size p then
                 (if block_size = 0 then Inl ZeroDivisionError else assertE (num_toks mod block_size \<noteq> 0))
               else Inl AssertionError) (\<lambda>_.
        bindE (get_partial_block_hash r num_toks p) (\<lambda>h.
        (let num_hash_toks = num_toks div hash_block_size p * hash_block_size p in
         bindE (make_block_hash_with_group_id h gid) (\<lambda>key.
         (let already = (block_hash (heap p b) = Some key
                         \<or> contain key (block_id b) (cached_block_hash_to_block p));
              stale = (\<not> already \<and> block_hash (heap p b) \<noteq> None
                       \<and> (case block_hash_num_tokens (heap p b) of None \<Rightarrow> False | Some t \<Rightarrow> t < num_hash_toks));
              p1 = (if replace_existing \<or> stale
                    then (let (removed, q) = remove_cached_block_hashes b p in emit_block_removed_events removed q)
                    else p);
              already_cached = (already \<and> \<not> replace_existing)
          in bindE (insert_block_hash key b (Some num_hash_toks) p1) (\<lambda>p2.
             if enable_kv_cache_events p2 \<and> \<not> already_cached then
               bindE (get_partial_block_parent_hash_and_start r num_toks p2) (\<lambda>(parent, s).
               bindE (generate_block_hash_extra_keys dig r s num_toks (if s > 0 then -1 else 0)) (\<lambda>(keys, _, r').
                 Inr (Some key, r',
                   push_event (BlockStored
                     \<lparr>bs_block_hashes = Some [convert_hash p2 h],
                      bs_parent_block_hash = map_option (convert_hash p2) parent,
                      bs_token_ids = py_slice s num_toks (all_token_ids r'), bs_block_size = num_toks - s,
                      bs_lora_id = map_option lora_int_id (lora_request r'), bs_medium = pool_medium p2,
                      bs_lora_name = map_option lora_name (lora_request r'), bs_extra_keys = Some [keys],
                      bs_group_idx = gid, bs_session_id = session_id r'\<rparr>) p2)))
             else Inr (Some key, r, p2)))))))))"

subsection \<open>Allocation and release\<close>

definition get_num_free_blocks :: "block_pool \<Rightarrow> int" where
  "get_num_free_blocks p = num_free_blocks (free_block_queue p)"

text \<open>Firing a watcher is recorded in the log.\<close>

definition notify_block :: "block_ref \<Rightarrow> block_pool \<Rightarrow> block_pool" where
  "notify_block b p =
     (case map_of (reuse_watchers p) (block_id b) of
        None \<Rightarrow> p
      | Some w \<Rightarrow> p\<lparr>reuse_watchers := AList.delete (block_id b) (reuse_watchers p),
                    reuse_fired := reuse_fired p @ [(w, b)]\<rparr>)"

definition notify_reuse :: "block_ref list \<Rightarrow> block_pool \<Rightarrow> block_pool" where
  "notify_reuse bs p = fold notify_block bs p"

definition maybe_evict_cached_block :: "block_ref \<Rightarrow> block_pool \<Rightarrow> bool \<times> block_pool" where
  "maybe_evict_cached_block b p =
     (let (evicted, p1) = remove_cached_block_hashes b (call_metrics (OnEvicted b) p)
      in if evicted = [] then (False, p1) else (True, emit_block_removed_events evicted p1))"

definition claim_block :: "block_ref \<Rightarrow> block_pool \<Rightarrow> block_pool result" where
  "claim_block b p =
     bindE (assertE (ref_cnt (heap p b) = 0)) (\<lambda>_. Inr (call_metrics (OnAllocated b) (add_ref 1 b p)))"

definition get_new_blocks :: "int \<Rightarrow> block_pool \<Rightarrow> (block_ref list \<times> block_pool) result" where
  "get_new_blocks n p =
     (if n > get_num_free_blocks p then Inl ValueError
      else
        bindE (popleft_n n (free_block_queue p)) (\<lambda>(ret, q).
          (let p1 = p\<lparr>free_block_queue := q\<rparr>;
               p2 = (if reuse_watchers p1 \<noteq> [] then notify_reuse ret p1 else p1)
           in bindE (if enable_caching p2
                     then foldE (\<lambda>b s. claim_block b (snd (maybe_evict_cached_block b s))) ret p2
                     else foldE claim_block ret p2) (\<lambda>p3. Inr (ret, p3)))))"

definition unpin_block :: "nat \<Rightarrow> block_ref \<Rightarrow> block_ref list \<times> block_pool \<Rightarrow> (block_ref list \<times> block_pool) result" where
  "unpin_block w b st =
     (let (released, p) = st in
      bindE (assertE (ref_cnt (heap p b) > 0 \<and> \<not> is_null (heap p b))) (\<lambda>_.
        (let p1 = add_ref (-1) b p;
             p2 = p1\<lparr>reuse_watchers := AList.update (block_id b) w (reuse_watchers p1)\<rparr>
         in Inr (if ref_cnt (heap p2 b) = 0 then released @ [b] else released, p2))))"

definition unpin_blocks :: "block_ref list \<Rightarrow> nat \<Rightarrow> block_pool \<Rightarrow> block_pool result" where
  "unpin_blocks bs w p =
     bindE (foldE (unpin_block w) bs ([], p)) (\<lambda>(released, p1).
       bindE (append_n released (free_block_queue p1)) (\<lambda>q. Inr (p1\<lparr>free_block_queue := q\<rparr>)))"

definition touch_block :: "block_ref \<Rightarrow> block_pool \<Rightarrow> block_pool result" where
  "touch_block b p =
     bindE (if ref_cnt (heap p b) = 0 \<and> \<not> is_null (heap p b)
            then bindE (remove b (free_block_queue p)) (\<lambda>q. Inr (p\<lparr>free_block_queue := q\<rparr>))
            else Inr p)
       (\<lambda>p1. Inr (call_metrics (OnAccessed b) (add_ref 1 b p1)))"

definition touch :: "block_ref list \<Rightarrow> block_pool \<Rightarrow> block_pool result" where
  "touch bs p = foldE touch_block bs p"

definition is_block_writable :: "block_ref \<Rightarrow> block_pool \<Rightarrow> bool" where
  "is_block_writable b p \<longleftrightarrow>
     \<not> is_null (heap p b) \<and> ref_cnt (heap p b) = 1 \<and> block_hash (heap p b) = None"

text \<open>One block of \<open>free_blocks\<close>: the blocks to evict first, those to evict last, the pool.\<close>

definition free_block ::
  "block_ref \<Rightarrow> block_ref list \<times> block_ref list \<times> block_pool \<Rightarrow> block_ref list \<times> block_ref list \<times> block_pool" where
  "free_block b st =
     (let (fs, ls, p) = st; p1 = add_ref (-1) b p in
      if ref_cnt (heap p1 b) = 0 \<and> \<not> is_null (heap p1 b) then
        if block_hash (heap p1 b) = None \<or> \<not> enable_caching p1 then (fs @ [b], ls, p1)
        else (fs, ls @ [b], p1)
      else (fs, ls, p1))"

text \<open>\<open>free_blocks\<close> on blocks of this pool.\<close>

definition free_blocks :: "block_ref list \<Rightarrow> block_pool \<Rightarrow> block_pool result" where
  "free_blocks bs p =
     (let (fs, ls, p1) = fold free_block bs ([], [], p) in
      bindE (prepend_n fs (free_block_queue p1)) (\<lambda>q.
        bindE (append_n ls q) (\<lambda>q'. Inr (p1\<lparr>free_block_queue := q'\<rparr>))))"

text \<open>
  \<open>free_blocks\<close> on blocks tagged with the pool they belong to (\<open>None\<close>: no pool recorded),
  called on pool \<open>self\<close>: its own blocks first, then those of each other pool in the order in
  which the pools occur.
\<close>

definition other_pool_blocks :: "nat \<Rightarrow> (nat option \<times> block_ref) list \<Rightarrow> (nat \<times> block_ref list) list" where
  "other_pool_blocks self bs =
     fold (\<lambda>(o', b) d.
         case o' of
           None \<Rightarrow> d
         | Some q \<Rightarrow> if q = self then d
                     else AList.update q ((case map_of d q of None \<Rightarrow> [] | Some l \<Rightarrow> l) @ [b]) d) bs []"

definition free_blocks_in_pools ::
  "nat \<Rightarrow> (nat option \<times> block_ref) list \<Rightarrow> (nat \<Rightarrow> block_pool) \<Rightarrow> (nat \<Rightarrow> block_pool) result" where
  "free_blocks_in_pools self bs pools =
     bindE (free_blocks (map snd (filter (\<lambda>(o', _). o' = None \<or> o' = Some self) bs)) (pools self)) (\<lambda>p.
       foldE (\<lambda>(q, l) ps. bindE (free_blocks l (ps q)) (\<lambda>p'. Inr (ps(q := p'))))
         (other_pool_blocks self bs) (pools(self := p)))"

definition evict_blocks :: "int list \<Rightarrow> block_pool \<Rightarrow> block_pool result" where
  "evict_blocks ids p =
     foldE (\<lambda>i s.
         bindE (assertE (i < int (length (pool_blocks s)))) (\<lambda>_.
           bindE (py_index (pool_blocks s) i) (\<lambda>b. Inr (snd (maybe_evict_cached_block b s))))) ids p"

definition reset_prefix_cache :: "block_pool \<Rightarrow> (bool \<times> block_pool) result" where
  "reset_prefix_cache p =
     (let num_used = num_gpu_blocks p - get_num_free_blocks p in
      if num_used \<noteq> 1 then Inr (False, p)
      else
        (let p1 = p\<lparr>cached_block_hash_to_block := empty_map, cached_block_hashes_by_block := Map.empty\<rparr> in
         bindE (if reuse_watchers p1 \<noteq> []
                then bindE (mapE (py_index (pool_blocks p1)) (map fst (reuse_watchers p1))) (\<lambda>bs.
                       Inr (notify_reuse bs p1))
                else Inr p1) (\<lambda>p2.
           (let p3 = set_heap (fold reset_hash (pool_blocks p2) (heap p2)) p2;
                p4 = call_metrics OnReset p3
            in Inr (True, if enable_kv_cache_events p4 then push_event AllBlocksCleared p4 else p4)))))"

definition get_usage :: "block_pool \<Rightarrow> rat" where
  "get_usage p =
     (let total = num_gpu_blocks p - 1
      in if total = 0 then 0 else 1 - of_int (get_num_free_blocks p) / of_int total)"

definition take_events :: "block_pool \<Rightarrow> kv_event list \<times> block_pool" where
  "take_events p =
     (if \<not> enable_kv_cache_events p then ([], p) else (kv_event_queue p, p\<lparr>kv_event_queue := []\<rparr>))"

end
