(* ===== verification/Pool_Inv.thy ===== *)
theory Pool_Inv
  imports Block_Pool
begin

text \<open>
  The invariant of the block pool and what each operation does under it.

  \<open>pool_wf p xs\<close>: the free queue spells \<open>xs\<close>; a pool block is queued exactly when nobody
  holds a reference to it; the null block, and only it, is marked and it is never queued; the
  index lists a block under a key exactly when the block records that key. \<open>keys_of p b\<close> is
  the primary key of a block followed by its secondary keys.
\<close>

subsection \<open>The invariant\<close>

definition in_pool :: "block_pool \<Rightarrow> block_ref \<Rightarrow> bool" where
  "in_pool p b \<longleftrightarrow> (\<exists>i. b = Blk i \<and> 0 < i \<and> int i < num_gpu_blocks p)"

definition extra_keys_of :: "block_pool \<Rightarrow> block_ref \<Rightarrow> hash_key list" where
  "extra_keys_of p b = (case cached_block_hashes_by_block p (block_id b) of None \<Rightarrow> [] | Some ks \<Rightarrow> ks)"

definition keys_of :: "block_pool \<Rightarrow> block_ref \<Rightarrow> hash_key list" where
  "keys_of p b = (case block_hash (heap p b) of None \<Rightarrow> [] | Some k \<Rightarrow> [k]) @ extra_keys_of p b"

definition index_wf :: "block_pool \<Rightarrow> bool" where
  "index_wf p \<longleftrightarrow>
     map_wf (cached_block_hash_to_block p)
     \<and> (\<forall>k b. b \<in> set (entries (cached_block_hash_to_block p) k) \<longleftrightarrow> in_pool p b \<and> k \<in> set (keys_of p b))
     \<and> (\<forall>b. distinct (keys_of p b)) \<and> (\<forall>b. \<not> in_pool p b \<longrightarrow> keys_of p b = [])
     \<and> (\<forall>b. block_hash (heap p b) = None \<longrightarrow>
          block_hash_num_tokens (heap p b) = None \<and> cached_block_hashes_by_block p (block_id b) = None)"

text \<open>
  \<open>pending_wf p xs ys\<close>: as long as an operation runs, the blocks \<open>ys\<close> are unreferenced but
  not queued; between operations there are none.
\<close>

definition pending_wf :: "block_pool \<Rightarrow> block_ref list \<Rightarrow> block_ref list \<Rightarrow> bool" where
  "pending_wf p xs ys \<longleftrightarrow>
     num_gpu_blocks p > 0 \<and> queue_of (free_block_queue p) xs \<and> distinct (xs @ ys)
     \<and> (\<forall>b. b \<in> set (xs @ ys) \<longleftrightarrow> in_pool p b \<and> ref_cnt (heap p b) = 0)
     \<and> (\<forall>b. in_pool p b \<longrightarrow> ref_cnt (heap p b) \<ge> 0)
     \<and> (\<forall>b. is_null (heap p b) \<longleftrightarrow> b = null_block)"

definition watch_wf :: "block_pool \<Rightarrow> bool" where
  "watch_wf p \<longleftrightarrow> distinct (map fst (reuse_watchers p))
     \<and> (\<forall>i \<in> fst ` set (reuse_watchers p). \<exists>b. in_pool p b \<and> block_id b = i)"

definition pool_wf :: "block_pool \<Rightarrow> block_ref list \<Rightarrow> bool" where
  "pool_wf p xs \<longleftrightarrow> pending_wf p xs [] \<and> index_wf p \<and> watch_wf p"

lemma in_pool_simps [simp]:
  "\<not> in_pool p null_block" "\<not> in_pool p FakeHead" "\<not> in_pool p FakeTail"
  by (auto simp: in_pool_def null_block_def)

lemma in_pool_cong: "num_gpu_blocks p = num_gpu_blocks q \<Longrightarrow> in_pool p b = in_pool q b"
  by (simp add: in_pool_def)

lemma in_pool_is_pool_block: "in_pool p b \<Longrightarrow> is_pool_block b"
  by (auto simp: in_pool_def)

lemma in_pool_real: "in_pool p b \<Longrightarrow> real_block b"
  by (auto simp: in_pool_def)

lemma in_pool_not_null: "in_pool p b \<Longrightarrow> b \<noteq> null_block"
  by auto

text \<open>The two halves depend on different parts of the state.\<close>

lemma pending_wf_cong:
  assumes "pending_wf p xs ys" "num_gpu_blocks q = num_gpu_blocks p"
    and "\<And>b. next_free_block (heap q b) = next_free_block (heap p b)"
    and "\<And>b. prev_free_block (heap q b) = prev_free_block (heap p b)"
    and "num_free_blocks (free_block_queue q) = num_free_blocks (free_block_queue p)"
    and "\<And>b. ref_cnt (heap q b) = ref_cnt (heap p b)" "\<And>b. is_null (heap q b) = is_null (heap p b)"
  shows "pending_wf q xs ys"
  using assms queue_of_cong [of "free_block_queue q" "free_block_queue p" xs] in_pool_cong [OF assms(2)]
  by (simp add: pending_wf_def)

lemma index_wf_cong:
  assumes "index_wf p" "num_gpu_blocks q = num_gpu_blocks p"
    and "cached_block_hash_to_block q = cached_block_hash_to_block p"
    and "cached_block_hashes_by_block q = cached_block_hashes_by_block p"
    and "\<And>b. block_hash (heap q b) = block_hash (heap p b)"
    and "\<And>b. block_hash_num_tokens (heap q b) = block_hash_num_tokens (heap p b)"
  shows "index_wf q"
proof -
  have "keys_of q b = keys_of p b" for b
    using assms(4,5) by (simp add: keys_of_def extra_keys_of_def)
  with assms in_pool_cong [OF assms(2)] show ?thesis by (simp add: index_wf_def)
qed

lemma payload_eqD:
  assumes "payload h = payload h'"
  shows "ref_cnt (h b) = ref_cnt (h' b)" "block_hash (h b) = block_hash (h' b)"
    "block_hash_num_tokens (h b) = block_hash_num_tokens (h' b)" "is_null (h b) = is_null (h' b)"
  using fun_cong [OF assms, of b] by (simp_all add: payload_def)

subsection \<open>Fields the helpers leave alone\<close>

lemma set_heap_fields [simp]:
  "heap (set_heap h p) = h" "num_gpu_blocks (set_heap h p) = num_gpu_blocks p"
  "num_free_blocks (free_block_queue (set_heap h p)) = num_free_blocks (free_block_queue p)"
  "cached_block_hash_to_block (set_heap h p) = cached_block_hash_to_block p"
  "cached_block_hashes_by_block (set_heap h p) = cached_block_hashes_by_block p"
  "enable_caching (set_heap h p) = enable_caching p" "hash_block_size (set_heap h p) = hash_block_size p"
  "enable_kv_cache_events (set_heap h p) = enable_kv_cache_events p"
  "kv_event_queue (set_heap h p) = kv_event_queue p" "reuse_watchers (set_heap h p) = reuse_watchers p"
  "pool_medium (set_heap h p) = pool_medium p" "use_int_block_hashes (set_heap h p) = use_int_block_hashes p"
  "metrics_collector (set_heap h p) = metrics_collector p" "reuse_fired (set_heap h p) = reuse_fired p"
  by (simp_all add: set_heap_def)

text \<open>The part of the state the invariant reads, and the configuration.\<close>

definition core :: "block_pool \<Rightarrow> int \<times> free_queue \<times> block_map \<times> (int \<rightharpoonup> hash_key list) \<times> bool \<times> int \<times> bool
    \<times> (int \<times> nat) list" where
  "core p = (num_gpu_blocks p, free_block_queue p, cached_block_hash_to_block p,
     cached_block_hashes_by_block p, enable_caching p, hash_block_size p, enable_kv_cache_events p,
     reuse_watchers p)"

lemma core_helpers [simp]: "core (call_metrics c p) = core p" "core (push_event ev p) = core p"
  by (simp_all add: core_def call_metrics_def push_event_def split: option.splits)

lemma core_emit_removed [simp]: "core (emit_block_removed_events ks p) = core p"
proof -
  have "core (fold (\<lambda>k. push_event (f k)) ks q) = core q" for f :: "hash_key \<Rightarrow> kv_event" and q
    by (induction ks arbitrary: q) simp_all
  then show ?thesis by (simp add: emit_block_removed_events_def)
qed

lemma coreD:
  assumes "core p = core q"
  shows "num_gpu_blocks p = num_gpu_blocks q" "free_block_queue p = free_block_queue q"
    "cached_block_hash_to_block p = cached_block_hash_to_block q"
    "cached_block_hashes_by_block p = cached_block_hashes_by_block q"
    "enable_caching p = enable_caching q" "hash_block_size p = hash_block_size q"
    "enable_kv_cache_events p = enable_kv_cache_events q" "reuse_watchers p = reuse_watchers q"
  using assms by (simp_all add: core_def)

lemma core_wf:
  assumes "core p = core q"
  shows "pool_wf p xs = pool_wf q xs"
  unfolding pool_wf_def pending_wf_def watch_wf_def index_wf_def keys_of_def extra_keys_of_def in_pool_def
    coreD [OF assms] ..

lemma core_keys:
  assumes "core p = core q"
  shows "keys_of p b = keys_of q b"
  unfolding keys_of_def extra_keys_of_def coreD [OF assms] ..

subsection \<open>Reference counts\<close>

lemma add_ref_fields [simp]:
  "ref_cnt (heap (add_ref d b p) c) = ref_cnt (heap p c) + (if c = b then d else 0)"
  "block_hash (heap (add_ref d b p) c) = block_hash (heap p c)"
  "block_hash_num_tokens (heap (add_ref d b p) c) = block_hash_num_tokens (heap p c)"
  "is_null (heap (add_ref d b p) c) = is_null (heap p c)"
  "next_free_block (heap (add_ref d b p) c) = next_free_block (heap p c)"
  "prev_free_block (heap (add_ref d b p) c) = prev_free_block (heap p c)"
  "num_free_blocks (free_block_queue (add_ref d b p)) = num_free_blocks (free_block_queue p)"
  "num_gpu_blocks (add_ref d b p) = num_gpu_blocks p"
  "cached_block_hash_to_block (add_ref d b p) = cached_block_hash_to_block p"
  "cached_block_hashes_by_block (add_ref d b p) = cached_block_hashes_by_block p"
  "enable_caching (add_ref d b p) = enable_caching p" "hash_block_size (add_ref d b p) = hash_block_size p"
  "enable_kv_cache_events (add_ref d b p) = enable_kv_cache_events p"
  "reuse_watchers (add_ref d b p) = reuse_watchers p"
  by (simp_all add: add_ref_def)

lemma queue_of_add_ref [simp]: "queue_of (free_block_queue (add_ref d b p)) xs = queue_of (free_block_queue p) xs"
  by (rule queue_of_cong) simp_all

lemma in_pool_add_ref [simp]: "in_pool (add_ref d b p) c = in_pool p c"
  by (simp add: in_pool_def)

lemma keys_of_add_ref [simp]: "keys_of (add_ref d b p) c = keys_of p c"
  by (simp add: keys_of_def extra_keys_of_def)

lemma index_wf_add_ref [simp]: "index_wf p \<Longrightarrow> index_wf (add_ref d b p)"
  by (rule index_wf_cong) simp_all


subsection \<open>Operations on the keys\<close>

text \<open>Everything but the index, the events and the logs is the same.\<close>

definition same_refs :: "block_pool \<Rightarrow> block_pool \<Rightarrow> bool" where
  "same_refs p q \<longleftrightarrow>
     num_gpu_blocks q = num_gpu_blocks p
     \<and> (\<forall>b. next_free_block (heap q b) = next_free_block (heap p b)
          \<and> prev_free_block (heap q b) = prev_free_block (heap p b)
          \<and> ref_cnt (heap q b) = ref_cnt (heap p b) \<and> is_null (heap q b) = is_null (heap p b))
     \<and> num_free_blocks (free_block_queue q) = num_free_blocks (free_block_queue p)
     \<and> enable_caching q = enable_caching p \<and> hash_block_size q = hash_block_size p
     \<and> enable_kv_cache_events q = enable_kv_cache_events p \<and> reuse_watchers q = reuse_watchers p"

lemma same_refs_refl [simp]: "same_refs p p"
  by (simp add: same_refs_def)

lemma same_refs_trans: "same_refs p q \<Longrightarrow> same_refs q r \<Longrightarrow> same_refs p r"
  by (simp add: same_refs_def)

lemma same_refs_core: "core p = core q \<Longrightarrow> same_refs p q"
  by (simp add: same_refs_def core_def)

lemma same_refs_pending: "same_refs p q \<Longrightarrow> pending_wf p xs ys \<Longrightarrow> pending_wf q xs ys"
  by (rule pending_wf_cong) (simp_all add: same_refs_def)

lemma same_refs_watch: "same_refs p q \<Longrightarrow> watch_wf p \<Longrightarrow> watch_wf q"
  by (simp add: watch_wf_def same_refs_def in_pool_def)

lemma same_refs_in_pool: "same_refs p q \<Longrightarrow> in_pool q b = in_pool p b"
  by (rule in_pool_cong) (simp add: same_refs_def)

lemma block_id_eq_Blk [simp]: "block_id c = int i \<longleftrightarrow> c = Blk i"
  by (cases c) auto

lemma remove_key_fold:
  assumes "map_wf m" "is_pool_block b" "distinct ks" "\<forall>k \<in> set ks. b \<in> set (entries m k)"
  shows "\<exists>m'. fold (remove_key b) ks (acc, m) = (acc @ ks, m') \<and> map_wf m'
    \<and> (\<forall>k. entries m' k = (if k \<in> set ks then remove1 b (entries m k) else entries m k))"
  using assms
proof (induction ks arbitrary: acc m)
  case (Cons k ks)
  let ?m = "snd (pop_block k (block_id b) m)"
  have e: "entries ?m k' = (if k' = k then remove1 b (entries m k) else entries m k')" for k'
    using bm.del_ents [OF Cons.prems(1,2)] .
  have st: "remove_key b k (acc, m) = (acc @ [k], ?m)"
    using bm.del_result [OF Cons.prems(1,2), of k] Cons.prems(4)
    by (auto simp: remove_key_def Let_def split: prod.splits)
  have "\<forall>k' \<in> set ks. b \<in> set (entries ?m k')" "distinct ks" using Cons.prems(3,4) e by auto
  from Cons.IH [OF bm.del_wf [OF Cons.prems(1)] Cons.prems(2) this(2,1), of "acc @ [k]"]
  show ?case using st e Cons.prems(3) by auto
qed simp

lemma remove_cached_block_hashes_spec:
  assumes wf: "index_wf p"
  shows "\<exists>q. remove_cached_block_hashes b p = (keys_of p b, q) \<and> index_wf q \<and> same_refs p q
    \<and> keys_of q = (keys_of p)(b := []) \<and> block_hash (heap q b) = None
    \<and> (\<forall>c. c \<noteq> b \<longrightarrow> heap q c = heap p c)"
proof (cases "keys_of p b = []")
  case True
  then have bh: "block_hash (heap p b) = None"
    by (auto simp: keys_of_def split: option.splits)
  with wf have "cached_block_hashes_by_block p (block_id b) = None" by (simp add: index_wf_def)
  then have "(cached_block_hashes_by_block p)(block_id b := None) = cached_block_hashes_by_block p" by auto
  then have "remove_cached_block_hashes b p = ([], p)"
    using True bh by (simp add: remove_cached_block_hashes_def keys_of_def extra_keys_of_def Let_def)
  with True wf bh show ?thesis by auto
next
  case False
  let ?m = "cached_block_hash_to_block p"
  have b: "in_pool p b" using wf False by (auto simp: index_wf_def)
  have mw: "map_wf ?m" and d: "distinct (keys_of p b)"
    and ent: "\<And>k c. c \<in> set (entries ?m k) \<longleftrightarrow> in_pool p c \<and> k \<in> set (keys_of p c)"
    using wf by (auto simp: index_wf_def)
  have "\<forall>k \<in> set (keys_of p b). b \<in> set (entries ?m k)" using b ent by simp
  from remove_key_fold [OF mw in_pool_is_pool_block [OF b] d this, of "[]"] obtain m' where
    m': "fold (remove_key b) (keys_of p b) ([], ?m) = (keys_of p b, m')" "map_wf m'"
      "\<And>k. entries m' k = (if k \<in> set (keys_of p b) then remove1 b (entries ?m k) else entries ?m k)"
    by auto
  define q where "q = set_heap (reset_hash b (heap p))
    (p\<lparr>cached_block_hashes_by_block := (cached_block_hashes_by_block p)(block_id b := None),
       cached_block_hash_to_block := m'\<rparr>)"
  have run: "remove_cached_block_hashes b p = (keys_of p b, q)"
    using False m'(1) by (auto simp: remove_cached_block_hashes_def keys_of_def extra_keys_of_def Let_def q_def)
  have sr: "same_refs p q" by (simp add: same_refs_def q_def reset_hash_def)
  have idb: "block_id c = block_id b \<longleftrightarrow> c = b" for c using b by (auto simp: in_pool_def)
  have keys: "keys_of q = (keys_of p)(b := [])"
    by (rule ext) (simp add: keys_of_def extra_keys_of_def q_def reset_hash_def idb)
  have "c \<in> set (entries m' k) \<longleftrightarrow> in_pool q c \<and> k \<in> set (keys_of q c)" for c k
    using m'(3) [of k] ent [of c k] bm.ents_distinct [OF mw, of k] same_refs_in_pool [OF sr]
    by (auto simp: keys)
  moreover have "block_hash (heap q c) = None \<longrightarrow>
      block_hash_num_tokens (heap q c) = None \<and> cached_block_hashes_by_block q (block_id c) = None" for c
    using wf by (simp add: q_def reset_hash_def index_wf_def)
  moreover have "cached_block_hash_to_block q = m'" by (simp add: q_def)
  ultimately have "index_wf q"
    using m'(2) wf keys same_refs_in_pool [OF sr] by (simp add: index_wf_def)
  with run sr keys show ?thesis by (auto simp: q_def reset_hash_def)
qed

lemma insert_block_hash_spec:
  assumes wf: "index_wf p" and b: "in_pool p b"
  shows "\<exists>q. insert_block_hash key b nt p = Inr q \<and> index_wf q \<and> same_refs p q
    \<and> keys_of q = (keys_of p)(b := set_add key (keys_of p b))
    \<and> block_hash (heap q b) = (case block_hash (heap p b) of None \<Rightarrow> Some key | Some k \<Rightarrow> Some k)
    \<and> (\<forall>c. c \<noteq> b \<longrightarrow> heap q c = heap p c)"
proof -
  let ?m = "cached_block_hash_to_block p"
  have mw: "map_wf ?m" and d: "\<And>c. distinct (keys_of p c)"
    and ent: "\<And>k c. c \<in> set (entries ?m k) \<longleftrightarrow> in_pool p c \<and> k \<in> set (keys_of p c)"
    using wf by (auto simp: index_wf_def)
  note pb = in_pool_is_pool_block [OF b]
  have con: "contain key (block_id b) ?m \<longleftrightarrow> key \<in> set (keys_of p b)"
    using bm.has_ents [OF mw pb] ent b by simp
  show ?thesis
  proof (cases "key \<in> set (keys_of p b)")
    case True
    moreover from this have "block_hash (heap p b) \<noteq> None"
      using wf by (cases "block_hash (heap p b)") (auto simp: index_wf_def keys_of_def extra_keys_of_def)
    ultimately show ?thesis using con wf
      by (intro exI [of _ p]) (auto simp: insert_block_hash_def set_add_def)
  next
    case False
    then have nk: "block_hash (heap p b) \<noteq> Some key" by (auto simp: keys_of_def)
    define p1 where "p1 = (if block_hash (heap p b) = None
      then set_heap ((heap p)(b := (heap p b)\<lparr>block_hash := Some key, block_hash_num_tokens := nt\<rparr>)) p
      else p\<lparr>cached_block_hashes_by_block :=
        (cached_block_hashes_by_block p)(block_id b \<mapsto> set_add key (extra_keys_of p b))\<rparr>)"
    define q where "q = p1\<lparr>cached_block_hash_to_block := insert_block key b ?m\<rparr>"
    have m1: "cached_block_hash_to_block p1 = ?m" by (simp add: p1_def)
    have run: "insert_block_hash key b nt p = Inr q"
      using False nk con wf by (simp add: insert_block_hash_def set_block_hash_def index_wf_def
          q_def p1_def extra_keys_of_def)
    have sr: "same_refs p q" by (simp add: same_refs_def q_def p1_def)
    have idb: "block_id c = block_id b \<longleftrightarrow> c = b" for c using b by (auto simp: in_pool_def)
    have ne: "block_hash (heap p b) = None \<Longrightarrow> extra_keys_of p b = []"
      using wf by (simp add: index_wf_def extra_keys_of_def)
    have nx: "key \<notin> set (extra_keys_of p b)" using False by (simp add: keys_of_def)
    have keys: "keys_of q = (keys_of p)(b := set_add key (keys_of p b))"
    proof (rule ext)
      fix c
      show "keys_of q c = ((keys_of p)(b := set_add key (keys_of p b))) c"
        using False nx ne by (cases "block_hash (heap p b)")
          (auto simp: keys_of_def extra_keys_of_def q_def p1_def idb set_add_def)
    qed
    have "c \<in> set (entries (insert_block key b ?m) k) \<longleftrightarrow> in_pool q c \<and> k \<in> set (keys_of q c)" for c k
      using bm.set_ins [OF mw pb, of c key k] ent [of c k] b same_refs_in_pool [OF sr]
      by (auto simp: keys set_add_def)
    moreover have "block_hash (heap q c) = None \<longrightarrow>
        block_hash_num_tokens (heap q c) = None \<and> cached_block_hashes_by_block q (block_id c) = None" for c
      using wf idb [of c] by (auto simp: q_def p1_def index_wf_def)
    moreover have "distinct (keys_of q c)" for c using d by (simp add: keys set_add_def)
    moreover have "keys_of q c = []" if "\<not> in_pool q c" for c
      using wf that b same_refs_in_pool [OF sr] by (auto simp: keys index_wf_def)
    ultimately have "index_wf q"
      using bm.ins_wf [OF mw pb, of key] by (simp add: index_wf_def q_def m1)
    with run sr keys show ?thesis by (auto simp: q_def p1_def split: option.splits)
  qed
qed


lemma same_refs_pool_wf: "same_refs p q \<Longrightarrow> index_wf q \<Longrightarrow> pool_wf p xs \<Longrightarrow> pool_wf q xs"
  by (simp add: pool_wf_def same_refs_pending same_refs_watch)

lemma core_index_wf:
  assumes "core p = core q"
  shows "index_wf p = index_wf q"
  unfolding index_wf_def keys_of_def extra_keys_of_def in_pool_def coreD [OF assms] ..

lemma maybe_evict_spec:
  assumes "index_wf p"
  shows "\<exists>q. maybe_evict_cached_block b p = (keys_of p b \<noteq> [], q) \<and> index_wf q \<and> same_refs p q
    \<and> keys_of q = (keys_of p)(b := []) \<and> (\<forall>c. c \<noteq> b \<longrightarrow> heap q c = heap p c)"
proof -
  let ?p = "call_metrics (OnEvicted b) p"
  have c: "core ?p = core p" by simp
  have k: "keys_of ?p = keys_of p" by (rule ext) (rule core_keys [OF c])
  obtain q where q: "remove_cached_block_hashes b ?p = (keys_of p b, q)" "index_wf q" "same_refs ?p q"
      "keys_of q = (keys_of p)(b := [])" "\<forall>c. c \<noteq> b \<longrightarrow> heap q c = heap ?p c"
    using remove_cached_block_hashes_spec [of ?p b] assms core_index_wf [OF c] k by auto
  have sr: "same_refs p q" by (rule same_refs_trans [OF same_refs_core [OF c [symmetric]] q(3)])
  let ?q = "if keys_of p b = [] then q else emit_block_removed_events (keys_of p b) q"
  have cq: "core ?q = core q" by simp
  have "index_wf ?q" using q(2) core_index_wf [OF cq] by simp
  moreover have "same_refs p ?q" using sr same_refs_core [OF cq [symmetric]] by (rule same_refs_trans)
  moreover have "keys_of ?q = (keys_of p)(b := [])" using core_keys [OF cq] q(4) by auto
  moreover have "\<forall>c. c \<noteq> b \<longrightarrow> heap ?q c = heap p c" using q(5) coreD(2) [OF cq] coreD(2) [OF c] by simp
  moreover have "maybe_evict_cached_block b p = (keys_of p b \<noteq> [], ?q)"
    using q(1) by (simp add: maybe_evict_cached_block_def)
  ultimately show ?thesis by blast
qed

subsection \<open>Handing out blocks\<close>

definition config :: "block_pool \<Rightarrow> int \<times> bool \<times> int \<times> bool" where
  "config p = (num_gpu_blocks p, enable_caching p, hash_block_size p, enable_kv_cache_events p)"

lemma config_simps [simp]: "config (call_metrics c p) = config p" "config (add_ref d b p) = config p"
  by (simp_all add: config_def call_metrics_def split: option.splits)

lemma same_refs_config: "same_refs p q \<Longrightarrow> config q = config p"
  by (simp add: same_refs_def config_def)

lemma claim_block_spec:
  assumes "pending_wf p xs (b # ys)" "index_wf p" "watch_wf p"
  shows "\<exists>q. claim_block b p = Inr q \<and> pending_wf q xs ys \<and> index_wf q \<and> watch_wf q \<and> config q = config p
    \<and> (\<forall>c. ref_cnt (heap q c) = ref_cnt (heap p c) + (if c = b then 1 else 0)) \<and> keys_of q = keys_of p"
proof -
  let ?p = "add_ref 1 b p" and ?q = "call_metrics (OnAllocated b) (add_ref 1 b p)"
  have b: "in_pool p b" "ref_cnt (heap p b) = 0" "b \<notin> set xs" "b \<notin> set ys"
    using assms(1) by (auto simp: pending_wf_def)
  have c: "core ?q = core ?p" by simp
  have "pending_wf ?p xs ys"
    using assms(1) b unfolding pending_wf_def by (auto split: if_splits)
  moreover have "pending_wf ?q xs ys = pending_wf ?p xs ys"
    unfolding pending_wf_def in_pool_def coreD [OF c] ..
  moreover have "index_wf ?q" using core_index_wf [OF c] assms(2) by simp
  moreover have "watch_wf ?q" using assms(3) unfolding watch_wf_def in_pool_def coreD [OF c] by simp
  moreover have "keys_of ?q = keys_of p" using core_keys [OF c] by auto
  moreover have "claim_block b p = Inr ?q" using b(2) by (simp add: claim_block_def)
  moreover have "heap ?q = heap ?p" by (simp add: coreD(2) [OF c])
  ultimately show ?thesis by (intro exI [of _ ?q]) simp
qed

text \<open>The loop of \<open>get_new_blocks\<close>, with or without eviction.\<close>

lemma claim_loop:
  assumes "pending_wf p xs ys" "index_wf p" "watch_wf p"
  shows "\<exists>q. foldE (\<lambda>b s. claim_block b (if ev then snd (maybe_evict_cached_block b s) else s)) ys p = Inr q
    \<and> pending_wf q xs [] \<and> index_wf q \<and> watch_wf q \<and> config q = config p
    \<and> (\<forall>c. ref_cnt (heap q c) = ref_cnt (heap p c) + (if c \<in> set ys then 1 else 0))
    \<and> keys_of q = (\<lambda>c. if ev \<and> c \<in> set ys then [] else keys_of p c)"
  using assms
proof (induction ys arbitrary: p)
  case (Cons b ys)
  obtain p1 where p1: "(if ev then snd (maybe_evict_cached_block b p) else p) = p1" "index_wf p1"
      "same_refs p p1" "keys_of p1 = (if ev then (keys_of p)(b := []) else keys_of p)"
    using maybe_evict_spec [OF Cons.prems(2), of b] Cons.prems(2) by (cases ev) auto
  note pw = same_refs_pending [OF p1(3) Cons.prems(1)] and ww = same_refs_watch [OF p1(3) Cons.prems(3)]
  obtain p2 where p2: "claim_block b p1 = Inr p2" "pending_wf p2 xs ys" "index_wf p2" "watch_wf p2"
      "config p2 = config p1" "keys_of p2 = keys_of p1"
      "\<And>c. ref_cnt (heap p2 c) = ref_cnt (heap p1 c) + (if c = b then 1 else 0)"
    using claim_block_spec [OF pw p1(2) ww] by blast
  have r1: "ref_cnt (heap p1 c) = ref_cnt (heap p c)" for c using p1(3) by (simp add: same_refs_def)
  have nb: "b \<notin> set ys" using Cons.prems(1) by (simp add: pending_wf_def)
  obtain q where q: "foldE (\<lambda>b s. claim_block b (if ev then snd (maybe_evict_cached_block b s) else s)) ys p2 = Inr q"
      "pending_wf q xs []" "index_wf q" "watch_wf q" "config q = config p2"
      "\<And>c. ref_cnt (heap q c) = ref_cnt (heap p2 c) + (if c \<in> set ys then 1 else 0)"
      "keys_of q = (\<lambda>c. if ev \<and> c \<in> set ys then [] else keys_of p2 c)"
    using Cons.IH [OF p2(2-4)] by blast
  have "ref_cnt (heap q c) = ref_cnt (heap p c) + (if c \<in> set (b # ys) then 1 else 0)" for c
    using q(6) [of c] p2(7) [of c] r1 [of c] nb by auto
  moreover have "keys_of q = (\<lambda>c. if ev \<and> c \<in> set (b # ys) then [] else keys_of p c)"
    using q(7) p2(6) p1(4) by auto
  moreover have "config q = config p" using q(5) p2(5) same_refs_config [OF p1(3)] by simp
  ultimately show ?case using q(1-4) p1(1) p2(1) by (intro exI [of _ q]) simp
qed auto


text \<open>Notifying watchers touches the watchers and their log only.\<close>

lemma notify_reuse_fields:
  "num_gpu_blocks (notify_reuse bs p) = num_gpu_blocks p" "free_block_queue (notify_reuse bs p) = free_block_queue p"
  "cached_block_hash_to_block (notify_reuse bs p) = cached_block_hash_to_block p"
  "cached_block_hashes_by_block (notify_reuse bs p) = cached_block_hashes_by_block p"
  "enable_caching (notify_reuse bs p) = enable_caching p" "hash_block_size (notify_reuse bs p) = hash_block_size p"
  "enable_kv_cache_events (notify_reuse bs p) = enable_kv_cache_events p"
  unfolding notify_reuse_def
  by (induction bs arbitrary: p) (simp_all add: notify_block_def split: option.splits)

lemma notify_reuse_watchers:
  "reuse_watchers (notify_reuse bs p) = filter (\<lambda>(i, _). i \<notin> block_id ` set bs) (reuse_watchers p)"
  unfolding notify_reuse_def
proof (induction bs arbitrary: p)
  case (Cons b bs)
  have "reuse_watchers (notify_block b p) = filter (\<lambda>(i, _). i \<noteq> block_id b) (reuse_watchers p)"
  proof (cases "map_of (reuse_watchers p) (block_id b)")
    case None
    then have "block_id b \<notin> fst ` set (reuse_watchers p)" by (simp add: map_of_eq_None_iff)
    then have "filter (\<lambda>(i, _). i \<noteq> block_id b) (reuse_watchers p) = reuse_watchers p"
      by (force simp: filter_id_conv)
    with None show ?thesis by (simp add: notify_block_def)
  next
    case (Some w)
    then show ?thesis by (auto simp: notify_block_def AList.delete_eq intro!: filter_cong)
  qed
  with Cons.IH [of "notify_block b p"] show ?case by (auto intro!: filter_cong simp: conj_commute)
qed simp

lemma notify_reuse_wf:
  "pending_wf (notify_reuse bs p) xs ys = pending_wf p xs ys" "index_wf (notify_reuse bs p) = index_wf p"
  "keys_of (notify_reuse bs p) = keys_of p" "config (notify_reuse bs p) = config p"
  by (auto simp: pending_wf_def index_wf_def keys_of_def extra_keys_of_def in_pool_def config_def
      notify_reuse_fields fun_eq_iff)

lemma notify_reuse_watch_wf: "watch_wf p \<Longrightarrow> watch_wf (notify_reuse bs p)"
  by (auto simp: watch_wf_def notify_reuse_watchers notify_reuse_fields in_pool_def distinct_map_filter)

text \<open>The free queue replaced by one with the same blocks in its store.\<close>

lemma with_queue_fields:
  assumes "payload (store q) = payload (heap p)"
  shows "ref_cnt (store q b) = ref_cnt (heap p b)" "is_null (store q b) = is_null (heap p b)"
    "keys_of (p\<lparr>free_block_queue := q\<rparr>) = keys_of p" "config (p\<lparr>free_block_queue := q\<rparr>) = config p"
    "index_wf p \<Longrightarrow> index_wf (p\<lparr>free_block_queue := q\<rparr>)"
    "watch_wf p \<Longrightarrow> watch_wf (p\<lparr>free_block_queue := q\<rparr>)"
proof -
  note f = payload_eqD [OF assms]
  show "ref_cnt (store q b) = ref_cnt (heap p b)" "is_null (store q b) = is_null (heap p b)" by (rule f)+
  show "keys_of (p\<lparr>free_block_queue := q\<rparr>) = keys_of p"
    by (auto simp: keys_of_def extra_keys_of_def f)
  show "config (p\<lparr>free_block_queue := q\<rparr>) = config p" by (simp add: config_def)
  show "index_wf p \<Longrightarrow> index_wf (p\<lparr>free_block_queue := q\<rparr>)"
    by (rule index_wf_cong) (simp_all add: f)
  show "watch_wf p \<Longrightarrow> watch_wf (p\<lparr>free_block_queue := q\<rparr>)" by (simp add: watch_wf_def in_pool_def)
qed

lemma pending_with_queue:
  assumes pw: "pending_wf p xs ys" and pl: "payload (store q) = payload (heap p)"
    and q: "queue_of q xs'" and d: "distinct (xs' @ ys')" "set (xs' @ ys') = set (xs @ ys)"
  shows "pending_wf (p\<lparr>free_block_queue := q\<rparr>) xs' ys'"
  using pw q d with_queue_fields(1,2) [OF pl] by (simp add: pending_wf_def in_pool_def)

lemma get_new_blocks_spec:
  assumes wf: "pool_wf p xs" and n: "0 \<le> n"
  shows "if n \<le> int (length xs)
    then \<exists>q. get_new_blocks n p = Inr (take (nat n) xs, q) \<and> pool_wf q (drop (nat n) xs) \<and> config q = config p
      \<and> (\<forall>c. ref_cnt (heap q c) = ref_cnt (heap p c) + (if c \<in> set (take (nat n) xs) then 1 else 0))
      \<and> keys_of q = (\<lambda>c. if enable_caching p \<and> c \<in> set (take (nat n) xs) then [] else keys_of p c)
    else get_new_blocks n p = Inl ValueError"
proof -
  have pw: "pending_wf p xs []" and iw: "index_wf p" and ww: "watch_wf p" using wf by (simp_all add: pool_wf_def)
  have qx: "queue_of (free_block_queue p) xs" using pw by (simp add: pending_wf_def)
  have len: "get_num_free_blocks p = int (length xs)"
    using fq.count_length [OF qx] by (simp add: get_num_free_blocks_def)
  show ?thesis
  proof (cases "n \<le> int (length xs)")
    case True
    let ?ys = "take (nat n) xs" and ?zs = "drop (nat n) xs"
    obtain q0 where q0: "popleft_n n (free_block_queue p) = Inr (?ys, q0)" "queue_of q0 ?zs"
        "payload (store q0) = payload (heap p)"
      using fq.pop_n_take [OF qx n True] by blast
    define p1 where "p1 = p\<lparr>free_block_queue := q0\<rparr>"
    define p2 where "p2 = (if reuse_watchers p1 \<noteq> [] then notify_reuse ?ys p1 else p1)"
    have "set (?zs @ ?ys) = set xs" using set_append [of ?ys ?zs] by auto
    moreover have "distinct (?zs @ ?ys)"
      using pw distinct_append [of ?ys ?zs] by (auto simp: pending_wf_def)
    ultimately have pw1: "pending_wf p1 ?zs ?ys"
      unfolding p1_def by (intro pending_with_queue [OF pw q0(3,2)]) simp_all
    have 2: "pending_wf p2 ?zs ?ys" "index_wf p2" "watch_wf p2" "keys_of p2 = keys_of p" "config p2 = config p"
      "heap p2 = store q0"
      using pw1 with_queue_fields [OF q0(3)] iw ww
      by (simp_all add: p2_def notify_reuse_wf notify_reuse_watch_wf notify_reuse_fields flip: p1_def)
        (simp_all add: p1_def)
    define ev where "ev = enable_caching p"
    have ev2: "enable_caching p2 = ev" using 2(5) by (simp add: config_def ev_def)
    obtain q where q: "foldE (\<lambda>b s. claim_block b (if ev then snd (maybe_evict_cached_block b s) else s)) ?ys p2 = Inr q"
        "pending_wf q ?zs []" "index_wf q" "watch_wf q" "config q = config p2"
        "\<And>c. ref_cnt (heap q c) = ref_cnt (heap p2 c) + (if c \<in> set ?ys then 1 else 0)"
        "keys_of q = (\<lambda>c. if ev \<and> c \<in> set ?ys then [] else keys_of p2 c)"
      using claim_loop [OF 2(1-3)] by blast
    have "get_new_blocks n p = bindE (if enable_caching p2
        then foldE (\<lambda>b s. claim_block b (snd (maybe_evict_cached_block b s))) ?ys p2
        else foldE claim_block ?ys p2) (\<lambda>p3. Inr (?ys, p3))"
      unfolding p2_def p1_def get_new_blocks_def len Let_def using True q0(1) by simp
    also have "\<dots> = Inr (?ys, q)" using q(1) ev2 by (cases ev) simp_all
    finally have "get_new_blocks n p = Inr (?ys, q)" .
    moreover have "keys_of q = (\<lambda>c. if enable_caching p \<and> c \<in> set ?ys then [] else keys_of p c)"
      using q(7) unfolding 2(4) ev_def .
    ultimately show ?thesis using True q(2-6) 2(5,6) with_queue_fields(1) [OF q0(3)]
      by (simp add: pool_wf_def)
  qed (simp add: get_new_blocks_def len)
qed

subsection \<open>Touching and freeing\<close>

lemma touch_block_spec:
  assumes wf: "pool_wf p xs" and b: "in_pool p b \<or> b = null_block"
  shows "\<exists>q. touch_block b p = Inr q \<and> pool_wf q (remove1 b xs) \<and> config q = config p
    \<and> (\<forall>c. ref_cnt (heap q c) = ref_cnt (heap p c) + (if c = b then 1 else 0)) \<and> keys_of q = keys_of p"
proof -
  have pw: "pending_wf p xs []" and iw: "index_wf p" and ww: "watch_wf p" using wf by (simp_all add: pool_wf_def)
  have qx: "queue_of (free_block_queue p) xs" and dx: "distinct xs" using pw by (auto simp: pending_wf_def)
  have "\<exists>p1 ys. (if ref_cnt (heap p b) = 0 \<and> \<not> is_null (heap p b)
      then bindE (remove b (free_block_queue p)) (\<lambda>q. Inr (p\<lparr>free_block_queue := q\<rparr>)) else Inr p) = Inr p1
    \<and> pending_wf p1 (remove1 b xs) ys \<and> ys = (if b \<in> set xs then [b] else []) \<and> index_wf p1 \<and> watch_wf p1
    \<and> keys_of p1 = keys_of p \<and> config p1 = config p \<and> (\<forall>c. ref_cnt (heap p1 c) = ref_cnt (heap p c))"
  proof (cases "b \<in> set xs")
    case True
    then obtain q0 where q0: "remove b (free_block_queue p) = Inr q0" "queue_of q0 (remove1 b xs)"
        "payload (store q0) = payload (heap p)"
      using fq.delete_member [OF qx] by blast
    have "ref_cnt (heap p b) = 0" "\<not> is_null (heap p b)" using True pw by (auto simp: pending_wf_def)
    moreover have "pending_wf (p\<lparr>free_block_queue := q0\<rparr>) (remove1 b xs) [b]"
      using True dx by (intro pending_with_queue [OF pw q0(3,2)]) (auto simp: notin_set_remove1)
    ultimately show ?thesis
      using True q0(1) with_queue_fields [OF q0(3)] iw ww
      by (intro exI [of _ "p\<lparr>free_block_queue := q0\<rparr>"]) simp
  next
    case False
    then have "\<not> (ref_cnt (heap p b) = 0 \<and> \<not> is_null (heap p b))"
      using pw b by (auto simp: pending_wf_def)
    with False pw iw ww show ?thesis by (intro exI [of _ p]) (auto simp: remove1_idem)
  qed
  then obtain p1 ys where p1: "(if ref_cnt (heap p b) = 0 \<and> \<not> is_null (heap p b)
      then bindE (remove b (free_block_queue p)) (\<lambda>q. Inr (p\<lparr>free_block_queue := q\<rparr>)) else Inr p) = Inr p1"
    "pending_wf p1 (remove1 b xs) ys" "ys = (if b \<in> set xs then [b] else [])" "index_wf p1" "watch_wf p1"
    "keys_of p1 = keys_of p" "config p1 = config p" "\<And>c. ref_cnt (heap p1 c) = ref_cnt (heap p c)" by blast
  let ?q = "call_metrics (OnAccessed b) (add_ref 1 b p1)"
  have c: "core ?q = core (add_ref 1 b p1)" by simp
  have ip: "in_pool p1 c = in_pool p c" for c using p1(7) by (simp add: config_def in_pool_def)
  have "pending_wf (add_ref 1 b p1) (remove1 b xs) []"
    using p1(2,3) dx b ip by (auto simp: pending_wf_def split: if_splits)
  moreover have "watch_wf (add_ref 1 b p1)" using p1(5) by (simp add: watch_wf_def)
  ultimately have "pool_wf ?q (remove1 b xs)" using core_wf [OF c] p1(4) by (simp add: pool_wf_def)
  moreover have "touch_block b p = Inr ?q" using p1(1) by (simp add: touch_block_def)
  moreover have "heap ?q = heap (add_ref 1 b p1)" by (simp add: coreD(2) [OF c])
  moreover have "keys_of ?q = keys_of p" using core_keys [OF c] p1(6) by auto
  ultimately show ?thesis using p1(7,8) by (intro exI [of _ ?q]) simp
qed


lemma touch_spec:
  assumes "pool_wf p xs" "\<forall>b \<in> set bs. in_pool p b \<or> b = null_block"
  shows "\<exists>q. touch bs p = Inr q \<and> pool_wf q (filter (\<lambda>b. b \<notin> set bs) xs) \<and> config q = config p
    \<and> (\<forall>c. ref_cnt (heap q c) = ref_cnt (heap p c) + int (count_list bs c)) \<and> keys_of q = keys_of p"
  using assms
proof (induction bs arbitrary: p xs)
  case Nil
  then show ?case by (simp add: touch_def)
next
  case (Cons b bs)
  obtain p1 where p1: "touch_block b p = Inr p1" "pool_wf p1 (remove1 b xs)" "config p1 = config p"
      "\<And>c. ref_cnt (heap p1 c) = ref_cnt (heap p c) + (if c = b then 1 else 0)" "keys_of p1 = keys_of p"
    using touch_block_spec [OF Cons.prems(1), of b] Cons.prems(2) by auto
  have "\<forall>b \<in> set bs. in_pool p1 b \<or> b = null_block"
    using Cons.prems(2) p1(3) by (simp add: in_pool_def config_def)
  from Cons.IH [OF p1(2) this] obtain q where q: "touch bs p1 = Inr q"
      "pool_wf q (filter (\<lambda>c. c \<notin> set bs) (remove1 b xs))" "config q = config p1"
      "\<And>c. ref_cnt (heap q c) = ref_cnt (heap p1 c) + int (count_list bs c)" "keys_of q = keys_of p1" by blast
  have "distinct xs" using Cons.prems(1) by (simp add: pool_wf_def pending_wf_def)
  then have "filter (\<lambda>c. c \<notin> set bs) (remove1 b xs) = filter (\<lambda>c. c \<notin> set (b # bs)) xs"
    by (simp flip: filter_not_in_remove1)
  with q p1 show ?case by (intro exI [of _ q]) (simp add: touch_def)
qed

text \<open>
  The blocks that a release of \<open>bs\<close> leaves without a reference, in the order of their last
  occurrence in \<open>bs\<close>.
\<close>

definition released :: "block_pool \<Rightarrow> block_ref list \<Rightarrow> block_ref list" where
  "released p bs = filter (\<lambda>b. b \<noteq> null_block \<and> ref_cnt (heap p b) = int (count_list bs b)) (remdups bs)"

text \<open>The references to release are held.\<close>

definition holds_refs :: "block_pool \<Rightarrow> block_ref list \<Rightarrow> bool" where
  "holds_refs p bs \<longleftrightarrow> (\<forall>b \<in> set bs. b = null_block \<or> in_pool p b)
     \<and> (\<forall>b. b \<noteq> null_block \<longrightarrow> int (count_list bs b) \<le> ref_cnt (heap p b) \<or> b \<notin> set bs)"

lemma released_Cons:
  assumes "holds_refs p (b # bs)"
  shows "released p (b # bs) =
    (if b \<noteq> null_block \<and> ref_cnt (heap p b) = 1 then [b] else []) @ released (add_ref (-1) b p) bs"
proof -
  have eq: "filter (\<lambda>c. c \<noteq> null_block \<and> ref_cnt (heap p c) = int (count_list (b # bs) c)) (remdups bs)
      = released (add_ref (-1) b p) bs"
    unfolding released_def by (rule filter_cong) auto
  show ?thesis
  proof (cases "b \<in> set bs")
    case True
    then have "count_list bs b \<noteq> 0" by (simp add: count_list_0_iff)
    with assms have "b = null_block \<or> ref_cnt (heap p b) \<noteq> 1" by (auto simp: holds_refs_def)
    with True eq show ?thesis by (simp add: released_def)
  next
    case False
    then have "count_list bs b = 0" by (simp add: count_list_0_iff)
    with False eq show ?thesis by (simp add: released_def)
  qed
qed

lemma holds_refs_Cons:
  assumes "holds_refs p (b # bs)"
  shows "holds_refs (add_ref (-1) b p) bs"
proof -
  have "int (count_list bs c) \<le> ref_cnt (heap (add_ref (-1) b p) c)" if "c \<noteq> null_block" "c \<in> set bs" for c
    using assms that by (force simp: holds_refs_def split: if_splits)
  with assms show ?thesis by (auto simp: holds_refs_def)
qed

lemma pending_release:
  assumes pw: "pending_wf p xs ys" and hr: "holds_refs p (b # bs)"
  shows "pending_wf (add_ref (-1) b p) xs (ys @ (if b \<noteq> null_block \<and> ref_cnt (heap p b) = 1 then [b] else []))"
proof -
  have b: "b = null_block \<or> in_pool p b \<and> ref_cnt (heap p b) \<ge> 1"
    using hr by (force simp: holds_refs_def)
  moreover have "b \<notin> set (xs @ ys)" using b pw by (auto simp: pending_wf_def)
  ultimately show ?thesis using pw by (auto simp: pending_wf_def split: if_splits)
qed

lemma pending_perm: "pending_wf p xs ys \<Longrightarrow> distinct zs \<Longrightarrow> set zs = set ys \<Longrightarrow> pending_wf p xs zs"
  by (simp add: pending_wf_def)

lemma keys_of_Nil:
  assumes "index_wf p"
  shows "block_hash (heap p b) = None \<longleftrightarrow> keys_of p b = []"
  using assms by (cases "block_hash (heap p b)") (simp_all add: index_wf_def keys_of_def extra_keys_of_def)

lemma free_fold:
  assumes "pending_wf p xs (fs @ ls)" "index_wf p" "watch_wf p" "holds_refs p bs"
  shows "\<exists>q. fold free_block bs (fs, ls, p) =
      (fs @ filter (\<lambda>b. keys_of p b = [] \<or> \<not> enable_caching p) (released p bs),
       ls @ filter (\<lambda>b. keys_of p b \<noteq> [] \<and> enable_caching p) (released p bs), q)
    \<and> pending_wf q xs (fs @ filter (\<lambda>b. keys_of p b = [] \<or> \<not> enable_caching p) (released p bs)
        @ ls @ filter (\<lambda>b. keys_of p b \<noteq> [] \<and> enable_caching p) (released p bs))
    \<and> index_wf q \<and> watch_wf q \<and> config q = config p \<and> keys_of q = keys_of p
    \<and> (\<forall>c. ref_cnt (heap q c) = ref_cnt (heap p c) - int (count_list bs c))"
  using assms
proof (induction bs arbitrary: p fs ls)
  case Nil
  then show ?case by (simp add: released_def)
next
  case (Cons b bs)
  let ?p = "add_ref (-1) b p" and ?rel = "b \<noteq> null_block \<and> ref_cnt (heap p b) = 1"
  let ?f = "\<lambda>b. keys_of p b = [] \<or> \<not> enable_caching p" and ?l = "\<lambda>b. keys_of p b \<noteq> [] \<and> enable_caching p"
  define f1 where "f1 = filter ?f (if ?rel then [b] else [])"
  define l1 where "l1 = filter ?l (if ?rel then [b] else [])"
  have nb: "is_null (heap p b) \<longleftrightarrow> b = null_block" using Cons.prems(1) by (simp add: pending_wf_def)
  note kb = keys_of_Nil [OF Cons.prems(2), of b]
  have st: "free_block b (fs, ls, p) = (fs @ f1, ls @ l1, ?p)"
    using nb kb by (auto simp: free_block_def f1_def l1_def)
  have "set (f1 @ l1) = set (if ?rel then [b] else [])" "distinct (f1 @ l1)"
    by (auto simp: f1_def l1_def)
  moreover note pr = pending_release [OF Cons.prems(1,4)]
  moreover have "distinct ((fs @ ls) @ (if ?rel then [b] else []))" using pr by (simp add: pending_wf_def)
  ultimately have pw: "pending_wf ?p xs ((fs @ f1) @ (ls @ l1))"
    by (intro pending_perm [OF pr]) (auto split: if_splits)
  have "watch_wf ?p" using Cons.prems(3) by (simp add: watch_wf_def)
  from Cons.IH [OF pw index_wf_add_ref [OF Cons.prems(2)] this holds_refs_Cons [OF Cons.prems(4)]]
  obtain q where q: "fold free_block bs (fs @ f1, ls @ l1, ?p) =
      ((fs @ f1) @ filter ?f (released ?p bs), (ls @ l1) @ filter ?l (released ?p bs), q)"
    "pending_wf q xs ((fs @ f1) @ filter ?f (released ?p bs) @ (ls @ l1) @ filter ?l (released ?p bs))"
    "index_wf q" "watch_wf q" "config q = config p" "keys_of q = keys_of p"
    "\<And>c. ref_cnt (heap q c) = ref_cnt (heap ?p c) - int (count_list bs c)"
    by auto
  have "filter ?f (released p (b # bs)) = f1 @ filter ?f (released ?p bs)"
    "filter ?l (released p (b # bs)) = l1 @ filter ?l (released ?p bs)"
    unfolding released_Cons [OF Cons.prems(4)] by (simp_all add: f1_def l1_def)
  with q st show ?case by (intro exI [of _ q]) simp
qed

lemma pending_queue_back:
  assumes pw: "pending_wf p xs ys" and q: "queue_of q xs'" "payload (store q) = payload (heap p)"
    and d: "distinct xs'" "set xs' = set (xs @ ys)" and iw: "index_wf p" "watch_wf p"
  shows "pool_wf (p\<lparr>free_block_queue := q\<rparr>) xs'"
  using pending_with_queue [OF pw q(2,1), of "[]"] d with_queue_fields [OF q(2)] iw by (simp add: pool_wf_def)

lemma free_blocks_spec:
  assumes wf: "pool_wf p xs" and hr: "holds_refs p bs"
  shows "\<exists>q. free_blocks bs p = Inr q \<and> config q = config p \<and> keys_of q = keys_of p
    \<and> pool_wf q (filter (\<lambda>b. keys_of p b = [] \<or> \<not> enable_caching p) (released p bs) @ xs
        @ filter (\<lambda>b. keys_of p b \<noteq> [] \<and> enable_caching p) (released p bs))
    \<and> (\<forall>c. ref_cnt (heap q c) = ref_cnt (heap p c) - int (count_list bs c))"
proof -
  define fs where "fs = filter (\<lambda>b. keys_of p b = [] \<or> \<not> enable_caching p) (released p bs)"
  define ls where "ls = filter (\<lambda>b. keys_of p b \<noteq> [] \<and> enable_caching p) (released p bs)"
  obtain p1 where p1: "fold free_block bs ([], [], p) = (fs, ls, p1)" "pending_wf p1 xs (fs @ ls)"
      "index_wf p1" "watch_wf p1" "config p1 = config p" "keys_of p1 = keys_of p"
      "\<And>c. ref_cnt (heap p1 c) = ref_cnt (heap p c) - int (count_list bs c)"
    using free_fold [of p xs "[]" "[]" bs] wf hr by (auto simp: pool_wf_def fs_def ls_def)
  have qx: "queue_of (free_block_queue p1) xs" and d: "distinct (xs @ fs @ ls)"
    and ip: "\<And>b. b \<in> set (fs @ ls) \<Longrightarrow> in_pool p1 b"
    using p1(2) by (auto simp: pending_wf_def)
  have rb: "\<forall>b \<in> set fs. real_block b" "\<forall>b \<in> set ls. real_block b" using ip in_pool_real by auto
  have "distinct (fs @ xs)" using d by auto
  then obtain q1 where q1: "prepend_n fs (free_block_queue p1) = Inr q1" "queue_of q1 (fs @ xs)"
      "payload (store q1) = payload (heap p1)"
    using fq.push_front_fresh [OF qx _ rb(1)] by blast
  have "distinct ((fs @ xs) @ ls)" using d by auto
  then obtain q2 where q2: "append_n ls q1 = Inr q2" "queue_of q2 ((fs @ xs) @ ls)"
      "payload (store q2) = payload (store q1)"
    using fq.push_back_fresh [OF q1(2) _ rb(2)] by blast
  have pl: "payload (store q2) = payload (heap p1)" using q1(3) q2(3) by simp
  have "pool_wf (p1\<lparr>free_block_queue := q2\<rparr>) ((fs @ xs) @ ls)"
    using d by (intro pending_queue_back [OF p1(2) q2(2) pl _ _ p1(3,4)]) auto
  moreover have "free_blocks bs p = Inr (p1\<lparr>free_block_queue := q2\<rparr>)"
    using p1(1) q1(1) q2(1) by (simp add: free_blocks_def)
  ultimately show ?thesis using p1(5-7) with_queue_fields [OF pl]
    by (intro exI [of _ "p1\<lparr>free_block_queue := q2\<rparr>"]) (simp flip: fs_def ls_def)
qed

lemma unpin_fold:
  assumes "pending_wf p xs ys" "index_wf p" "watch_wf p" "holds_refs p bs" "null_block \<notin> set bs"
  shows "\<exists>q. foldE (unpin_block w) bs (ys, p) = Inr (ys @ released p bs, q)
    \<and> pending_wf q xs (ys @ released p bs) \<and> index_wf q \<and> watch_wf q \<and> config q = config p
    \<and> keys_of q = keys_of p \<and> (\<forall>c. ref_cnt (heap q c) = ref_cnt (heap p c) - int (count_list bs c))
    \<and> (\<forall>c \<in> set bs. map_of (reuse_watchers q) (block_id c) = Some w)
    \<and> (\<forall>i. i \<notin> block_id ` set bs \<longrightarrow> map_of (reuse_watchers q) i = map_of (reuse_watchers p) i)"
  using assms
proof (induction bs arbitrary: p ys)
  case Nil
  then show ?case by (simp add: released_def)
next
  case (Cons b bs)
  let ?p = "add_ref (-1) b p" and ?rel = "b \<noteq> null_block \<and> ref_cnt (heap p b) = 1"
  define p1 where "p1 = ?p\<lparr>reuse_watchers := AList.update (block_id b) w (reuse_watchers ?p)\<rparr>"
  have b: "in_pool p b" "ref_cnt (heap p b) \<ge> 1"
    using Cons.prems(4,5) by (force simp: holds_refs_def)+
  have nb: "\<not> is_null (heap p b)" using Cons.prems(1,5) by (auto simp: pending_wf_def)
  have st: "unpin_block w b (ys, p) = Inr (ys @ (if ?rel then [b] else []), p1)"
    using b nb Cons.prems(5) by (auto simp: unpin_block_def p1_def Let_def)
  have pw: "pending_wf p1 xs (ys @ (if ?rel then [b] else []))"
    using pending_release [OF Cons.prems(1,4)] by (simp add: p1_def pending_wf_def in_pool_def)
  have iw: "index_wf p1" using index_wf_add_ref [OF Cons.prems(2), of "-1" b]
    by (rule index_wf_cong) (simp_all add: p1_def)
  have k1: "keys_of p1 = keys_of p" by (rule ext) (simp add: p1_def keys_of_def extra_keys_of_def)
  have ww: "watch_wf p1"
    using Cons.prems(3) b(1) by (auto simp: watch_wf_def p1_def in_pool_def dom_update distinct_update)
  have rel: "released p1 bs = released ?p bs" by (simp add: released_def p1_def)
  have "holds_refs p1 bs" using holds_refs_Cons [OF Cons.prems(4)] by (simp add: holds_refs_def p1_def in_pool_def)
  from Cons.IH [OF pw iw ww this] Cons.prems(5) obtain q where
    q: "foldE (unpin_block w) bs (ys @ (if ?rel then [b] else []), p1) =
        Inr ((ys @ (if ?rel then [b] else [])) @ released p1 bs, q)"
      "pending_wf q xs ((ys @ (if ?rel then [b] else [])) @ released p1 bs)" "index_wf q" "watch_wf q"
      "config q = config p1" "keys_of q = keys_of p1"
      "\<And>c. ref_cnt (heap q c) = ref_cnt (heap p1 c) - int (count_list bs c)"
      "\<forall>c \<in> set bs. map_of (reuse_watchers q) (block_id c) = Some w"
      "\<forall>i. i \<notin> block_id ` set bs \<longrightarrow> map_of (reuse_watchers q) i = map_of (reuse_watchers p1) i"
    by auto
  have r: "ref_cnt (heap p1 c) = ref_cnt (heap p c) - (if c = b then 1 else 0)" for c by (simp add: p1_def)
  have c1: "config p1 = config p" by (simp add: p1_def config_def)
  have "map_of (reuse_watchers q) (block_id c) = Some w" if "c \<in> set (b # bs)" for c
    using q(8,9) that by (cases "block_id c \<in> block_id ` set bs") (auto simp: p1_def update_conv')
  moreover have "map_of (reuse_watchers q) i = map_of (reuse_watchers p) i" if "i \<notin> block_id ` set (b # bs)" for i
    using q(9) that by (simp add: p1_def update_conv')
  ultimately show ?case using q(1-7) st r c1 k1 released_Cons [OF Cons.prems(4)] rel
    by (intro exI [of _ q]) simp
qed


lemma unpin_blocks_spec:
  assumes wf: "pool_wf p xs" and hr: "holds_refs p bs" "null_block \<notin> set bs"
  shows "\<exists>q. unpin_blocks bs w p = Inr q \<and> config q = config p \<and> keys_of q = keys_of p
    \<and> pool_wf q (xs @ released p bs)
    \<and> (\<forall>c. ref_cnt (heap q c) = ref_cnt (heap p c) - int (count_list bs c))
    \<and> (\<forall>c \<in> set bs. map_of (reuse_watchers q) (block_id c) = Some w)"
proof -
  obtain p1 where p1: "foldE (unpin_block w) bs ([], p) = Inr (released p bs, p1)"
      "pending_wf p1 xs (released p bs)" "index_wf p1" "watch_wf p1" "config p1 = config p" "keys_of p1 = keys_of p"
      "\<And>c. ref_cnt (heap p1 c) = ref_cnt (heap p c) - int (count_list bs c)"
      "\<forall>c \<in> set bs. map_of (reuse_watchers p1) (block_id c) = Some w"
    using unpin_fold [of p xs "[]" bs w] wf hr by (auto simp: pool_wf_def)
  have qx: "queue_of (free_block_queue p1) xs" and d: "distinct (xs @ released p bs)"
    and rb: "\<forall>b \<in> set (released p bs). real_block b"
    using p1(2) in_pool_real by (auto simp: pending_wf_def)
  obtain q where q: "append_n (released p bs) (free_block_queue p1) = Inr q" "queue_of q (xs @ released p bs)"
      "payload (store q) = payload (heap p1)"
    using fq.push_back_fresh [OF qx d rb] by blast
  have "pool_wf (p1\<lparr>free_block_queue := q\<rparr>) (xs @ released p bs)"
    using d by (intro pending_queue_back [OF p1(2) q(2,3) _ _ p1(3,4)]) auto
  moreover have "unpin_blocks bs w p = Inr (p1\<lparr>free_block_queue := q\<rparr>)"
    using p1(1) q(1) by (simp add: unpin_blocks_def)
  ultimately show ?thesis using p1(5-8) with_queue_fields [OF q(3)]
    by (intro exI [of _ "p1\<lparr>free_block_queue := q\<rparr>"]) simp
qed

subsection \<open>Eviction, reset, construction\<close>

lemma evict_blocks_spec:
  assumes "pool_wf p xs" "\<forall>i \<in> set ids. 0 \<le> i \<and> i < num_gpu_blocks p"
  shows "\<exists>q. evict_blocks ids p = Inr q \<and> pool_wf q xs \<and> same_refs p q
    \<and> keys_of q = (\<lambda>c. if block_id c \<in> set ids \<and> in_pool p c then [] else keys_of p c)"
  using assms
proof (induction ids arbitrary: p)
  case Nil
  then show ?case by (simp add: evict_blocks_def)
next
  case (Cons i ids)
  let ?b = "Blk (nat i)"
  have iw: "index_wf p" using Cons.prems(1) by (simp add: pool_wf_def)
  have i: "0 \<le> i" "i < num_gpu_blocks p" using Cons.prems(2) by auto
  obtain p1 where p1: "snd (maybe_evict_cached_block ?b p) = p1" "index_wf p1" "same_refs p p1"
      "keys_of p1 = (keys_of p)(?b := [])"
    using maybe_evict_spec [OF iw, of ?b] by auto
  have "pool_wf p1 xs" by (rule same_refs_pool_wf [OF p1(3,2) Cons.prems(1)])
  moreover have "\<forall>i \<in> set ids. 0 \<le> i \<and> i < num_gpu_blocks p1"
    using Cons.prems(2) p1(3) by (simp add: same_refs_def)
  ultimately obtain q where q: "evict_blocks ids p1 = Inr q" "pool_wf q xs" "same_refs p1 q"
      "keys_of q = (\<lambda>c. if block_id c \<in> set ids \<and> in_pool p1 c then [] else keys_of p1 c)"
    using Cons.IH by blast
  have "i < int (length (pool_blocks p))" "py_index (pool_blocks p) i = Inr ?b"
    using i by (simp_all add: pool_blocks_def py_index_eq)
  then have "evict_blocks (i # ids) p = evict_blocks ids p1"
    using p1(1) by (simp add: evict_blocks_def)
  moreover have "keys_of q = (\<lambda>c. if block_id c \<in> set (i # ids) \<and> in_pool p c then [] else keys_of p c)"
  proof (rule ext)
    fix c
    have "block_id c = i \<longleftrightarrow> c = ?b" using i(1) by (cases c) auto
    moreover have "keys_of p c = []" if "\<not> in_pool p c" using iw that by (simp add: index_wf_def)
    ultimately show "keys_of q c = (if block_id c \<in> set (i # ids) \<and> in_pool p c then [] else keys_of p c)"
      using q(4) p1(4) same_refs_in_pool [OF p1(3)] by auto
  qed
  ultimately show ?case using q same_refs_trans [OF p1(3) q(3)] by auto
qed

lemma reset_hashes:
  "fold reset_hash bs h b = (if b \<in> set bs then (h b)\<lparr>block_hash := None, block_hash_num_tokens := None\<rparr> else h b)"
  by (induction bs arbitrary: h) (auto simp: reset_hash_def)

lemma reset_prefix_cache_spec:
  assumes wf: "pool_wf p xs"
  shows "if num_gpu_blocks p - int (length xs) = 1
    then \<exists>q. reset_prefix_cache p = Inr (True, q) \<and> pool_wf q xs \<and> config q = config p \<and> (\<forall>c. keys_of q c = [])
      \<and> (\<forall>k. entries (cached_block_hash_to_block q) k = []) \<and> reuse_watchers q = []
      \<and> (\<forall>c. ref_cnt (heap q c) = ref_cnt (heap p c))
    else reset_prefix_cache p = Inr (False, p)"
proof -
  have pw: "pending_wf p xs []" and iw: "index_wf p" and ww: "watch_wf p" using wf by (simp_all add: pool_wf_def)
  have len: "get_num_free_blocks p = int (length xs)"
    using pw fq.count_length by (simp add: get_num_free_blocks_def pending_wf_def)
  show ?thesis
  proof (cases "num_gpu_blocks p - int (length xs) = 1")
    case True
    define p1 where "p1 = p\<lparr>cached_block_hash_to_block := empty_map, cached_block_hashes_by_block := Map.empty\<rparr>"
    define ws where "ws = map (\<lambda>i. Blk (nat i)) (map fst (reuse_watchers p))"
    have "py_index (pool_blocks p1) i = Inr (Blk (nat i))" if "i \<in> fst ` set (reuse_watchers p)" for i
      using ww that by (auto simp: watch_wf_def in_pool_def pool_blocks_def p1_def py_index_eq zless_nat_eq_int_zless)
    then have mp: "mapE (py_index (pool_blocks p1)) (map fst (reuse_watchers p)) = Inr ws"
      unfolding ws_def by (intro mapE_Inr) auto
    define p2 where "p2 = notify_reuse ws p1"
    have w2: "reuse_watchers p2 = []"
    proof -
      have "i \<in> block_id ` set ws" if "(i, w) \<in> set (reuse_watchers p)" for i w
        using that ww by (force simp: ws_def watch_wf_def in_pool_def image_iff)
      then show ?thesis by (auto simp: p2_def notify_reuse_watchers p1_def filter_empty_conv)
    qed
    have wp: "reuse_watchers p1 = reuse_watchers p" by (simp add: p1_def)
    have sel: "(if reuse_watchers p1 \<noteq> []
        then bindE (mapE (py_index (pool_blocks p1)) (map fst (reuse_watchers p1))) (\<lambda>bs. Inr (notify_reuse bs p1))
        else Inr p1) = Inr p2"
      unfolding wp using mp by (auto simp: p2_def ws_def notify_reuse_def)
    define p3 where "p3 = set_heap (fold reset_hash (pool_blocks p2) (heap p2)) p2"
    define q where "q = (let p4 = call_metrics OnReset p3 in
      if enable_kv_cache_events p4 then push_event AllBlocksCleared p4 else p4)"
    have run: "reset_prefix_cache p = Inr (True, q)"
      using True unfolding reset_prefix_cache_def len p1_def [symmetric] Let_def
      by (simp add: sel [unfolded Let_def] q_def p3_def Let_def)
    have c: "core q = core p3" by (simp add: q_def Let_def)
    have f2: "num_gpu_blocks p2 = num_gpu_blocks p" "free_block_queue p2 = free_block_queue p"
      "cached_block_hash_to_block p2 = empty_map" "cached_block_hashes_by_block p2 = Map.empty" "config p2 = config p"
      by (simp_all add: p2_def p1_def notify_reuse_fields notify_reuse_wf) (simp add: config_def)
    have "pending_wf p3 xs []"
      using pw by (rule pending_wf_cong) (simp_all add: p3_def f2 reset_hashes)
    moreover have h3: "block_hash (heap p3 b) = None" "block_hash_num_tokens (heap p3 b) = None" for b
    proof -
      have "in_pool p b \<Longrightarrow> b \<in> set (pool_blocks p2)"
        by (auto simp: in_pool_def pool_blocks_def f2)
      moreover have "\<not> in_pool p b \<Longrightarrow> block_hash (heap p b) = None \<and> block_hash_num_tokens (heap p b) = None"
        using iw keys_of_Nil [OF iw, of b] by (simp add: index_wf_def)
      ultimately show "block_hash (heap p3 b) = None" "block_hash_num_tokens (heap p3 b) = None"
        by (auto simp: p3_def reset_hashes f2)
    qed
    have k3: "keys_of p3 b = []" for b using h3 by (simp add: keys_of_def extra_keys_of_def) (simp add: p3_def f2)
    moreover have "index_wf p3" using h3 k3 by (simp add: index_wf_def) (simp add: p3_def f2)
    moreover have "watch_wf p3" by (simp add: watch_wf_def p3_def w2)
    ultimately have "pool_wf p3 xs" by (simp add: pool_wf_def)
    with core_wf [OF c] have "pool_wf q xs" by simp
    moreover have "config q = config p" "heap q = heap p3" "reuse_watchers q = []" "cached_block_hash_to_block q = empty_map"
      using f2(5) coreD [OF c] by (simp_all add: config_def p3_def w2 f2)
    moreover have "keys_of q b = []" for b using core_keys [OF c] k3 by simp
    moreover have "ref_cnt (heap p3 b) = ref_cnt (heap p b)" for b by (simp add: p3_def reset_hashes f2)
    ultimately show ?thesis using True run by simp
  qed (simp add: reset_prefix_cache_def len Let_def)
qed

lemma init_pool_spec:
  assumes "n > 0"
  shows "\<exists>p. init_pool n caching hbs evs mets md ui = Inr p \<and> pool_wf p (map Blk [1..<nat n])
    \<and> config p = (n, caching, hbs, evs) \<and> (\<forall>c. keys_of p c = []) \<and> (\<forall>c. ref_cnt (heap p c) = 0)"
proof -
  let ?bs = "map Blk [0..<nat n]"
  define q0 where "q0 = init_queue ?bs (\<lambda>_. new_block)"
  have iq: "queue_of q0 ?bs \<and> (\<forall>i. payload (store q0) (Blk i) = payload (\<lambda>_. new_block) (Blk i))"
    unfolding q0_def by (rule init_queue_spec) (auto simp: distinct_map inj_on_def new_block_def)
  have "payload (store q0) c = payload (\<lambda>_. new_block) c" for c
  proof (cases c)
    case (Blk i)
    with iq show ?thesis by simp
  qed (simp_all add: q0_def init_queue_def Let_def payload_def set_next_def set_prev_def)
  then have pl: "payload (store q0) = payload (\<lambda>_. new_block)" by (rule ext)
  have "?bs = Blk 0 # map Blk [1..<nat n]" using assms by (simp add: upt_rec)
  with iq obtain q where q: "popleft q0 = Inr (Blk 0, q)" "queue_of q (map Blk [1..<nat n])"
      "payload (store q) = payload (store q0)" using popleft_Cons [of q0 "Blk 0"] by auto
  note f = payload_eqD [OF q(3) [unfolded pl], unfolded new_block_def, simplified]
  define p where "p = \<lparr>num_gpu_blocks = n, pool_medium = md, enable_caching = caching, hash_block_size = hbs,
    free_block_queue = q\<lparr>store := (store q)(Blk 0 := (store q (Blk 0))\<lparr>is_null := True\<rparr>)\<rparr>,
    cached_block_hash_to_block = empty_map, cached_block_hashes_by_block = Map.empty,
    enable_kv_cache_events = evs, use_int_block_hashes = ui, kv_event_queue = [],
    metrics_collector = (if mets then Some [] else None), reuse_watchers = [], reuse_fired = []\<rparr>"
  have run: "init_pool n caching hbs evs mets md ui = Inr p"
    using assms q(1) by (simp add: init_pool_def p_def flip: q0_def)
  have h: "ref_cnt (heap p c) = 0" "block_hash (heap p c) = None" "block_hash_num_tokens (heap p c) = None"
    "is_null (heap p c) \<longleftrightarrow> c = null_block" for c
    using f by (simp_all add: p_def null_block_def)
  have "queue_of (free_block_queue p) (map Blk [1..<nat n]) = queue_of q (map Blk [1..<nat n])"
    by (rule queue_of_cong) (simp_all add: p_def)
  then have "pending_wf p (map Blk [1..<nat n]) []"
    using assms q(2) h by (auto simp: pending_wf_def in_pool_def p_def distinct_map inj_on_def)
  moreover have k: "keys_of p c = []" for c using h by (simp add: keys_of_def extra_keys_of_def) (simp add: p_def)
  moreover have "index_wf p" using h k by (simp add: index_wf_def) (simp add: p_def)
  moreover have "watch_wf p" by (simp add: watch_wf_def p_def)
  ultimately show ?thesis using run h by (intro exI [of _ p]) (simp add: pool_wf_def config_def p_def)
qed

subsection \<open>Moving keys\<close>

lemma insert_keys_fold:
  assumes "index_wf p" "in_pool p b" "distinct (keys_of p b @ ks)"
  shows "\<exists>q. foldE (\<lambda>k. insert_block_hash k b nt) ks p = Inr q \<and> index_wf q \<and> same_refs p q
    \<and> keys_of q = (keys_of p)(b := keys_of p b @ ks)"
  using assms
proof (induction ks arbitrary: p)
  case (Cons k ks)
  then obtain p1 where p1: "insert_block_hash k b nt p = Inr p1" "index_wf p1" "same_refs p p1"
      "keys_of p1 = (keys_of p)(b := keys_of p b @ [k])"
    using insert_block_hash_spec [OF Cons.prems(1,2), of k nt] by (auto simp: set_add_def)
  have "in_pool p1 b" "distinct (keys_of p1 b @ ks)"
    using Cons.prems(2,3) same_refs_in_pool [OF p1(3)] p1(4) by auto
  from Cons.IH [OF p1(2) this] obtain q where "foldE (\<lambda>k. insert_block_hash k b nt) ks p1 = Inr q"
      "index_wf q" "same_refs p1 q" "keys_of q = (keys_of p1)(b := keys_of p1 b @ ks)" by blast
  with p1 same_refs_trans show ?case by fastforce
qed auto

lemma move_block_hashes_spec:
  assumes wf: "pool_wf p xs" and dst: "in_pool p dst" "keys_of p dst = []"
  shows "\<exists>q. move_block_hashes src dst p = Inr q \<and> pool_wf q xs \<and> same_refs p q
    \<and> keys_of q = (keys_of p)(src := [], dst := keys_of p src)"
proof -
  have iw: "index_wf p" using wf by (simp add: pool_wf_def)
  obtain p1 where p1: "remove_cached_block_hashes src p = (keys_of p src, p1)" "index_wf p1" "same_refs p p1"
      "keys_of p1 = (keys_of p)(src := [])"
    using remove_cached_block_hashes_spec [OF iw] by blast
  have "in_pool p1 dst" "keys_of p1 dst = []" using dst p1(4) same_refs_in_pool [OF p1(3)] by auto
  moreover have "distinct (keys_of p src)" using iw by (simp add: index_wf_def)
  ultimately obtain q where q: "foldE (\<lambda>k. insert_block_hash k dst (block_hash_num_tokens (heap p src)))
        (keys_of p src) p1 = Inr q" "index_wf q" "same_refs p1 q"
      "keys_of q = (keys_of p1)(dst := keys_of p src)"
    using insert_keys_fold [OF p1(2), of dst "keys_of p src"] by auto
  have sr: "same_refs p q" by (rule same_refs_trans [OF p1(3) q(3)])
  have "block_hash (heap p dst) = None" "cached_block_hashes_by_block p (block_id dst) = None"
    using keys_of_Nil [OF iw, of dst] dst(2) iw by (simp_all add: index_wf_def)
  then have "move_block_hashes src dst p = Inr q" using p1(1) q(1) by (simp add: move_block_hashes_def Let_def)
  with q(4) p1(4) sr same_refs_pool_wf [OF sr q(2) wf] show ?thesis by auto
qed

end
