(* ===== verification/Pool_Cache.thy ===== *)
theory Pool_Cache
  imports Pool_Inv
begin

text \<open>
  Lookup and registration in the prefix cache under the pool invariant: what a lookup returns,
  and that registering full and partial blocks gives each block exactly its key.
\<close>

subsection \<open>Lookup\<close>

definition pack_key :: "block_hash \<Rightarrow> int \<Rightarrow> hash_key" where
  "pack_key h g = h @ be_bytes 4 g"

definition group_ok :: "int \<Rightarrow> bool" where
  "group_ok g \<longleftrightarrow> 0 \<le> g \<and> g < 2 ^ 32"

lemma make_key_pack: "group_ok g \<Longrightarrow> make_block_hash_with_group_id h g = Inr (pack_key h g)"
  by (simp add: make_key_Inr group_ok_def pack_key_def)

lemma pack_key_inject:
  assumes "group_ok g" "group_ok g'"
  shows "pack_key h g = pack_key h' g' \<longleftrightarrow> h = h' \<and> g = g'"
  using assms be_bytes_inj [of g 4 g'] by (auto simp: pack_key_def group_ok_def)

lemma get_cached_block_spec:
  assumes "index_wf p" "\<forall>g \<in> set gs. group_ok g"
  shows "get_cached_block h gs p =
    Inr (if \<forall>g \<in> set gs. \<exists>b. in_pool p b \<and> pack_key h g \<in> set (keys_of p b)
         then Some (map (\<lambda>g. hd (entries (cached_block_hash_to_block p) (pack_key h g))) gs) else None)"
  using assms(2)
proof (induction gs)
  case (Cons g gs)
  let ?e = "entries (cached_block_hash_to_block p) (pack_key h g)"
  have mw: "map_wf (cached_block_hash_to_block p)"
    and ent: "\<And>b. b \<in> set ?e \<longleftrightarrow> in_pool p b \<and> pack_key h g \<in> set (keys_of p b)"
    using assms(1) by (auto simp: index_wf_def)
  have g: "make_block_hash_with_group_id h g = Inr (pack_key h g)" using Cons.prems by (simp add: make_key_pack)
  show ?case
  proof (cases ?e)
    case Nil
    with ent have "\<not> (\<exists>b. in_pool p b \<and> pack_key h g \<in> set (keys_of p b))" by auto
    with Nil g bm.first_ents [OF mw, of "pack_key h g"] show ?thesis by auto
  next
    case (Cons b bs)
    then have "\<exists>b. in_pool p b \<and> pack_key h g \<in> set (keys_of p b)" using ent by auto
    with Cons g bm.first_ents [OF mw, of "pack_key h g"] Cons.IH Cons.prems show ?thesis
      by (simp add: \<open>\<forall>g \<in> set (g # gs). group_ok g\<close>)
  qed
qed simp

lemma lookup_hit_in_pool:
  assumes "index_wf p" "in_pool p b" "k \<in> set (keys_of p b)"
  shows "in_pool p (hd (entries (cached_block_hash_to_block p) k))
    \<and> k \<in> set (keys_of p (hd (entries (cached_block_hash_to_block p) k)))"
proof -
  have "b \<in> set (entries (cached_block_hash_to_block p) k)" using assms by (simp add: index_wf_def)
  then have "hd (entries (cached_block_hash_to_block p) k) \<in> set (entries (cached_block_hash_to_block p) k)"
    by (cases "entries (cached_block_hash_to_block p) k") auto
  then show ?thesis using assms(1) by (simp add: index_wf_def)
qed

subsection \<open>Full blocks\<close>

definition kept :: "bool list option \<Rightarrow> nat \<Rightarrow> bool" where
  "kept bmask i = (case bmask of None \<Rightarrow> True | Some bm \<Rightarrow> bm ! i)"

definition mask_ok :: "bool list option \<Rightarrow> nat \<Rightarrow> bool" where
  "mask_ok bmask n = (case bmask of None \<Rightarrow> True | Some bm \<Rightarrow> length bm = n)"

text \<open>A block that may be registered with a prefix of \<open>t\<close> tokens: no key, or a shorter one.\<close>

definition promotable :: "block_pool \<Rightarrow> block_ref \<Rightarrow> int \<Rightarrow> bool" where
  "promotable p b t \<longleftrightarrow> block_hash (heap p b) = None
     \<or> (\<exists>u. block_hash_num_tokens (heap p b) = Some u \<and> u < t)"

lemma skip_block_spec:
  assumes "is_null (heap p b) \<longleftrightarrow> b = null_block" "mask_ok bmask n" "i < n"
  shows "skip_block bmask (int i) b p = Inr (b = null_block \<or> \<not> kept bmask i)"
  using assms by (auto simp: skip_block_def mask_ok_def kept_def py_index_nat split: option.splits)

lemma same_refs_null: "same_refs p q \<Longrightarrow> is_null (heap q b) = is_null (heap p b)"
  by (simp add: same_refs_def)

lemma reregister_spec:
  assumes iw: "index_wf p" and b: "in_pool p b"
  shows "\<exists>q. (let (removed, p1) = remove_cached_block_hashes b p in
      insert_block_hash key b nt (emit_block_removed_events removed p1)) = Inr q
    \<and> index_wf q \<and> same_refs p q \<and> keys_of q = (keys_of p)(b := [key])
    \<and> (\<forall>c. c \<noteq> b \<longrightarrow> heap q c = heap p c)"
proof -
  obtain p1 where p1: "remove_cached_block_hashes b p = (keys_of p b, p1)" "index_wf p1" "same_refs p p1"
      "keys_of p1 = (keys_of p)(b := [])" "\<forall>c. c \<noteq> b \<longrightarrow> heap p1 c = heap p c"
    using remove_cached_block_hashes_spec [OF iw] by blast
  let ?p2 = "emit_block_removed_events (keys_of p b) p1"
  have c: "core ?p2 = core p1" by simp
  have sr2: "same_refs p ?p2"
    using p1(3) same_refs_core [OF c [symmetric]] by (rule same_refs_trans)
  have "index_wf ?p2" "in_pool ?p2 b" "keys_of ?p2 = (keys_of p)(b := [])"
    using core_index_wf [OF c] p1(2,4) b same_refs_in_pool [OF sr2] core_keys [OF c] by auto
  then obtain q where q: "insert_block_hash key b nt ?p2 = Inr q" "index_wf q" "same_refs ?p2 q"
      "keys_of q = (keys_of p)(b := [key])" "\<forall>c. c \<noteq> b \<longrightarrow> heap q c = heap ?p2 c"
    using insert_block_hash_spec [of ?p2 b key nt] by (auto simp: set_add_def)
  then show ?thesis using p1(1,5) same_refs_trans [OF sr2 q(3)] coreD(2) [OF c] by auto
qed

lemma cache_full_block_spec:
  assumes iw: "index_wf p" and b: "in_pool p b" and nn: "\<not> is_null (heap p b)" and mk: "mask_ok bmask n" "i < n" "kept bmask i"
    and h: "i < length nbh" and g: "group_ok gid" and pr: "promotable p b ((nc + int i + 1) * bs)"
  shows "\<exists>q hs'. cache_full_block nbh nc bs gid bmask (i, b) (p, hs) = Inr (q, hs')
    \<and> index_wf q \<and> same_refs p q \<and> keys_of q = (keys_of p)(b := [pack_key (nbh ! i) gid])
    \<and> (\<forall>c. c \<noteq> b \<longrightarrow> heap q c = heap p c)"
proof -
  let ?key = "pack_key (nbh ! i) gid" and ?t = "(nc + int i + 1) * bs"
  have skip: "skip_block bmask (int i) b p = Inr False"
    using skip_block_spec [OF _ mk(1,2), of p b] nn b mk(3) in_pool_not_null by auto
  obtain q where q: "bindE (if block_hash (heap p b) \<noteq> None
        then bindE (assertE (case block_hash_num_tokens (heap p b) of None \<Rightarrow> False | Some t \<Rightarrow> t < ?t)) (\<lambda>_.
          (let (removed, p1) = remove_cached_block_hashes b p in Inr (emit_block_removed_events removed p1)))
        else Inr p) (insert_block_hash ?key b (Some ?t)) = Inr q"
      "index_wf q" "same_refs p q" "keys_of q = (keys_of p)(b := [?key])" "\<forall>c. c \<noteq> b \<longrightarrow> heap q c = heap p c"
  proof (cases "block_hash (heap p b) = None")
    case True
    then have "keys_of p b = []" using keys_of_Nil [OF iw] by simp
    with insert_block_hash_spec [OF iw b, of ?key "Some ?t"] True that show ?thesis
      by (auto simp: set_add_def)
  next
    case False
    with pr obtain u where "block_hash_num_tokens (heap p b) = Some u" "u < ?t" by (auto simp: promotable_def)
    with False reregister_spec [OF iw b, of ?key "Some ?t"] that show ?thesis
      by (auto simp: Let_def split: prod.splits)
  qed
  from q(1) obtain p1 where p1: "(if block_hash (heap p b) \<noteq> None
        then bindE (assertE (case block_hash_num_tokens (heap p b) of None \<Rightarrow> False | Some t \<Rightarrow> t < ?t)) (\<lambda>_.
          (let (removed, p1) = remove_cached_block_hashes b p in Inr (emit_block_removed_events removed p1)))
        else Inr p) = Inr p1" "insert_block_hash ?key b (Some ?t) p1 = Inr q"
    by (rule bindE_InrE)
  have "cache_full_block nbh nc bs gid bmask (i, b) (p, hs)
      = Inr (q, map_option (\<lambda>l. l @ [convert_hash q (nbh ! i)]) hs)"
    unfolding cache_full_block_def Let_def prod.case skip bindE_Inr if_False py_index_nat [OF h] make_key_pack [OF g]
      p1(1) [unfolded Let_def] p1(2) ..
  with q show ?thesis by blast
qed

text \<open>The whole loop: every registered block ends up with exactly its key.\<close>

lemma cache_full_loop:
  assumes "index_wf p" "\<And>b. is_null (heap p b) \<longleftrightarrow> b = null_block"
    and "mask_ok bmask n" "s + length bl \<le> n" "s + length bl \<le> length nbh" "group_ok gid"
    and "\<forall>b \<in> set bl. b = null_block \<or> in_pool p b" "distinct (filter (\<lambda>b. b \<noteq> null_block) bl)"
    and "\<forall>i < length bl. bl ! i \<noteq> null_block \<longrightarrow> kept bmask (s + i) \<longrightarrow> promotable p (bl ! i) ((nc + int (s + i) + 1) * bs)"
  shows "\<exists>q hs'. foldE (cache_full_block nbh nc bs gid bmask) (enumerate s bl) (p, hs) = Inr (q, hs')
    \<and> index_wf q \<and> same_refs p q
    \<and> (\<forall>c. c \<notin> set bl \<or> c = null_block \<longrightarrow> keys_of q c = keys_of p c)
    \<and> (\<forall>i < length bl. bl ! i \<noteq> null_block \<longrightarrow> keys_of q (bl ! i) =
         (if kept bmask (s + i) then [pack_key (nbh ! (s + i)) gid] else keys_of p (bl ! i)))"
  using assms
proof (induction bl arbitrary: s p hs)
  case (Cons b bl)
  let ?do = "b \<noteq> null_block \<and> kept bmask s"
  have skp: "skip_block bmask (int s) b p = Inr (b = null_block \<or> \<not> kept bmask s)"
    using Cons.prems(2-4) by (intro skip_block_spec) auto
  obtain p1 hs1 where p1: "cache_full_block nbh nc bs gid bmask (s, b) (p, hs) = Inr (p1, hs1)" "index_wf p1"
      "same_refs p p1" "keys_of p1 = (if ?do then (keys_of p)(b := [pack_key (nbh ! s) gid]) else keys_of p)"
      "\<forall>c. c \<noteq> b \<longrightarrow> heap p1 c = heap p c"
  proof (cases ?do)
    case True
    have "promotable p b ((nc + int s + 1) * bs)" using Cons.prems(9) True by (auto dest: spec [of _ 0])
    then have "\<exists>q hs'. cache_full_block nbh nc bs gid bmask (s, b) (p, hs) = Inr (q, hs')
      \<and> index_wf q \<and> same_refs p q \<and> keys_of q = (keys_of p)(b := [pack_key (nbh ! s) gid])
      \<and> (\<forall>c. c \<noteq> b \<longrightarrow> heap q c = heap p c)"
      using Cons.prems True by (intro cache_full_block_spec) auto
    with True that show ?thesis by auto
  next
    case False
    then have "cache_full_block nbh nc bs gid bmask (s, b) (p, hs) = Inr (p, hs)"
      using skp by (auto simp: cache_full_block_def)
    with False that Cons.prems(1) show ?thesis by auto
  qed
  have nb: "c \<noteq> b" if "c \<in> set bl" "c \<noteq> null_block" for c using Cons.prems(8) that by (auto split: if_splits)
  have 1: "\<And>c. is_null (heap p1 c) \<longleftrightarrow> c = null_block"
    using Cons.prems(2) same_refs_null [OF p1(3)] by simp
  have 2: "\<forall>c \<in> set bl. c = null_block \<or> in_pool p1 c"
    using Cons.prems(7) same_refs_in_pool [OF p1(3)] by simp
  have 3: "\<forall>i < length bl. bl ! i \<noteq> null_block \<longrightarrow> kept bmask (Suc s + i)
      \<longrightarrow> promotable p1 (bl ! i) ((nc + int (Suc s + i) + 1) * bs)"
  proof (intro allI impI)
    fix i assume i: "i < length bl" "bl ! i \<noteq> null_block" "kept bmask (Suc s + i)"
    then have "heap p1 (bl ! i) = heap p (bl ! i)" using p1(5) nb by simp
    with i Cons.prems(9) [rule_format, of "Suc i"] show "promotable p1 (bl ! i) ((nc + int (Suc s + i) + 1) * bs)"
      by (simp add: promotable_def algebra_simps)
  qed
  have "Suc s + length bl \<le> n" "Suc s + length bl \<le> length nbh" "distinct (filter (\<lambda>b. b \<noteq> null_block) bl)"
    using Cons.prems(4,5,8) by (auto split: if_splits)
  from Cons.IH [OF p1(2) 1 Cons.prems(3) this(1,2) Cons.prems(6) 2 this(3) 3, of hs1] obtain q hs' where
    q: "foldE (cache_full_block nbh nc bs gid bmask) (enumerate (Suc s) bl) (p1, hs1) = Inr (q, hs')" "index_wf q"
      "same_refs p1 q" "\<forall>c. c \<notin> set bl \<or> c = null_block \<longrightarrow> keys_of q c = keys_of p1 c"
      "\<forall>i < length bl. bl ! i \<noteq> null_block \<longrightarrow> keys_of q (bl ! i) =
         (if kept bmask (Suc s + i) then [pack_key (nbh ! (Suc s + i)) gid] else keys_of p1 (bl ! i))"
    by blast
  have "keys_of q ((b # bl) ! i) =
      (if kept bmask (s + i) then [pack_key (nbh ! (s + i)) gid] else keys_of p ((b # bl) ! i))"
    if "i < length (b # bl)" "(b # bl) ! i \<noteq> null_block" for i
  proof (cases i)
    case 0
    with that nb have "b \<notin> set bl" by auto
    with that 0 q(4) p1(4) show ?thesis by auto
  next
    case (Suc k)
    with that have "keys_of p1 (bl ! k) = keys_of p (bl ! k)" using p1(4) nb by auto
    with that Suc q(5) show ?thesis by simp
  qed
  moreover have "keys_of q c = keys_of p c" if "c \<notin> set (b # bl) \<or> c = null_block" for c
    using that q(4) p1(4) by auto
  ultimately show ?case using p1(1) q(1,2) same_refs_trans [OF p1(3) q(3)] by auto
qed simp


lemma extra_keys_loop:
  assumes "\<And>i. i \<in> set js \<Longrightarrow> \<exists>skip. g i = Inr skip" "0 \<le> idx"
  shows "\<exists>acc' j m. foldE (\<lambda>i st. bindE (g i) (\<lambda>skip. if skip then Inr st else extra_keys_step dig bs i st))
      js (acc, idx, r) = Inr (acc', j, with_memo r m)"
proof -
  let ?P = "\<lambda>ys st. set ys \<subseteq> set js \<and> 0 \<le> fst (snd st) \<and> (\<exists>m. snd (snd st) = with_memo r m)"
  let ?f = "\<lambda>i st. bindE (g i) (\<lambda>skip. if skip then Inr st else extra_keys_step dig bs i st)"
  have "\<exists>s'. foldE ?f js (acc, idx, r) = Inr s' \<and> ?P [] s'"
  proof (rule foldE_invariant)
    show "?P js (acc, idx, r)" using assms(2) by (auto intro: exI [of _ "prompt_embeds_per_block_hashes r"])
  next
    fix y ys and t :: "extra_key list option list \<times> int \<times> request"
    assume P: "?P (y # ys) t"
    obtain a x r' where t: "t = (a, x, r')" by (cases t)
    from P t obtain m where m: "r' = with_memo r m" "0 \<le> x" by auto
    obtain sk where sk: "g y = Inr sk" using P assms(1) [of y] by auto
    obtain ks j m' where gen: "generate_block_hash_extra_keys dig r' (y * bs) (y * bs + bs) x = Inr (ks, j, with_memo r' m')"
        "0 \<le> j" using generate_nonneg [OF m(2)] by blast
    show "\<exists>t'. ?f y t = Inr t' \<and> ?P ys t'"
    proof (cases sk)
      case True
      with P sk show ?thesis by (intro exI [of _ t]) simp
    next
      case False
      have "with_memo r' m' = with_memo r m'" by (simp add: m)
      then have "\<exists>m. with_memo r' m' = with_memo r m" by blast
      with False P sk gen show ?thesis
        by (intro exI [of _ "(a @ [ks], j, with_memo r' m')"]) (simp add: t extra_keys_step_def)
    qed
  qed
  then obtain s' m where s: "foldE ?f js (acc, idx, r) = Inr s'" "snd (snd s') = with_memo r m" by blast
  then have "s' = (fst s', fst (snd s'), with_memo r m)" by (metis prod.collapse)
  with s(1) show ?thesis by metis
qed

text \<open>When \<open>cache_full_blocks\<close> may be called, with block size \<open>c\<close> hash blocks.\<close>

definition full_blocks_ok ::
  "block_pool \<Rightarrow> request \<Rightarrow> block_ref list \<Rightarrow> nat \<Rightarrow> nat \<Rightarrow> nat \<Rightarrow> int \<Rightarrow> bool list option \<Rightarrow> bool" where
  "full_blocks_ok p r blocks nc nf c gid bmask \<longleftrightarrow>
     hash_block_size p > 0 \<and> c > 0 \<and> nc \<le> nf \<and> nf \<le> length blocks \<and> nf * c \<le> length (block_hashes r)
     \<and> group_ok gid \<and> mask_ok bmask (nf - nc)
     \<and> (\<forall>i. nc \<le> i \<and> i < nf \<longrightarrow> blocks ! i = null_block \<or> in_pool p (blocks ! i)
          \<and> (kept bmask (i - nc) \<longrightarrow> promotable p (blocks ! i) (int (i + 1) * (int c * hash_block_size p))))
     \<and> distinct (filter (\<lambda>b. b \<noteq> null_block) (take (nf - nc) (drop nc blocks)))"

lemma cache_full_blocks_spec:
  assumes wf: "pool_wf p xs" and ok: "full_blocks_ok p r blocks nc nf c gid bmask"
  shows "\<exists>m q. cache_full_blocks dig r blocks (int nc) (int nf) (int c * hash_block_size p) gid bmask p
      = Inr (with_memo r m, q)
    \<and> pool_wf q xs \<and> same_refs p q
    \<and> (\<forall>b. b \<notin> set (take (nf - nc) (drop nc blocks)) \<or> b = null_block \<longrightarrow> keys_of q b = keys_of p b)
    \<and> (\<forall>i. nc \<le> i \<and> i < nf \<and> blocks ! i \<noteq> null_block \<longrightarrow> keys_of q (blocks ! i) =
         (if kept bmask (i - nc) then [pack_key (block_hashes r ! ((i + 1) * c - 1)) gid] else keys_of p (blocks ! i)))"
proof (cases "nc = nf")
  case True
  with wf show ?thesis
    by (intro exI [of _ "prompt_embeds_per_block_hashes r"] exI [of _ p]) (auto simp: cache_full_blocks_def)
next
  case False
  let ?hs = "block_hashes r" and ?bs = "int c * hash_block_size p"
  define bl where "bl = take (nf - nc) (drop nc blocks)"
  have o: "hash_block_size p > 0" "c > 0" "nc < nf" "nf \<le> length blocks" "nf * c \<le> length ?hs" "group_ok gid"
      "mask_ok bmask (nf - nc)" "distinct (filter (\<lambda>b. b \<noteq> null_block) bl)"
    using ok False by (auto simp: full_blocks_ok_def bl_def)
  have iw: "index_wf p" and nul: "\<And>b. is_null (heap p b) \<longleftrightarrow> b = null_block"
    using wf by (auto simp: pool_wf_def pending_wf_def)
  obtain l where l: "resolve_block_hashes (RawHashes ?hs) (hash_block_size p) ?bs False None = Inr l"
      "\<forall>i < length ?hs div c. bhl_get l (int i) = Inr (?hs ! ((i + 1) * c - 1))"
      "bhl_from l (int nc) = Inr (map (\<lambda>i. ?hs ! ((i + 1) * c - 1)) [nc..<length ?hs div c])"
    using resolve_raw [OF o(1,2), of ?hs] o(2,3,5) by (auto simp: less_eq_div_iff_mult_less_eq
        dest!: spec [of _ "int nc"] intro: order_trans [OF mult_le_mono1 [OF less_imp_le [OF o(3)]]])
  define nbh where "nbh = map (\<lambda>i. ?hs ! ((i + 1) * c - 1)) [nc..<length ?hs div c]"
  have nfd: "nf \<le> length ?hs div c" using o(2,5) by (simp add: less_eq_div_iff_mult_less_eq)
  have len: "length bl = nf - nc" "length nbh \<ge> nf - nc" using o(3,4) nfd by (simp_all add: nbh_def bl_def)
  have nth: "bl ! i = blocks ! (nc + i)" "nbh ! i = ?hs ! ((nc + i + 1) * c - 1)" if "i < nf - nc" for i
  proof -
    have le: "nc + i < length ?hs div c" using that nfd by linarith
    then have "i < length ?hs div c - nc" by linarith
    with nth_upt [OF le] that o(4) show "bl ! i = blocks ! (nc + i)" "nbh ! i = ?hs ! ((nc + i + 1) * c - 1)"
      by (simp_all add: nbh_def bl_def)
  qed
  have slice: "py_slice (int nc) (int nf) blocks = bl" by (simp add: py_slice_int Prelude.slice_def bl_def)
  have okb: "bl ! i = null_block \<or> in_pool p (bl ! i)
      \<and> (kept bmask i \<longrightarrow> promotable p (bl ! i) (int (nc + i + 1) * ?bs))" if "i < nf - nc" for i
  proof -
    have "nc \<le> nc + i \<and> nc + i < nf" "nc + i - nc = i" using that by auto
    with ok nth(1) [OF that] show ?thesis unfolding full_blocks_ok_def by metis
  qed
  have cond: "\<forall>b \<in> set bl. b = null_block \<or> in_pool p b"
  proof
    fix b assume "b \<in> set bl"
    then obtain i where "i < nf - nc" "b = bl ! i" unfolding in_set_conv_nth len(1) by blast
    with okb show "b = null_block \<or> in_pool p b" by blast
  qed
  have prom: "\<forall>i < length bl. bl ! i \<noteq> null_block \<longrightarrow> kept bmask (0 + i)
      \<longrightarrow> promotable p (bl ! i) ((int nc + int (0 + i) + 1) * ?bs)"
    using okb len(1) by (auto simp: algebra_simps)
  obtain q hs' where q: "foldE (cache_full_block nbh (int nc) ?bs gid bmask) (enumerate 0 bl)
        (p, if enable_kv_cache_events p then Some [] else None) = Inr (q, hs')" "index_wf q" "same_refs p q"
      "\<forall>c. c \<notin> set bl \<or> c = null_block \<longrightarrow> keys_of q c = keys_of p c"
      "\<forall>i < length bl. bl ! i \<noteq> null_block \<longrightarrow> keys_of q (bl ! i) =
         (if kept bmask i then [pack_key (nbh ! i) gid] else keys_of p (bl ! i))"
    using cache_full_loop [OF iw nul o(7) _ _ o(6) cond o(8) prom, of nbh
        "if enable_kv_cache_events p then Some [] else None"] len by auto
  have ev: "enable_kv_cache_events q = enable_kv_cache_events p" using q(3) by (simp add: same_refs_def)
  have nulq: "\<And>b. is_null (heap q b) \<longleftrightarrow> b = null_block" using nul same_refs_null [OF q(3)] by simp
  have "\<exists>parent. (if int nc = 0 then Inr None
      else bindE (bhl_get l (int nc - 1)) (\<lambda>h. Inr (Some (convert_hash q h)))) = Inr parent"
    using l(2) [rule_format, of "nc - 1"] nfd o(3) by (cases nc) auto
  then obtain parent where par: "(if int nc = 0 then Inr None
      else bindE (bhl_get l (int nc - 1)) (\<lambda>h. Inr (Some (convert_hash q h)))) = Inr parent" by blast
  define sk where "sk = (\<lambda>i. bindE (py_index blocks i) (\<lambda>blk. skip_block bmask (i - int nc) blk q))"
  have "\<exists>b. sk i = Inr b" if "i \<in> set [int nc..int nf - 1]" for i
  proof -
    have i: "int nc \<le> i" "i < int nf" using that by auto
    then have "i - int nc = int (nat (i - int nc))" "nat (i - int nc) < nf - nc" by auto
    moreover have "py_index blocks i = Inr (blocks ! nat i)" using i o(4) by (intro py_index_nth) auto
    ultimately show ?thesis
      using skip_block_spec [OF nulq o(7), of "nat (i - int nc)"] by (simp add: sk_def)
  qed
  then have "\<exists>ks j m. foldE (\<lambda>i st. bindE (sk i) (\<lambda>skip. if skip then Inr st else extra_keys_step dig ?bs i st))
      [int nc..int nf - 1] ([], 0, r) = Inr (ks, j, with_memo r m)"
    by (rule extra_keys_loop) simp_all
  then obtain ks j m where
    kl: "foldE (\<lambda>i st. bindE (sk i) (\<lambda>skip. if skip then Inr st else extra_keys_step dig ?bs i st))
      [int nc..int nf - 1] ([], 0, r) = Inr (ks, j, with_memo r m)" by blast
  define q' m' where "q' = (if enable_kv_cache_events p then push_event (build_block_stored_event q (with_memo r m) hs'
      parent (int nc * ?bs) (int nf * ?bs) ?bs gid ks) q else q)"
    and "m' = (if enable_kv_cache_events p then m else prompt_embeds_per_block_hashes r)"
  have run: "cache_full_blocks dig r blocks (int nc) (int nf) ?bs gid bmask p = Inr (with_memo r m', q')"
  proof -
    have "(case bmask of None \<Rightarrow> True | Some bm \<Rightarrow> length bm = length bl)"
      using o(7) unfolding mask_ok_def len(1) .
    then have as: "assertE (case bmask of None \<Rightarrow> True | Some bm \<Rightarrow> length bm = length bl) = Inr ()" by simp
    show ?thesis
      unfolding cache_full_blocks_def slice Let_def as l(1,3) nbh_def [symmetric] bindE_Inr q(1) prod.case ev par
        kl [unfolded sk_def bindE_assoc] q'_def m'_def
      using o(3) by simp
  qed
  have c: "core q' = core q" by (simp add: q'_def)
  have sr: "same_refs p q'" by (rule same_refs_trans [OF q(3) same_refs_core [OF c [symmetric]]])
  have "pool_wf q' xs"
    using same_refs_pool_wf [OF q(3,2) wf] core_wf [OF c] by simp
  moreover have "\<forall>i. nc \<le> i \<and> i < nf \<and> blocks ! i \<noteq> null_block \<longrightarrow> keys_of q' (blocks ! i) =
      (if kept bmask (i - nc) then [pack_key (?hs ! ((i + 1) * c - 1)) gid] else keys_of p (blocks ! i))"
  proof (intro allI impI)
    fix i assume i: "nc \<le> i \<and> i < nf \<and> blocks ! i \<noteq> null_block"
    then have k: "i - nc < nf - nc" "nc + (i - nc) = i" by auto
    with q(5) [rule_format, of "i - nc"] nth [OF k(1)] i len(1) core_keys [OF c]
    show "keys_of q' (blocks ! i) =
      (if kept bmask (i - nc) then [pack_key (?hs ! ((i + 1) * c - 1)) gid] else keys_of p (blocks ! i))" by simp
  qed
  ultimately show ?thesis using run sr q(4) core_keys [OF c] unfolding bl_def by metis
qed


subsection \<open>Partial blocks\<close>

lemma generate_last_item:
  "\<exists>ks j m. generate_block_hash_extra_keys dig r s e (if s > 0 then -1 else 0) = Inr (ks, j, with_memo r m)"
proof (cases "s > 0")
  case True
  have "\<exists>ks j. gen_mm_extra_hash_keys r s e (-1) = Inr (ks, j)"
    by (cases "mm_features r") (auto simp: gen_mm_extra_hash_keys_def Let_def assertE_def)
  with True prompt_embeds_keys_request [of dig r s e] show ?thesis
    by (auto simp: generate_block_hash_extra_keys_def Let_def)
next
  case False
  with generate_nonneg [of 0 dig r s e] show ?thesis by auto
qed

text \<open>When \<open>cache_partial_block\<close> may be called for the prefix of \<open>k\<close> hash blocks.\<close>

definition partial_block_ok :: "block_pool \<Rightarrow> request \<Rightarrow> block_ref \<Rightarrow> nat \<Rightarrow> int \<Rightarrow> nat \<Rightarrow> bool \<Rightarrow> bool" where
  "partial_block_ok p r b k gid c replace_existing \<longleftrightarrow>
     hash_block_size p > 0 \<and> c > 0 \<and> 0 < k \<and> k \<le> length (block_hashes r) \<and> group_ok gid \<and> in_pool p b
     \<and> (replace_existing \<or> (c > 1 \<and> \<not> c dvd k))"

definition stale_key :: "block_pool \<Rightarrow> block_ref \<Rightarrow> hash_key \<Rightarrow> int \<Rightarrow> bool" where
  "stale_key p b key t \<longleftrightarrow> key \<notin> set (keys_of p b)
     \<and> (\<exists>u. block_hash_num_tokens (heap p b) = Some u \<and> u < t)"

lemma partial_hash:
  assumes "hash_block_size p > 0" "0 < k" "k \<le> length (block_hashes r)"
  shows "get_partial_block_hash r (int k * hash_block_size p) p = Inr (block_hashes r ! (k - 1))"
    and "\<exists>parent. get_partial_block_parent_hash_and_start r (int k * hash_block_size p) p
      = Inr (parent, (int k - 1) * hash_block_size p)"
proof -
  have d: "int k * hash_block_size p div hash_block_size p = int k" using assms(1) by simp
  have "py_index (block_hashes r) (int k - 1) = Inr (block_hashes r ! nat (int k - 1))"
    using assms by (intro py_index_nth) auto
  moreover have "nat (int k - 1) = k - 1" by simp
  ultimately show "get_partial_block_hash r (int k * hash_block_size p) p = Inr (block_hashes r ! (k - 1))"
    using assms d by (simp add: get_partial_block_hash_def Let_def)
  have "\<exists>h. py_index (block_hashes r) (int k - 2) = Inr h" if "k > 1"
    using that assms(3) by (auto simp: py_index_eq)
  then show "\<exists>parent. get_partial_block_parent_hash_and_start r (int k * hash_block_size p) p
      = Inr (parent, (int k - 1) * hash_block_size p)"
    using assms(1) d by (auto simp: get_partial_block_parent_hash_and_start_def Let_def)
qed

lemma cache_partial_block_spec:
  assumes wf: "pool_wf p xs" and ok: "partial_block_ok p r b k gid c rep"
    and key: "key = pack_key (block_hashes r ! (k - 1)) gid" and t: "t = int k * hash_block_size p"
  shows "\<exists>m q. cache_partial_block dig r b t gid (int c * hash_block_size p) rep p
      = Inr (Some key, with_memo r m, q)
    \<and> pool_wf q xs \<and> same_refs p q
    \<and> keys_of q = (keys_of p)(b := if rep \<or> stale_key p b key t then [key] else set_add key (keys_of p b))"
proof -
  let ?H = "hash_block_size p" and ?h = "block_hashes r ! (k - 1)"
  have o: "?H > 0" "c > 0" "0 < k" "k \<le> length (block_hashes r)" "group_ok gid" "in_pool p b"
    "rep \<or> (c > 1 \<and> \<not> c dvd k)" using ok by (auto simp: partial_block_ok_def)
  have iw: "index_wf p" and nn: "\<not> is_null (heap p b)"
    using wf o(6) in_pool_not_null by (auto simp: pool_wf_def pending_wf_def)
  have con: "(block_hash (heap p b) = Some key \<or> contain key (block_id b) (cached_block_hash_to_block p))
      \<longleftrightarrow> key \<in> set (keys_of p b)"
    using iw o(6) bm.has_ents [of "cached_block_hash_to_block p" b key] in_pool_is_pool_block
    by (auto simp: index_wf_def keys_of_def)
  define stale where "stale = (\<not> key \<in> set (keys_of p b) \<and> block_hash (heap p b) \<noteq> None
      \<and> (case block_hash_num_tokens (heap p b) of None \<Rightarrow> False | Some u \<Rightarrow> u < t))"
  have st: "stale \<longleftrightarrow> stale_key p b key t"
    using iw by (auto simp: stale_def stale_key_def index_wf_def split: option.splits)
  define p1 where "p1 = (if rep \<or> stale
    then (let (removed, q) = remove_cached_block_hashes b p in emit_block_removed_events removed q) else p)"
  have "\<exists>q. insert_block_hash key b (Some t) p1 = Inr q \<and> index_wf q \<and> same_refs p q
    \<and> keys_of q = (keys_of p)(b := if rep \<or> stale then [key] else set_add key (keys_of p b))"
  proof (cases "rep \<or> stale")
    case True
    with reregister_spec [OF iw o(6), of key "Some t"] show ?thesis
      by (auto simp: p1_def Let_def split: prod.splits)
  next
    case False
    with insert_block_hash_spec [OF iw o(6), of key "Some t"] show ?thesis by (auto simp: p1_def)
  qed
  then obtain p2 where p2: "insert_block_hash key b (Some t) p1 = Inr p2" "index_wf p2" "same_refs p p2"
      "keys_of p2 = (keys_of p)(b := if rep \<or> stale then [key] else set_add key (keys_of p b))" by blast
  have H2: "hash_block_size p2 = ?H" using p2(3) by (simp add: same_refs_def)
  obtain parent where par: "get_partial_block_parent_hash_and_start r t p2 = Inr (parent, (int k - 1) * ?H)"
    using partial_hash(2) [of p2 k r] o(1,3,4) H2 t by auto
  obtain ks j m where gen: "generate_block_hash_extra_keys dig r ((int k - 1) * ?H) t
      (if (int k - 1) * ?H > 0 then -1 else 0) = Inr (ks, j, with_memo r m)"
    using generate_last_item by blast
  have td: "t div ?H * ?H = t" using o(1) t by simp
  have chk: "(if rep then Inr () else if int c * ?H > ?H
      then (if int c * ?H = 0 then Inl ZeroDivisionError else assertE (t mod (int c * ?H) \<noteq> 0))
      else Inl AssertionError) = Inr ()"
  proof (cases rep)
    case False
    then have c: "c > 1" "\<not> c dvd k" using o(7) by auto
    then have "\<not> int c * ?H dvd int k * ?H" using o(1) by simp
    then have "t mod (int c * ?H) \<noteq> 0" by (simp add: t mod_eq_0_iff_dvd)
    with False c(1) o(1) show ?thesis by (simp add: assertE_def)
  qed simp
  have run: "\<exists>m q. cache_partial_block dig r b t gid (int c * ?H) rep p = Inr (Some key, with_memo r m, q)
      \<and> core q = core p2"
  proof -
    have "cache_partial_block dig r b t gid (int c * ?H) rep p =
      (if enable_kv_cache_events p2 \<and> \<not> (key \<in> set (keys_of p b) \<and> \<not> rep) then
         Inr (Some key, with_memo r m, push_event (BlockStored
           \<lparr>bs_block_hashes = Some [convert_hash p2 ?h], bs_parent_block_hash = map_option (convert_hash p2) parent,
            bs_token_ids = py_slice ((int k - 1) * ?H) t (all_token_ids (with_memo r m)),
            bs_block_size = t - (int k - 1) * ?H, bs_lora_id = map_option lora_int_id (lora_request (with_memo r m)),
            bs_medium = pool_medium p2, bs_lora_name = map_option lora_name (lora_request (with_memo r m)),
            bs_extra_keys = Some [ks], bs_group_idx = gid, bs_session_id = session_id (with_memo r m)\<rparr>) p2)
       else Inr (Some key, r, p2))"
      unfolding cache_partial_block_def Let_def td con chk stale_def [symmetric] p1_def [symmetric, unfolded Let_def]
        partial_hash(1) [OF o(1,3,4), folded t] make_key_pack [OF o(5)] bindE_Inr key [symmetric] p2(1) par
        prod.case gen
      using nn o(1) by simp
    moreover have "r = with_memo r (prompt_embeds_per_block_hashes r)" by simp
    ultimately show ?thesis
      by (cases "enable_kv_cache_events p2 \<and> \<not> (key \<in> set (keys_of p b) \<and> \<not> rep)")
        (simp_all only: if_True if_False core_helpers, metis core_helpers(2), metis)
  qed
  then obtain m' q where q: "cache_partial_block dig r b t gid (int c * ?H) rep p = Inr (Some key, with_memo r m', q)"
      "core q = core p2" by blast
  have sr: "same_refs p q" by (rule same_refs_trans [OF p2(3) same_refs_core [OF q(2) [symmetric]]])
  have "keys_of q = keys_of p2" by (rule ext) (rule core_keys [OF q(2)])
  with q(1) sr same_refs_pool_wf [OF p2(3,2) wf] core_wf [OF q(2)] p2(4) st show ?thesis by auto
qed

end
