(* ===== verification/Pool_Run.thy ===== *)
theory Pool_Run
  imports Pool_Cache
begin

text \<open>
  Runs of the block pool: the contract a client relies on as a locale, interpreted on the pool;
  the states reachable by any sequence of operations; and the properties of the pool.
\<close>

subsection \<open>The contract of the allocator\<close>

text \<open>
  \<open>wf p xs\<close>: the pool is consistent and would hand out \<open>xs\<close> in this order. \<open>free p bs\<close>
  releases one reference per occurrence; \<open>held p bs\<close> says that these references are held;
  \<open>early\<close> and \<open>late\<close> are the blocks it puts in front of and behind the free blocks.
\<close>

locale block_allocator =
  fixes wf :: "'p \<Rightarrow> 'b list \<Rightarrow> bool" and own :: "'p \<Rightarrow> 'b \<Rightarrow> bool" and refs :: "'p \<Rightarrow> 'b \<Rightarrow> int"
    and held :: "'p \<Rightarrow> 'b list \<Rightarrow> bool"
    and alloc :: "int \<Rightarrow> 'p \<Rightarrow> ('b list \<times> 'p) result" and share :: "'b list \<Rightarrow> 'p \<Rightarrow> 'p result"
    and release :: "'b list \<Rightarrow> 'p \<Rightarrow> 'p result"
    and early :: "'p \<Rightarrow> 'b list \<Rightarrow> 'b list" and late :: "'p \<Rightarrow> 'b list \<Rightarrow> 'b list"
  assumes wf_free: "wf p xs \<Longrightarrow> distinct xs \<and> (\<forall>b. b \<in> set xs \<longleftrightarrow> own p b \<and> refs p b = 0)"
    and alloc_ok: "wf p xs \<Longrightarrow> 0 \<le> n \<Longrightarrow> n \<le> int (length xs) \<Longrightarrow>
      \<exists>q. alloc n p = Inr (take (nat n) xs, q) \<and> wf q (drop (nat n) xs) \<and> own q = own p
        \<and> refs q = (\<lambda>b. refs p b + (if b \<in> set (take (nat n) xs) then 1 else 0))"
    and alloc_fail: "wf p xs \<Longrightarrow> n > int (length xs) \<Longrightarrow> alloc n p = Inl ValueError"
    and share_ok: "wf p xs \<Longrightarrow> \<forall>b \<in> set bs. own p b \<Longrightarrow>
      \<exists>q. share bs p = Inr q \<and> wf q (filter (\<lambda>b. b \<notin> set bs) xs) \<and> own q = own p
        \<and> refs q = (\<lambda>b. refs p b + int (count_list bs b))"
    and heldI: "wf p xs \<Longrightarrow> \<forall>b \<in> set bs. own p b \<and> int (count_list bs b) \<le> refs p b \<Longrightarrow> held p bs"
    and release_ok: "wf p xs \<Longrightarrow> held p bs \<Longrightarrow>
      \<exists>q. release bs p = Inr q \<and> wf q (early p bs @ xs @ late p bs) \<and> own q = own p
        \<and> refs q = (\<lambda>b. refs p b - int (count_list bs b))"
begin

text \<open>No block is handed out twice: an allocated block was free and is not free afterwards.\<close>

lemma alloc_fresh:
  assumes "wf p xs" "0 \<le> n" "alloc n p = Inr (bs, q)"
  shows "distinct bs \<and> length bs = nat n \<and> (\<forall>b \<in> set bs. own p b \<and> refs p b = 0 \<and> refs q b = 1)
    \<and> wf q (drop (nat n) xs) \<and> set bs \<inter> set (drop (nat n) xs) = {} \<and> own q = own p"
proof -
  have n: "n \<le> int (length xs)" using alloc_fail [OF assms(1), of n] assms(3) by (cases "n \<le> int (length xs)") simp_all
  from alloc_ok [OF assms(1,2) n] assms(3) have bs: "bs = take (nat n) xs" and q: "wf q (drop (nat n) xs)" "own q = own p"
    and r: "refs q = (\<lambda>b. refs p b + (if b \<in> set (take (nat n) xs) then 1 else 0))" by auto
  have d: "distinct xs" and f: "\<And>b. b \<in> set xs \<longleftrightarrow> own p b \<and> refs p b = 0" using wf_free [OF assms(1)] by auto
  have "set (take (nat n) xs) \<inter> set (drop (nat n) xs) = {}" using d set_take_disj_set_drop_if_distinct by blast
  moreover have "own p b \<and> refs p b = 0 \<and> refs q b = 1" if "b \<in> set bs" for b
    using that f [of b] r bs in_set_takeD [of b "nat n" xs] by simp
  ultimately show ?thesis using bs q d n by simp
qed

text \<open>Allocating and releasing again restores every count and frees the same blocks.\<close>

lemma alloc_release:
  assumes "wf p xs" "0 \<le> n" "n \<le> int (length xs)"
  shows "\<exists>bs q r. alloc n p = Inr (bs, q) \<and> release bs q = Inr r \<and> refs r = refs p
    \<and> (\<exists>ys. wf r ys \<and> set ys = set xs)"
proof -
  obtain q where q: "alloc n p = Inr (take (nat n) xs, q)" "wf q (drop (nat n) xs)" "own q = own p"
      "refs q = (\<lambda>b. refs p b + (if b \<in> set (take (nat n) xs) then 1 else 0))" using alloc_ok [OF assms] by blast
  let ?bs = "take (nat n) xs"
  have d: "distinct xs" and f: "\<And>b. b \<in> set xs \<longleftrightarrow> own p b \<and> refs p b = 0" using wf_free [OF assms(1)] by auto
  have c: "count_list ?bs b = (if b \<in> set ?bs then 1 else 0)" for b
    using d by (simp add: distinct_count_list)
  have "own q b \<and> int (count_list ?bs b) \<le> refs q b" if "b \<in> set ?bs" for b
    using that f [of b] c [of b] q(3,4) in_set_takeD [OF that] by simp
  then have "held q ?bs" using heldI [OF q(2)] by blast
  then obtain r where r: "release ?bs q = Inr r" "wf r (early q ?bs @ drop (nat n) xs @ late q ?bs)" "own r = own q"
      "refs r = (\<lambda>b. refs q b - int (count_list ?bs b))" using release_ok [OF q(2)] by blast
  have rr: "refs r = refs p" using r(4) q(4) c by (auto simp: fun_eq_iff)
  then have "set (early q ?bs @ drop (nat n) xs @ late q ?bs) = set xs"
    using wf_free [OF r(2)] f r(3) q(3) by auto
  with q(1) r rr show ?thesis by blast
qed

text \<open>A shared block survives: after sharing \<open>bs\<close>, no allocation returns one of them.\<close>

lemma shared_not_reused:
  assumes "wf p xs" "\<forall>b \<in> set bs. own p b \<and> refs p b \<ge> 0" "share bs p = Inr q" "0 \<le> n" "alloc n q = Inr (cs, r)"
  shows "set cs \<inter> set bs = {}"
proof -
  obtain q' where "share bs p = Inr q'" "wf q' (filter (\<lambda>b. b \<notin> set bs) xs)"
    using share_ok [OF assms(1), of bs] assms(2) by blast
  with assms(3) have "wf q (filter (\<lambda>b. b \<notin> set bs) xs)" by simp
  moreover have "alloc n q \<noteq> Inl ValueError" using assms(5) by simp
  ultimately show ?thesis
    using alloc_ok [of q "filter (\<lambda>b. b \<notin> set bs) xs" n] alloc_fail [of q "filter (\<lambda>b. b \<notin> set bs) xs" n] assms(4,5)
    by (cases "n \<le> int (length (filter (\<lambda>b. b \<notin> set bs) xs))") (auto dest!: in_set_takeD)
qed

end

definition evict_first :: "block_pool \<Rightarrow> block_ref list \<Rightarrow> block_ref list" where
  "evict_first p bs = filter (\<lambda>b. keys_of p b = [] \<or> \<not> enable_caching p) (released p bs)"

definition evict_last :: "block_pool \<Rightarrow> block_ref list \<Rightarrow> block_ref list" where
  "evict_last p bs = filter (\<lambda>b. keys_of p b \<noteq> [] \<and> enable_caching p) (released p bs)"

lemma config_in_pool: "config q = config p \<Longrightarrow> in_pool q = in_pool p"
  by (simp add: config_def in_pool_def fun_eq_iff)

interpretation bp: block_allocator pool_wf in_pool "\<lambda>p b. ref_cnt (heap p b)" holds_refs get_new_blocks touch
    free_blocks evict_first evict_last
proof (unfold_locales, goal_cases)
  case (1 p xs)
  then show ?case by (auto simp: pool_wf_def pending_wf_def)
next
  case (2 p xs n)
  then obtain q where q: "get_new_blocks n p = Inr (take (nat n) xs, q)" "pool_wf q (drop (nat n) xs)" "config q = config p"
      "\<forall>c. ref_cnt (heap q c) = ref_cnt (heap p c) + (if c \<in> set (take (nat n) xs) then 1 else 0)"
    using get_new_blocks_spec [OF 2(1,2)] by auto
  with config_in_pool [OF q(3)] show ?case by blast
next
  case (3 p xs n)
  with get_new_blocks_spec [OF 3(1), of n] show ?case by simp
next
  case (4 p xs bs)
  then obtain q where q: "touch bs p = Inr q" "pool_wf q (filter (\<lambda>b. b \<notin> set bs) xs)" "config q = config p"
      "\<forall>c. ref_cnt (heap q c) = ref_cnt (heap p c) + int (count_list bs c)"
    using touch_spec [OF 4(1), of bs] by blast
  with config_in_pool [OF q(3)] show ?case by blast
next
  case (5 p xs bs)
  then show ?case by (auto simp: holds_refs_def)
next
  case (6 p xs bs)
  from free_blocks_spec [OF 6] obtain q where q: "free_blocks bs p = Inr q" "config q = config p"
      "pool_wf q (evict_first p bs @ xs @ evict_last p bs)"
      "\<forall>c. ref_cnt (heap q c) = ref_cnt (heap p c) - int (count_list bs c)"
    unfolding evict_first_def evict_last_def by blast
  with config_in_pool [OF q(2)] show ?case by blast
qed

subsection \<open>Reachable pools\<close>

text \<open>
  The states a pool can reach: each operation in any order, at arguments that meet its
  precondition (references released are held, blocks named are pool blocks, registered blocks
  and their hashes exist).
\<close>

inductive pool_reach :: "block_pool \<Rightarrow> bool" where
  reach_init: "init_pool n caching hbs evs mets md ui = Inr p \<Longrightarrow> pool_reach p"
| reach_alloc: "pool_reach p \<Longrightarrow> 0 \<le> n \<Longrightarrow> get_new_blocks n p = Inr (bs, q) \<Longrightarrow> pool_reach q"
| reach_touch: "pool_reach p \<Longrightarrow> \<forall>b \<in> set bs. in_pool p b \<or> b = null_block \<Longrightarrow> touch bs p = Inr q \<Longrightarrow> pool_reach q"
| reach_free: "pool_reach p \<Longrightarrow> holds_refs p bs \<Longrightarrow> free_blocks bs p = Inr q \<Longrightarrow> pool_reach q"
| reach_unpin: "pool_reach p \<Longrightarrow> holds_refs p bs \<Longrightarrow> null_block \<notin> set bs \<Longrightarrow> unpin_blocks bs w p = Inr q \<Longrightarrow> pool_reach q"
| reach_evict: "pool_reach p \<Longrightarrow> \<forall>i \<in> set ids. 0 \<le> i \<and> i < num_gpu_blocks p \<Longrightarrow> evict_blocks ids p = Inr q \<Longrightarrow> pool_reach q"
| reach_reset: "pool_reach p \<Longrightarrow> reset_prefix_cache p = Inr (ok, q) \<Longrightarrow> pool_reach q"
| reach_full: "pool_reach p \<Longrightarrow> full_blocks_ok p r blocks nc nf c gid bmask \<Longrightarrow>
    cache_full_blocks dig r blocks (int nc) (int nf) (int c * hash_block_size p) gid bmask p = Inr (r', q) \<Longrightarrow> pool_reach q"
| reach_partial: "pool_reach p \<Longrightarrow> partial_block_ok p r b k gid c rep \<Longrightarrow>
    cache_partial_block dig r b (int k * hash_block_size p) gid (int c * hash_block_size p) rep p = Inr (key, r', q)
    \<Longrightarrow> pool_reach q"
| reach_move: "pool_reach p \<Longrightarrow> in_pool p dst \<Longrightarrow> keys_of p dst = [] \<Longrightarrow> move_block_hashes src dst p = Inr q \<Longrightarrow> pool_reach q"
| reach_events: "pool_reach p \<Longrightarrow> take_events p = (evs, q) \<Longrightarrow> pool_reach q"
| reach_emit: "pool_reach p \<Longrightarrow> emit_cached_block_events dig r nc bs gid p = Inr (r', q) \<Longrightarrow> pool_reach q"

lemma emit_cached_core: "emit_cached_block_events dig r nc bs gid p = Inr (r', q) \<Longrightarrow> core q = core p"
  by (auto simp: emit_cached_block_events_def err_simps split: if_splits prod.splits)

lemma take_events_core: "take_events p = (evs, q) \<Longrightarrow> core q = core p"
  by (auto simp: take_events_def core_def split: if_splits)

lemma pool_reach_wf: "pool_reach p \<Longrightarrow> \<exists>xs. pool_wf p xs"
proof (induction rule: pool_reach.induct)
  case (reach_init n caching hbs evs mets md ui p)
  have "n > 0" using reach_init by (auto simp: init_pool_def err_simps)
  from init_pool_spec [OF this, of caching hbs evs mets md ui] reach_init show ?case by auto
next
  case (reach_alloc p n bs q)
  then obtain xs where "pool_wf p xs" by blast
  with reach_alloc bp.alloc_fresh show ?case by blast
next
  case (reach_touch p bs q)
  then obtain xs where "pool_wf p xs" by blast
  from touch_spec [OF this] reach_touch show ?case by fastforce
next
  case (reach_free p bs q)
  then obtain xs where "pool_wf p xs" by blast
  from free_blocks_spec [OF this] reach_free show ?case by fastforce
next
  case (reach_unpin p bs w q)
  then obtain xs where "pool_wf p xs" by blast
  from unpin_blocks_spec [OF this, of bs w] reach_unpin show ?case by fastforce
next
  case (reach_evict p ids q)
  then obtain xs where "pool_wf p xs" by blast
  from evict_blocks_spec [OF this] reach_evict show ?case by fastforce
next
  case (reach_reset p ok q)
  then obtain xs where xs: "pool_wf p xs" by blast
  with reset_prefix_cache_spec [OF xs] reach_reset show ?case by (fastforce split: if_splits)
next
  case (reach_full p r blocks nc nf c gid bmask dig r' q)
  then obtain xs where "pool_wf p xs" by blast
  from cache_full_blocks_spec [OF this reach_full(2), of dig] reach_full show ?case by fastforce
next
  case (reach_partial p r b k gid c rep dig key r' q)
  then obtain xs where "pool_wf p xs" by blast
  from cache_partial_block_spec [OF this reach_partial(2) refl refl, of dig] reach_partial show ?case by fastforce
next
  case (reach_move p dst src q)
  then obtain xs where "pool_wf p xs" by blast
  from move_block_hashes_spec [OF this reach_move(2,3), of src] reach_move(4) show ?case by auto
next
  case (reach_events p evs q)
  with core_wf [OF take_events_core] show ?case by blast
next
  case (reach_emit p dig r nc bs gid r' q)
  with core_wf [OF emit_cached_core] show ?case by blast
qed


lemma pool_wfD:
  assumes "pool_wf p xs"
  shows "queue_of (free_block_queue p) xs" "distinct xs" "get_num_free_blocks p = int (length xs)" "num_gpu_blocks p > 0"
    "\<And>b. b \<in> set xs \<longleftrightarrow> in_pool p b \<and> ref_cnt (heap p b) = 0" "\<And>b. in_pool p b \<Longrightarrow> 0 \<le> ref_cnt (heap p b)"
    "index_wf p" "\<And>k b. b \<in> set (entries (cached_block_hash_to_block p) k) \<longleftrightarrow> in_pool p b \<and> k \<in> set (keys_of p b)"
  using assms fq.count_length
  by (auto simp: pool_wf_def pending_wf_def index_wf_def get_num_free_blocks_def)

lemma free_blocks_bound:
  assumes "pool_wf p xs"
  shows "int (length xs) < num_gpu_blocks p"
proof -
  have "set xs \<subseteq> Blk ` {1..<nat (num_gpu_blocks p)}"
    using pool_wfD(5) [OF assms] by (auto simp: in_pool_def image_iff zless_nat_eq_int_zless)
  then have "card (set xs) \<le> card (Blk ` {1..<nat (num_gpu_blocks p)})" by (intro card_mono) auto
  also have "\<dots> = nat (num_gpu_blocks p) - 1" by (subst card_image) (auto simp: inj_on_def)
  finally show ?thesis using pool_wfD(2,4) [OF assms] by (simp add: distinct_card)
qed

subsection \<open>Properties\<close>

text \<open>
  C8. The pool invariant. After any sequence of operations the free queue spells a duplicate-free
  list; a block other than the null block is in it exactly when its reference count is zero, and no
  count is negative; the counter of free blocks is its length, below the size of the pool; the
  index lists a block under a key exactly when the block carries that key; the usage is a
  fraction between 0 and 1.
\<close>

theorem pool_invariant:
  assumes "pool_reach p"
  shows "\<exists>xs. queue_of (free_block_queue p) xs \<and> distinct xs
    \<and> (\<forall>b. b \<in> set xs \<longleftrightarrow> in_pool p b \<and> ref_cnt (heap p b) = 0)
    \<and> (\<forall>b. in_pool p b \<longrightarrow> 0 \<le> ref_cnt (heap p b))
    \<and> get_num_free_blocks p = int (length xs) \<and> get_num_free_blocks p < num_gpu_blocks p
    \<and> (\<forall>k b. b \<in> set (entries (cached_block_hash_to_block p) k) \<longleftrightarrow> in_pool p b \<and> k \<in> set (keys_of p b))
    \<and> 0 \<le> get_usage p \<and> get_usage p \<le> 1"
proof -
  obtain xs where xs: "pool_wf p xs" using pool_reach_wf [OF assms] by blast
  note w = pool_wfD [OF xs] and lt = free_blocks_bound [OF xs]
  have "0 \<le> get_usage p \<and> get_usage p \<le> 1"
  proof (cases "num_gpu_blocks p = 1")
    case False
    then have pos: "(0 :: rat) < of_int (num_gpu_blocks p - 1)" using w(4) by simp
    have "of_int (int (length xs)) \<le> (of_int (num_gpu_blocks p - 1) :: rat)" using lt by (simp only: of_int_le_iff)
    with pos False show ?thesis by (simp add: get_usage_def Let_def w(3) divide_le_eq_1)
  qed (simp add: get_usage_def)
  with w lt show ?thesis by (intro exI [of _ xs]) simp
qed

lemma small_pool:
  obtains p where "init_pool 4 True 2 False False ''GPU'' False = Inr p" "pool_reach p"
    "pool_wf p [Blk 1, Blk 2, Blk 3]" "config p = (4, True, 2, False)" "\<forall>c. keys_of p c = []" "\<forall>c. ref_cnt (heap p c) = 0"
proof -
  have "map Blk [1..<nat 4] = [Blk 1, Blk 2, Blk 3]" by (simp add: upt_rec)
  with init_pool_spec [of 4 True 2 False False "''GPU''" False] obtain p where
    p: "init_pool 4 True 2 False False ''GPU'' False = Inr p" "pool_wf p [Blk 1, Blk 2, Blk 3]"
       "config p = (4, True, 2, False)" "\<forall>c. keys_of p c = []" "\<forall>c. ref_cnt (heap p c) = 0"
    by (auto simp del: upt_rec_numeral)
  from reach_init [OF p(1)] p show ?thesis by (intro that [of p]) simp_all
qed

theorem pool_invariant_witness:
  "\<exists>p xs. init_pool 4 True 2 False False ''GPU'' False = Inr p \<and> queue_of (free_block_queue p) xs
    \<and> get_num_free_blocks p < num_gpu_blocks p"
proof -
  obtain p where p: "init_pool 4 True 2 False False ''GPU'' False = Inr p" "pool_reach p" by (blast intro: small_pool)
  from pool_invariant [OF p(2)] p(1) show ?thesis by blast
qed

text \<open>
  C10. Allocation. With enough free blocks \<open>get_new_blocks n\<close> returns \<open>n\<close> different pool blocks
  that nobody referenced, the first ones of the free queue, each now with one reference; no other
  count changes; with caching on they have lost every key, the other blocks none. With too few
  free blocks it raises \<open>ValueError\<close>.
\<close>

theorem get_new_blocks_fresh:
  assumes "pool_reach p" "0 \<le> n"
  shows "if n \<le> get_num_free_blocks p
    then \<exists>bs q. get_new_blocks n p = Inr (bs, q) \<and> distinct bs \<and> int (length bs) = n
      \<and> (\<forall>b \<in> set bs. in_pool p b \<and> ref_cnt (heap p b) = 0 \<and> ref_cnt (heap q b) = 1 \<and> (enable_caching p \<longrightarrow> keys_of q b = []))
      \<and> (\<forall>b. b \<notin> set bs \<longrightarrow> ref_cnt (heap q b) = ref_cnt (heap p b) \<and> keys_of q b = keys_of p b)
      \<and> get_num_free_blocks q = get_num_free_blocks p - n
    else get_new_blocks n p = Inl ValueError"
proof -
  obtain xs where xs: "pool_wf p xs" using pool_reach_wf [OF assms(1)] by blast
  note w = pool_wfD [OF xs] and sp = get_new_blocks_spec [OF xs assms(2)]
  show ?thesis
  proof (cases "n \<le> int (length xs)")
    case True
    with sp obtain q where q: "get_new_blocks n p = Inr (take (nat n) xs, q)" "pool_wf q (drop (nat n) xs)"
      "\<forall>c. ref_cnt (heap q c) = ref_cnt (heap p c) + (if c \<in> set (take (nat n) xs) then 1 else 0)"
      "keys_of q = (\<lambda>c. if enable_caching p \<and> c \<in> set (take (nat n) xs) then [] else keys_of p c)" by auto
    have "get_num_free_blocks q = get_num_free_blocks p - n"
      using pool_wfD(3) [OF q(2)] w(3) True assms(2) by simp
    with q w(2,3,5) True assms(2) show ?thesis by (auto dest: in_set_takeD)
  qed (use sp w(3) in simp)
qed

theorem get_new_blocks_fresh_witness:
  "\<exists>p bs q. init_pool 4 True 2 False False ''GPU'' False = Inr p \<and> get_new_blocks 2 p = Inr (bs, q)
    \<and> distinct bs \<and> get_new_blocks 5 p = Inl ValueError"
proof -
  obtain p where p: "init_pool 4 True 2 False False ''GPU'' False = Inr p" "pool_reach p" "pool_wf p [Blk 1, Blk 2, Blk 3]"
    by (blast intro: small_pool)
  have "get_num_free_blocks p = 3" using pool_wfD(3) [OF p(3)] by simp
  with get_new_blocks_fresh [OF p(2), of 2] get_new_blocks_fresh [OF p(2), of 5] p(1) show ?thesis by auto
qed

text \<open>
  C18. Eviction order. Releasing held references decrements every count by its occurrences and
  keeps every key. The blocks that became free are queued in the order of their release: those
  that cannot serve a prefix hit in front of all free blocks, those that can behind them.
\<close>

theorem free_blocks_eviction_order:
  assumes "pool_reach p" "queue_of (free_block_queue p) xs" "holds_refs p bs"
  shows "\<exists>q. free_blocks bs p = Inr q
    \<and> queue_of (free_block_queue q)
        (filter (\<lambda>b. keys_of p b = [] \<or> \<not> enable_caching p) (released p bs) @ xs
         @ filter (\<lambda>b. keys_of p b \<noteq> [] \<and> enable_caching p) (released p bs))
    \<and> (\<forall>b. ref_cnt (heap q b) = ref_cnt (heap p b) - int (count_list bs b)) \<and> keys_of q = keys_of p"
proof -
  obtain ys where ys: "pool_wf p ys" using pool_reach_wf [OF assms(1)] by blast
  then have "ys = xs" using assms(2) queue_of_unique pool_wfD(1) by blast
  with free_blocks_spec [OF ys assms(3)] show ?thesis by (auto dest: pool_wfD(1))
qed

lemma small_pool_two_taken:
  obtains p q where "init_pool 4 True 2 False False ''GPU'' False = Inr p" "pool_reach p"
    "get_new_blocks 2 p = Inr ([Blk 1, Blk 2], q)" "pool_reach q" "pool_wf q [Blk 3]" "config q = (4, True, 2, False)"
    "\<forall>c. keys_of q c = []" "\<forall>c. ref_cnt (heap q c) = (if c \<in> {Blk 1, Blk 2} then 1 else 0)"
proof -
  obtain p where p: "init_pool 4 True 2 False False ''GPU'' False = Inr p" "pool_reach p" "pool_wf p [Blk 1, Blk 2, Blk 3]"
    "config p = (4, True, 2, False)" "\<forall>c. keys_of p c = []" "\<forall>c. ref_cnt (heap p c) = 0" by (blast intro: small_pool)
  from get_new_blocks_spec [OF p(3), of 2] p(5,6) obtain q where q: "get_new_blocks 2 p = Inr ([Blk 1, Blk 2], q)"
      "pool_wf q [Blk 3]" "\<forall>c. ref_cnt (heap q c) = (if c \<in> {Blk 1, Blk 2} then 1 else 0)" "\<forall>c. keys_of q c = []"
      "config q = config p" by auto
  have "pool_reach q" using reach_alloc [OF p(2) _ q(1)] by simp
  with p q show ?thesis by (intro that [of p q]) simp_all
qed

lemma two_taken_in_pool: "config q = (4, True, 2, False) \<Longrightarrow> in_pool q (Blk i) \<longleftrightarrow> 0 < i \<and> i < 4"
  by (auto simp: in_pool_def config_def)

theorem free_blocks_eviction_order_witness:
  "\<exists>p q r. init_pool 4 True 2 False False ''GPU'' False = Inr p \<and> get_new_blocks 2 p = Inr ([Blk 1, Blk 2], q)
    \<and> free_blocks [Blk 2, Blk 1] q = Inr r \<and> queue_of (free_block_queue r) [Blk 2, Blk 1, Blk 3]"
proof -
  obtain p q where q: "init_pool 4 True 2 False False ''GPU'' False = Inr p" "get_new_blocks 2 p = Inr ([Blk 1, Blk 2], q)"
      "pool_reach q" "pool_wf q [Blk 3]" "config q = (4, True, 2, False)" "\<forall>c. keys_of q c = []"
      "\<forall>c. ref_cnt (heap q c) = (if c \<in> {Blk 1, Blk 2} then 1 else 0)" by (blast intro: small_pool_two_taken)
  have "holds_refs q [Blk 2, Blk 1]" using q(7) two_taken_in_pool [OF q(5)] by (simp add: holds_refs_def)
  moreover have "released q [Blk 2, Blk 1] = [Blk 2, Blk 1]" using q(7) by (simp add: released_def null_block_def)
  ultimately show ?thesis
    using free_blocks_eviction_order [of q "[Blk 3]" "[Blk 2, Blk 1]"] q(1-3,6) pool_wfD(1) [OF q(4)] by auto
qed

lemma lookup_cases:
  assumes "pool_reach p" "\<forall>g \<in> set gs. group_ok g"
  obtains (hit) bs where "get_cached_block h gs p = Inr (Some bs)" "length bs = length gs"
      "\<forall>i < length gs. in_pool p (bs ! i) \<and> pack_key h (gs ! i) \<in> set (keys_of p (bs ! i))"
  | (miss) g where "get_cached_block h gs p = Inr None" "g \<in> set gs" "\<forall>b. in_pool p b \<longrightarrow> pack_key h g \<notin> set (keys_of p b)"
proof -
  obtain xs where "pool_wf p xs" using pool_reach_wf [OF assms(1)] by blast
  then have iw: "index_wf p" by (rule pool_wfD)
  note sp = get_cached_block_spec [OF iw assms(2), of h]
  show thesis
  proof (cases "\<forall>g \<in> set gs. \<exists>b. in_pool p b \<and> pack_key h g \<in> set (keys_of p b)")
    case True
    then show thesis using sp lookup_hit_in_pool [OF iw] by (intro hit) (auto simp: all_set_conv_all_nth)
  next
    case False
    then obtain g where "g \<in> set gs" "\<forall>b. in_pool p b \<longrightarrow> pack_key h g \<notin> set (keys_of p b)" by blast
    moreover have "get_cached_block h gs p = Inr None" unfolding sp using False by (simp only: if_False)
    ultimately show thesis by (intro miss)
  qed
qed

text \<open>
  C19. A prefix-cache lookup is exact. For every hash and list of groups it returns one pool block
  per group, carrying the key of that hash and group, whenever each group has such a block; it
  returns nothing exactly when some group has none; it never raises.
\<close>

theorem get_cached_block_exact:
  assumes "pool_reach p" "\<forall>g \<in> set gs. group_ok g"
  shows "if \<forall>g \<in> set gs. \<exists>b. in_pool p b \<and> pack_key h g \<in> set (keys_of p b)
    then \<exists>bs. get_cached_block h gs p = Inr (Some bs) \<and> length bs = length gs
      \<and> (\<forall>i < length gs. in_pool p (bs ! i) \<and> pack_key h (gs ! i) \<in> set (keys_of p (bs ! i)))
    else get_cached_block h gs p = Inr None"
proof (rule lookup_cases [OF assms, of h])
  fix bs
  assume "get_cached_block h gs p = Inr (Some bs)" "length bs = length gs"
    "\<forall>i < length gs. in_pool p (bs ! i) \<and> pack_key h (gs ! i) \<in> set (keys_of p (bs ! i))"
  then show ?thesis by (auto simp: all_set_conv_all_nth)
qed auto

definition sample_request :: request where
  "sample_request = (init_fields 0 1 sample_args 16 WAITING None 3)\<lparr>block_hashes := [[5]]\<rparr>"

lemma small_pool_full_ok:
  assumes "config q = (4, True, 2, False)" "\<forall>c. keys_of q c = []" "pool_wf q xs"
  shows "full_blocks_ok q sample_request [Blk 1, Blk 2] 0 1 1 7 None"
proof -
  have "block_hash (heap q (Blk 1)) = None" using assms(2) keys_of_Nil [OF pool_wfD(7) [OF assms(3)], of "Blk 1"] by simp
  then show ?thesis using assms(1) two_taken_in_pool [OF assms(1), of 1]
    by (simp add: full_blocks_ok_def config_def sample_request_def group_ok_def mask_ok_def kept_def promotable_def)
qed

lemma small_pool_cached:
  obtains p q r s where "init_pool 4 True 2 False False ''GPU'' False = Inr p" "get_new_blocks 2 p = Inr ([Blk 1, Blk 2], q)"
    "cache_full_blocks (\<lambda>_. []) sample_request [Blk 1, Blk 2] 0 1 2 7 None q = Inr (r, s)" "pool_reach q" "pool_reach s"
    "pool_wf s [Blk 3]" "config s = (4, True, 2, False)"
    "\<forall>c. ref_cnt (heap s c) = (if c \<in> {Blk 1, Blk 2} then 1 else 0)"
    "\<forall>c. keys_of s c = (if c = Blk 1 then [pack_key [5] 7] else [])"
proof -
  obtain p q where q: "init_pool 4 True 2 False False ''GPU'' False = Inr p" "get_new_blocks 2 p = Inr ([Blk 1, Blk 2], q)"
      "pool_reach q" "pool_wf q [Blk 3]" "config q = (4, True, 2, False)" "\<forall>c. keys_of q c = []"
      "\<forall>c. ref_cnt (heap q c) = (if c \<in> {Blk 1, Blk 2} then 1 else 0)" by (blast intro: small_pool_two_taken)
  note ok = small_pool_full_ok [OF q(5,6,4)]
  have h: "hash_block_size q = 2" using q(5) by (simp add: config_def)
  obtain m s where s: "cache_full_blocks (\<lambda>_. []) sample_request [Blk 1, Blk 2] 0 1 2 7 None q = Inr (with_memo sample_request m, s)"
      "pool_wf s [Blk 3]" "same_refs q s" "\<forall>b. b \<noteq> Blk 1 \<or> b = null_block \<longrightarrow> keys_of s b = keys_of q b"
      "keys_of s (Blk 1) = [pack_key [5] 7]"
    using cache_full_blocks_spec [OF q(4) ok, of "\<lambda>_. []"]
    by (auto simp: h kept_def sample_request_def null_block_def)
  have "pool_reach s" using reach_full [OF q(3) ok] s(1) h by auto
  moreover have "config s = config q" "\<forall>c. ref_cnt (heap s c) = ref_cnt (heap q c)"
    using s(3) by (simp_all add: same_refs_def config_def)
  ultimately show ?thesis using q s by (intro that [of p q "with_memo sample_request m" s]) auto
qed

theorem get_cached_block_exact_witness:
  "\<exists>p q r s b. init_pool 4 True 2 False False ''GPU'' False = Inr p \<and> get_new_blocks 2 p = Inr ([Blk 1, Blk 2], q)
    \<and> cache_full_blocks (\<lambda>_. []) sample_request [Blk 1, Blk 2] 0 1 2 7 None q = Inr (r, s)
    \<and> get_cached_block [5] [7] s = Inr (Some [b])"
proof -
  obtain p q r s where s: "init_pool 4 True 2 False False ''GPU'' False = Inr p" "get_new_blocks 2 p = Inr ([Blk 1, Blk 2], q)"
      "cache_full_blocks (\<lambda>_. []) sample_request [Blk 1, Blk 2] 0 1 2 7 None q = Inr (r, s)" "pool_reach s"
      "config s = (4, True, 2, False)" "\<forall>c. keys_of s c = (if c = Blk 1 then [pack_key [5] 7] else [])"
    by (blast intro: small_pool_cached)
  have "\<forall>g \<in> set [7]. \<exists>b. in_pool s b \<and> pack_key [5] g \<in> set (keys_of s b)"
    using s(6) two_taken_in_pool [OF s(5), of 1] by (auto intro: exI [of _ "Blk 1"])
  with get_cached_block_exact [OF s(4), of "[7]" "[5]"] obtain bs where
    "get_cached_block [5] [7] s = Inr (Some bs)" "length bs = 1" by (auto simp: group_ok_def simp del: get_cached_block.simps)
  then have "get_cached_block [5] [7] s = Inr (Some [hd bs])" by (cases bs) (simp_all del: get_cached_block.simps)
  with s(1-3) show ?thesis by blast
qed

lemma lookup_has_key:
  assumes "pool_reach p" "\<forall>g \<in> set gs. group_ok g" "get_cached_block h gs p = Inr (Some bs)" "b \<in> set bs"
  shows "keys_of p b \<noteq> []"
  using assms(3,4) by (cases rule: lookup_cases [OF assms(1,2), of h]) (auto simp: in_set_conv_nth)

text \<open>
  C11. No stale hit. Once a block has been handed out for new contents, or evicted by its id, no
  lookup of any hash in any groups returns it, until it is registered again.
\<close>

theorem reallocated_block_not_found:
  assumes "pool_reach p" "enable_caching p"
    and "(0 \<le> n \<and> get_new_blocks n p = Inr (bs, q))
      \<or> ((\<forall>i \<in> set ids. 0 \<le> i \<and> i < num_gpu_blocks p) \<and> evict_blocks ids p = Inr q
         \<and> bs = map (\<lambda>i. Blk (nat i)) (filter (\<lambda>i. i \<noteq> 0) ids))"
    and "\<forall>g \<in> set gs. group_ok g" "get_cached_block h gs q = Inr (Some hits)"
  shows "set hits \<inter> set bs = {}"
proof -
  obtain xs where xs: "pool_wf p xs" using pool_reach_wf [OF assms(1)] by blast
  have "pool_reach q \<and> (\<forall>b \<in> set bs. keys_of q b = [])"
  proof (cases "0 \<le> n \<and> get_new_blocks n p = Inr (bs, q)")
    case True
    then have "n \<le> int (length xs)" using get_new_blocks_spec [OF xs, of n] by (auto simp: not_le split: if_splits)
    with True show ?thesis using get_new_blocks_spec [OF xs, of n] assms(2) reach_alloc [OF assms(1)] by auto
  next
    case False
    then have e: "\<forall>i \<in> set ids. 0 \<le> i \<and> i < num_gpu_blocks p" "evict_blocks ids p = Inr q"
      "bs = map (\<lambda>i. Blk (nat i)) (filter (\<lambda>i. i \<noteq> 0) ids)" using assms(3) by auto
    then have "\<forall>b \<in> set bs. in_pool p b \<and> block_id b \<in> set ids" by (auto simp: in_pool_def)
    with evict_blocks_spec [OF xs e(1)] e reach_evict [OF assms(1) e(1)] show ?thesis by auto
  qed
  with lookup_has_key [of q gs h hits] assms(4,5) show ?thesis by blast
qed

theorem reallocated_block_not_found_witness:
  "\<exists>p q r s t. init_pool 4 True 2 False False ''GPU'' False = Inr p \<and> get_new_blocks 2 p = Inr ([Blk 1, Blk 2], q)
    \<and> cache_full_blocks (\<lambda>_. []) sample_request [Blk 1, Blk 2] 0 1 2 7 None q = Inr (r, s)
    \<and> evict_blocks [1] s = Inr t \<and> get_cached_block [5] [7] t \<noteq> Inr (Some [Blk 1])"
proof -
  obtain p q r s where s: "init_pool 4 True 2 False False ''GPU'' False = Inr p" "get_new_blocks 2 p = Inr ([Blk 1, Blk 2], q)"
      "cache_full_blocks (\<lambda>_. []) sample_request [Blk 1, Blk 2] 0 1 2 7 None q = Inr (r, s)" "pool_reach s" "pool_wf s [Blk 3]"
      "config s = (4, True, 2, False)" by (blast intro: small_pool_cached)
  have c: "num_gpu_blocks s = 4" "enable_caching s" using s(6) by (simp_all add: config_def)
  obtain t where t: "evict_blocks [1] s = Inr t" using evict_blocks_spec [OF s(5), of "[1]"] c by auto
  have "get_cached_block [5] [7] t \<noteq> Inr (Some [Blk 1])"
    using reallocated_block_not_found [OF s(4) c(2), of 0 "[Blk 1]" t "[1]" "[7]" "[5]" "[Blk 1]"] t c(1)
    by (auto simp: group_ok_def simp del: get_cached_block.simps)
  with s(1-3) t show ?thesis by blast
qed

text \<open>
  C17. Registered blocks are found. \<open>cache_full_blocks\<close> on blocks of the pool that carry no longer
  prefix succeeds, leaves counts and order alone, and gives every block it is to cache exactly the
  key of its hash, so that a lookup of that hash in the group hits; null and masked blocks and all
  others keep their keys.
\<close>

theorem cached_full_blocks_are_found:
  assumes "pool_reach p" "full_blocks_ok p r blocks nc nf c gid bmask"
  shows "\<exists>r' q. cache_full_blocks dig r blocks (int nc) (int nf) (int c * hash_block_size p) gid bmask p = Inr (r', q)
    \<and> same_refs p q
    \<and> (\<forall>b. b \<notin> set (take (nf - nc) (drop nc blocks)) \<or> b = null_block \<longrightarrow> keys_of q b = keys_of p b)
    \<and> (\<forall>i. nc \<le> i \<and> i < nf \<and> blocks ! i \<noteq> null_block \<longrightarrow>
        (if kept bmask (i - nc)
         then keys_of q (blocks ! i) = [pack_key (block_hashes r ! ((i + 1) * c - 1)) gid]
           \<and> (\<exists>b. get_cached_block (block_hashes r ! ((i + 1) * c - 1)) [gid] q = Inr (Some [b]))
         else keys_of q (blocks ! i) = keys_of p (blocks ! i)))"
proof -
  obtain xs where xs: "pool_wf p xs" using pool_reach_wf [OF assms(1)] by blast
  obtain m q where q: "cache_full_blocks dig r blocks (int nc) (int nf) (int c * hash_block_size p) gid bmask p = Inr (with_memo r m, q)"
      "pool_wf q xs" "same_refs p q"
      "\<forall>b. b \<notin> set (take (nf - nc) (drop nc blocks)) \<or> b = null_block \<longrightarrow> keys_of q b = keys_of p b"
      "\<forall>i. nc \<le> i \<and> i < nf \<and> blocks ! i \<noteq> null_block \<longrightarrow> keys_of q (blocks ! i) =
         (if kept bmask (i - nc) then [pack_key (block_hashes r ! ((i + 1) * c - 1)) gid] else keys_of p (blocks ! i))"
    using cache_full_blocks_spec [OF xs assms(2), of dig] by blast
  have ok: "group_ok gid" "\<And>i. nc \<le> i \<Longrightarrow> i < nf \<Longrightarrow> blocks ! i \<noteq> null_block \<Longrightarrow> in_pool p (blocks ! i)"
    using assms(2) unfolding full_blocks_ok_def by blast+
  have "\<exists>b. get_cached_block h [gid] q = Inr (Some [b])"
    if "nc \<le> i" "i < nf" "blocks ! i \<noteq> null_block" "keys_of q (blocks ! i) = [pack_key h gid]" for i h
  proof -
    have "in_pool q (blocks ! i)" using ok(2) [OF that(1-3)] q(3) by (simp add: same_refs_def in_pool_def)
    with get_cached_block_spec [OF pool_wfD(7) [OF q(2)], of "[gid]" h] ok(1) that(4) show ?thesis by auto
  qed
  with q show ?thesis by (intro exI [of _ "with_memo r m"] exI [of _ q]) auto
qed

theorem cached_full_blocks_are_found_witness:
  "\<exists>p q r s b. init_pool 4 True 2 False False ''GPU'' False = Inr p \<and> get_new_blocks 2 p = Inr ([Blk 1, Blk 2], q)
    \<and> cache_full_blocks (\<lambda>_. []) sample_request [Blk 1, Blk 2] (int 0) (int 1) (int 1 * hash_block_size q) 7 None q = Inr (r, s)
    \<and> get_cached_block [5] [7] s = Inr (Some [b])"
proof -
  obtain p q where q: "init_pool 4 True 2 False False ''GPU'' False = Inr p" "get_new_blocks 2 p = Inr ([Blk 1, Blk 2], q)"
      "pool_reach q" "config q = (4, True, 2, False)" "\<forall>c. keys_of q c = []" "pool_wf q [Blk 3]" by (blast intro: small_pool_two_taken)
  from cached_full_blocks_are_found [OF q(3) small_pool_full_ok [OF q(4-6)], of "\<lambda>_. []"]
  obtain r s where "cache_full_blocks (\<lambda>_. []) sample_request [Blk 1, Blk 2] (int 0) (int 1) (int 1 * hash_block_size q) 7 None q = Inr (r, s)"
    "\<exists>b. get_cached_block [5] [7] s = Inr (Some [b])"
    by (auto simp: kept_def sample_request_def null_block_def simp del: get_cached_block.simps)
  with q(1,2) show ?thesis by blast
qed



text \<open>
  C22. Reset of the prefix cache. It succeeds exactly when only the null block is in use; then no
  block carries a key, no lookup over a group hits, and the queue and the counts are as before.
  Otherwise it reports failure and changes nothing.
\<close>

theorem reset_prefix_cache_forgets:
  assumes "pool_reach p" "queue_of (free_block_queue p) xs"
  shows "if get_num_free_blocks p = num_gpu_blocks p - 1
    then \<exists>q. reset_prefix_cache p = Inr (True, q) \<and> (\<forall>b. keys_of q b = []) \<and> queue_of (free_block_queue q) xs
      \<and> (\<forall>b. ref_cnt (heap q b) = ref_cnt (heap p b))
      \<and> (\<forall>h g gs. (\<forall>g' \<in> set (g # gs). group_ok g') \<longrightarrow> get_cached_block h (g # gs) q = Inr None)
    else reset_prefix_cache p = Inr (False, p)"
proof -
  obtain ys where ys: "pool_wf p ys" using pool_reach_wf [OF assms(1)] by blast
  then have yx: "ys = xs" using assms(2) queue_of_unique pool_wfD(1) by blast
  note w = pool_wfD [OF ys] and sp = reset_prefix_cache_spec [OF ys]
  show ?thesis
  proof (cases "num_gpu_blocks p - int (length ys) = 1")
    case True
    with sp obtain q where q: "reset_prefix_cache p = Inr (True, q)" "pool_wf q ys" "\<forall>c. keys_of q c = []"
      "\<forall>c. ref_cnt (heap q c) = ref_cnt (heap p c)" by auto
    have "get_cached_block h (g # gs) q = Inr None" if "\<forall>g' \<in> set (g # gs). group_ok g'" for h g gs
      using get_cached_block_spec [OF pool_wfD(7) [OF q(2)] that, of h] q(3) by (auto simp del: get_cached_block.simps)
    with q True w(3) pool_wfD(1) [OF q(2)] yx show ?thesis by (simp del: get_cached_block.simps)
  qed (use sp w(3) in simp)
qed

theorem reset_prefix_cache_forgets_witness:
  "\<exists>p q r s t. init_pool 4 True 2 False False ''GPU'' False = Inr p \<and> reset_prefix_cache p = Inr (True, q)
    \<and> get_new_blocks 2 p = Inr ([Blk 1, Blk 2], r)
    \<and> cache_full_blocks (\<lambda>_. []) sample_request [Blk 1, Blk 2] 0 1 2 7 None r = Inr (s, t)
    \<and> reset_prefix_cache t = Inr (False, t)"
proof -
  obtain p r s t where t: "init_pool 4 True 2 False False ''GPU'' False = Inr p" "get_new_blocks 2 p = Inr ([Blk 1, Blk 2], r)"
      "cache_full_blocks (\<lambda>_. []) sample_request [Blk 1, Blk 2] 0 1 2 7 None r = Inr (s, t)" "pool_reach t" "pool_wf t [Blk 3]"
      "config t = (4, True, 2, False)" by (blast intro: small_pool_cached)
  have p: "pool_reach p" "pool_wf p [Blk 1, Blk 2, Blk 3]" "config p = (4, True, 2, False)"
    using t(1) small_pool by (metis Inr_inject)+
  from reset_prefix_cache_forgets [OF p(1) pool_wfD(1) [OF p(2)]] pool_wfD(3) [OF p(2)] p(3)
  obtain q where "reset_prefix_cache p = Inr (True, q)" by (auto simp: config_def)
  moreover have "reset_prefix_cache t = Inr (False, t)"
    using reset_prefix_cache_forgets [OF t(4) pool_wfD(1) [OF t(5)]] pool_wfD(3) [OF t(5)] t(6) by (simp add: config_def)
  ultimately show ?thesis using t(1-3) by blast
qed

text \<open>
  C21. Partially filled blocks. Registering the first \<open>k\<close> hashed blocks of a request on a pool
  block succeeds, returns the key of the last of these hashes, touches no count, no queue position
  and no other block's keys. The block keeps the keys it had unless it is to be replaced or they
  stand for a shorter prefix, and a lookup of the hash now hits; moving the keys of a block to one
  that has none moves all of them.
\<close>

theorem cached_partial_block_is_found:
  assumes "pool_reach p" "partial_block_ok p r b k gid c rep" "in_pool p dst" "keys_of p dst = []" "dst \<noteq> b"
  shows "let key = pack_key (block_hashes r ! (k - 1)) gid; t = int k * hash_block_size p;
             kb = (if rep \<or> stale_key p b key t then [key] else set_add key (keys_of p b)) in
    \<exists>r' q q'. cache_partial_block dig r b t gid (int c * hash_block_size p) rep p = Inr (Some key, r', q)
    \<and> same_refs p q \<and> keys_of q = (keys_of p)(b := kb)
    \<and> (\<exists>b'. get_cached_block (block_hashes r ! (k - 1)) [gid] q = Inr (Some [b']))
    \<and> move_block_hashes b dst q = Inr q' \<and> keys_of q' = (keys_of p)(b := [], dst := kb)"
proof -
  define key where "key = pack_key (block_hashes r ! (k - 1)) gid"
  define t where "t = int k * hash_block_size p"
  define kb where "kb = (if rep \<or> stale_key p b key t then [key] else set_add key (keys_of p b))"
  obtain xs where xs: "pool_wf p xs" using pool_reach_wf [OF assms(1)] by blast
  obtain m q where q: "cache_partial_block dig r b t gid (int c * hash_block_size p) rep p = Inr (Some key, with_memo r m, q)"
      "pool_wf q xs" "same_refs p q" "keys_of q = (keys_of p)(b := kb)"
    using cache_partial_block_spec [OF xs assms(2) key_def t_def, of dig] kb_def by auto
  have g: "group_ok gid" and b: "in_pool q b" "in_pool q dst"
    using assms(2,3) q(3) by (auto simp: partial_block_ok_def same_refs_def in_pool_def)
  have "key \<in> set (keys_of q b)" using q(4) by (simp add: kb_def set_add_def)
  then have "\<exists>b'. get_cached_block (block_hashes r ! (k - 1)) [gid] q = Inr (Some [b'])"
    using get_cached_block_spec [OF pool_wfD(7) [OF q(2)], of "[gid]" "block_hashes r ! (k - 1)"] g b(1)
    by (auto simp: key_def simp del: get_cached_block.simps)
  moreover obtain q' where "move_block_hashes b dst q = Inr q'" "keys_of q' = (keys_of q)(b := [], dst := keys_of q b)"
    using move_block_hashes_spec [OF q(2) b(2), of b] q(4) assms(4,5) by auto
  ultimately show ?thesis using q unfolding key_def [symmetric] t_def [symmetric] Let_def kb_def [symmetric]
    by (intro exI [of _ "with_memo r m"] exI [of _ q] exI [of _ q']) auto
qed

theorem cached_partial_block_is_found_witness:
  "\<exists>p q r s t. init_pool 4 True 2 False False ''GPU'' False = Inr p \<and> get_new_blocks 2 p = Inr ([Blk 1, Blk 2], q)
    \<and> cache_partial_block (\<lambda>_. []) sample_request (Blk 1) (int 1 * hash_block_size q) 7 (int 2 * hash_block_size q) False q
        = Inr (Some (pack_key [5] 7), r, s)
    \<and> move_block_hashes (Blk 1) (Blk 2) s = Inr t"
proof -
  obtain p q where q: "init_pool 4 True 2 False False ''GPU'' False = Inr p" "get_new_blocks 2 p = Inr ([Blk 1, Blk 2], q)"
      "pool_reach q" "config q = (4, True, 2, False)" "\<forall>c. keys_of q c = []" by (blast intro: small_pool_two_taken)
  have ok: "partial_block_ok q sample_request (Blk 1) 1 7 2 False"
    using q(4) two_taken_in_pool [OF q(4), of 1]
    by (simp add: partial_block_ok_def config_def sample_request_def group_ok_def)
  have "in_pool q (Blk 2)" using two_taken_in_pool [OF q(4), of 2] by simp
  with cached_partial_block_is_found [OF q(3) ok, of "Blk 2" "\<lambda>_. []"] q(5)
  obtain r s t where "cache_partial_block (\<lambda>_. []) sample_request (Blk 1) (int 1 * hash_block_size q) 7 (int 2 * hash_block_size q) False q
        = Inr (Some (pack_key (block_hashes sample_request ! (1 - 1)) 7), r, s)" "move_block_hashes (Blk 1) (Blk 2) s = Inr t"
    unfolding Let_def by auto
  moreover have "block_hashes sample_request ! (1 - 1) = [5]" by (simp add: sample_request_def)
  ultimately show ?thesis using q(1,2) by auto
qed

end
