(* ===== verification/Heapq.thy ===== *)
theory Heapq
  imports Prelude
begin

text \<open>
  Python's \<open>heapq\<close> on lists (\<open>heappush\<close>, \<open>heappop\<close>, \<open>heapify\<close> and the two sifts they share, as the
  standard library defines them), for a comparison \<open>lt\<close>. Under the contract that \<open>lt\<close> compares keys
  of a linear order, the sifts restore the heap, and popping until the list is empty sorts it.
\<close>

subsection \<open>Definitions\<close>

abbreviation parent :: "nat \<Rightarrow> nat" where
  "parent i \<equiv> (i - 1) div 2"

text \<open>\<open>_siftdown(heap, startpos, pos)\<close>: \<open>x\<close> is the new item, \<open>pos\<close> the place left for it.\<close>

function sift_up_path :: "('a \<Rightarrow> 'a \<Rightarrow> bool) \<Rightarrow> nat \<Rightarrow> nat \<Rightarrow> 'a \<Rightarrow> 'a list \<Rightarrow> 'a list" where
  "sift_up_path lt startpos pos x h =
     (if startpos < pos \<and> lt x (h ! parent pos)
      then sift_up_path lt startpos (parent pos) x (h[pos := h ! parent pos])
      else h[pos := x])"
  by pat_completeness auto

termination
  by (relation "measure (\<lambda>(lt, startpos, pos, x, h). pos)") auto

definition siftdown :: "('a \<Rightarrow> 'a \<Rightarrow> bool) \<Rightarrow> nat \<Rightarrow> nat \<Rightarrow> 'a list \<Rightarrow> 'a list" where
  "siftdown lt startpos pos h = sift_up_path lt startpos pos (h ! pos) h"

text \<open>The loop of \<open>_siftup\<close>: move the smaller child up until a leaf is hit.\<close>

definition smaller_child :: "('a \<Rightarrow> 'a \<Rightarrow> bool) \<Rightarrow> nat \<Rightarrow> 'a list \<Rightarrow> nat" where
  "smaller_child lt pos h =
     (let childpos = 2 * pos + 1; rightpos = childpos + 1
      in if rightpos < length h \<and> \<not> lt (h ! childpos) (h ! rightpos) then rightpos else childpos)"

function sift_to_leaf :: "('a \<Rightarrow> 'a \<Rightarrow> bool) \<Rightarrow> nat \<Rightarrow> 'a list \<Rightarrow> nat \<times> 'a list" where
  "sift_to_leaf lt pos h =
     (if 2 * pos + 1 < length h
      then sift_to_leaf lt (smaller_child lt pos h) (h[pos := h ! smaller_child lt pos h])
      else (pos, h))"
  by pat_completeness auto

termination
  by (relation "measure (\<lambda>(lt, pos, h). length h - pos)") (auto simp: smaller_child_def Let_def)

definition siftup :: "('a \<Rightarrow> 'a \<Rightarrow> bool) \<Rightarrow> nat \<Rightarrow> 'a list \<Rightarrow> 'a list" where
  "siftup lt pos h = (case sift_to_leaf lt pos h of (leaf, h') \<Rightarrow> siftdown lt pos leaf (h'[leaf := h ! pos]))"

definition heappush :: "('a \<Rightarrow> 'a \<Rightarrow> bool) \<Rightarrow> 'a list \<Rightarrow> 'a \<Rightarrow> 'a list" where
  "heappush lt h x = siftdown lt 0 (length h) (h @ [x])"

definition heappop :: "('a \<Rightarrow> 'a \<Rightarrow> bool) \<Rightarrow> 'a list \<Rightarrow> ('a \<times> 'a list) result" where
  "heappop lt h =
     (if h = [] then Inl IndexError
      else if butlast h = [] then Inr (last h, [])
      else Inr (hd h, siftup lt 0 ((butlast h)[0 := last h])))"

primrec heapify_from :: "('a \<Rightarrow> 'a \<Rightarrow> bool) \<Rightarrow> nat \<Rightarrow> 'a list \<Rightarrow> 'a list" where
  "heapify_from lt 0 h = h"
| "heapify_from lt (Suc i) h = heapify_from lt i (siftup lt i h)"

definition heapify :: "('a \<Rightarrow> 'a \<Rightarrow> bool) \<Rightarrow> 'a list \<Rightarrow> 'a list" where
  "heapify lt h = heapify_from lt (length h div 2) h"

declare sift_up_path.simps [simp del] sift_to_leaf.simps [simp del]

subsection \<open>Lengths and contents\<close>

lemma mset_update_move:
  assumes "i < length h" "j < length h" "i \<noteq> j"
  shows "mset (h[i := h ! j, j := x]) = mset (h[i := x])"
proof -
  have "h[i := h ! j, j := x] = (h[i := x])[i := h[i := x] ! j, j := h[i := x] ! i]"
    using assms by (simp add: list_update_swap)
  then show ?thesis using assms by (simp only: mset_swap length_list_update)
qed

lemma sift_up_path_mset:
  "pos < length h \<Longrightarrow> mset (sift_up_path lt s pos x h) = mset (h[pos := x])"
proof (induction lt s pos x h rule: sift_up_path.induct)
  case (1 lt s pos x h)
  show ?case
  proof (cases "s < pos \<and> lt x (h ! parent pos)")
    case True
    then have "parent pos < length h" "pos \<noteq> parent pos" using 1(2) by auto
    with True 1 show ?thesis
      by (subst sift_up_path.simps) (simp add: mset_update_move)
  qed (subst sift_up_path.simps, auto)
qed

lemma sift_up_path_length [simp]: "length (sift_up_path lt s pos x h) = length h"
  by (induction lt s pos x h rule: sift_up_path.induct) (subst sift_up_path.simps, simp)

lemma siftdown_mset: "pos < length h \<Longrightarrow> mset (siftdown lt s pos h) = mset h"
  by (simp add: siftdown_def sift_up_path_mset)

lemma siftdown_length [simp]: "length (siftdown lt s pos h) = length h"
  by (simp add: siftdown_def)

lemma smaller_child_bounds:
  "2 * pos + 1 < length h \<Longrightarrow> pos < smaller_child lt pos h \<and> smaller_child lt pos h < length h
    \<and> parent (smaller_child lt pos h) = pos"
  by (auto simp: smaller_child_def Let_def)

lemma sift_to_leaf_spec:
  "sift_to_leaf lt pos h = (leaf, h') \<Longrightarrow> pos < length h \<Longrightarrow>
    leaf < length h \<and> length h' = length h \<and> length h \<le> 2 * leaf + 1 \<and> mset (h'[leaf := x]) = mset (h[pos := x])"
proof (induction lt pos h rule: sift_to_leaf.induct)
  case (1 lt pos h)
  show ?case
  proof (cases "2 * pos + 1 < length h")
    case True
    note b = smaller_child_bounds [OF True, of lt]
    have "sift_to_leaf lt (smaller_child lt pos h) (h[pos := h ! smaller_child lt pos h]) = (leaf, h')"
      using 1(2) True by (simp add: sift_to_leaf.simps [of lt pos h])
    from 1(1) [OF True this] b mset_update_move [of pos h "smaller_child lt pos h" x] 1(3) show ?thesis by simp
  qed (use 1(2,3) in \<open>simp add: sift_to_leaf.simps [of lt pos h]\<close>)
qed

lemma siftup_mset: "pos < length h \<Longrightarrow> mset (siftup lt pos h) = mset h"
  using sift_to_leaf_spec [of lt pos h _ _ "h ! pos"]
  by (cases "sift_to_leaf lt pos h") (simp add: siftup_def siftdown_mset)

lemma siftup_length [simp]: "pos < length h \<Longrightarrow> length (siftup lt pos h) = length h"
  by (metis siftup_mset size_mset)

lemma heappush_mset: "mset (heappush lt h x) = add_mset x (mset h)"
  by (simp add: heappush_def siftdown_mset)

lemma heapify_from_mset: "n \<le> length h \<Longrightarrow> mset (heapify_from lt n h) = mset h"
  by (induction n arbitrary: h) (simp_all add: siftup_mset)

lemma heapify_mset: "mset (heapify lt h) = mset h"
  by (simp add: heapify_def heapify_from_mset)

lemma heappop_cases:
  assumes "h \<noteq> []"
  obtains h' where "heappop lt h = Inr (hd h, h')" "mset h = add_mset (hd h) (mset h')" "length h' = length h - 1"
proof (cases "butlast h = []")
  case True
  then obtain x where "h = [x]" using assms by (cases h rule: rev_cases) auto
  with that show thesis by (simp add: heappop_def)
next
  case False
  then obtain y ys x where h: "h = y # ys @ [x]"
    using assms by (metis append_butlast_last_id butlast.simps(2) list.exhaust append_Cons)
  have "mset (siftup lt 0 (x # ys)) = mset (x # ys)" by (rule siftup_mset) simp
  with that [of "siftup lt 0 (x # ys)"] False h show thesis
    by (simp add: heappop_def add_mset_commute)
qed

text \<open>Iterating a priority queue: pop from a copy until it is empty.\<close>

function drain :: "('a \<Rightarrow> 'a \<Rightarrow> bool) \<Rightarrow> 'a list \<Rightarrow> 'a list" where
  "drain lt h = (case heappop lt h of Inl e \<Rightarrow> [] | Inr (x, h') \<Rightarrow> x # drain lt h')"
  by pat_completeness auto

termination
proof (relation "measure (\<lambda>(lt, h). length h)")
  fix lt :: "'a \<Rightarrow> 'a \<Rightarrow> bool" and h b x h'
  assume r: "heappop lt h = Inr b" "(x, h') = b"
  then have "h \<noteq> []" by (auto simp: heappop_def)
  then obtain h'' where "heappop lt h = Inr (hd h, h'')" "length h'' = length h - 1" by (rule heappop_cases [of h lt])
  with r \<open>h \<noteq> []\<close> show "((lt, h'), (lt, h)) \<in> measure (\<lambda>(lt, h). length h)" by (cases h) auto
qed simp

declare drain.simps [simp del]

lemma drain_Nil [simp]: "drain lt [] = []"
  by (simp add: drain.simps heappop_def)

lemma drain_step: "heappop lt h = Inr (x, h') \<Longrightarrow> drain lt h = x # drain lt h'"
  by (simp add: drain.simps [of lt h])

lemma drain_mset: "mset (drain lt h) = mset h"
proof (induction h rule: length_induct)
  case (1 h)
  show ?case
  proof (cases "h = []")
    case False
    then obtain h' where "heappop lt h = Inr (hd h, h')" "mset h = add_mset (hd h) (mset h')" "length h' = length h - 1"
      by (rule heappop_cases [of h lt])
    with False 1 show ?thesis by (cases h) (auto simp: drain_step)
  qed simp
qed

subsection \<open>The heap order\<close>

text \<open>\<open>under s p\<close>: position \<open>p\<close> is in the subtree of \<open>s\<close>.\<close>

fun under :: "nat \<Rightarrow> nat \<Rightarrow> bool" where
  "under s p = (if s < p then under s (parent p) else p = s)"

declare under.simps [simp del]

lemma under_le: "under s p \<Longrightarrow> s \<le> p"
  by (subst (asm) under.simps) (auto split: if_splits)

lemma under_parent: "under s p \<Longrightarrow> s < p \<Longrightarrow> under s (parent p) \<and> s \<le> parent p"
  using under.simps [of s p] under_le [of s "parent p"] by auto

lemma under_child: "under s (parent c) \<Longrightarrow> 0 < c \<Longrightarrow> under s c"
  using under.simps [of s c] under_le [of s "parent c"] by auto

lemma under_refl [simp]: "under s s"
  by (subst under.simps) simp

lemma under_root: "under 0 p"
  by (induction p rule: less_induct) (subst under.simps, auto)

locale key_order =
  fixes lt :: "'a \<Rightarrow> 'a \<Rightarrow> bool" and key :: "'a \<Rightarrow> 'k :: linorder"
  assumes lt_key: "lt a b \<longleftrightarrow> key a < key b"
begin

text \<open>The heap order below the positions from \<open>s\<close> on; and the same with a hole at \<open>pos\<close>.\<close>

definition heap_from :: "nat \<Rightarrow> 'a list \<Rightarrow> bool" where
  "heap_from s h \<longleftrightarrow> (\<forall>i. 0 < i \<and> i < length h \<and> s \<le> parent i \<longrightarrow> key (h ! parent i) \<le> key (h ! i))"

definition bridged :: "nat \<Rightarrow> nat \<Rightarrow> 'a list \<Rightarrow> bool" where
  "bridged s pos h \<longleftrightarrow> under s pos \<and> pos < length h
     \<and> (s < pos \<longrightarrow> (\<forall>c. 0 < c \<and> c < length h \<and> parent c = pos \<longrightarrow> key (h ! parent pos) \<le> key (h ! c)))"

lemma sift_up_path_heap:
  assumes "bridged s pos h"
    and "\<And>i. 0 < i \<Longrightarrow> i < length h \<Longrightarrow> s \<le> parent i \<Longrightarrow> i \<noteq> pos \<Longrightarrow> key (h[pos := x] ! parent i) \<le> key (h ! i)"
  shows "heap_from s (sift_up_path lt s pos x h)"
  using assms
proof (induction pos arbitrary: h rule: less_induct)
  case (less pos h)
  let ?par = "parent pos" and ?h = "h[pos := h ! parent pos]"
  have pos: "under s pos" "pos < length h" and br: "\<And>c. s < pos \<Longrightarrow> 0 < c \<Longrightarrow> c < length h \<Longrightarrow> parent c = pos \<Longrightarrow> key (h ! ?par) \<le> key (h ! c)"
    using less.prems(1) by (auto simp: bridged_def)
  show ?case
  proof (cases "s < pos \<and> lt x (h ! ?par)")
    case True
    then have lt: "key x < key (h ! ?par)" "s < pos" and up: "under s ?par" "s \<le> ?par" "?par < pos"
      using under_parent [OF pos(1)] by (auto simp: lt_key)
    have sib: "key (h ! ?par) \<le> key (h ! c)" if "0 < c" "c < length h" "parent c = ?par" "c \<noteq> pos" for c
      using less.prems(2) [of c] that up by simp
    have gp: "key (h ! parent ?par) \<le> key (h ! ?par)" if "s < ?par"
      using less.prems(2) [of ?par] that up pos(2) under_parent [OF up(1) that] by simp
    have "bridged s ?par ?h"
      unfolding bridged_def using up pos(2) sib gp by (auto intro: order_trans simp: nth_list_update)
    moreover have "key (?h[?par := x] ! parent i) \<le> key (?h ! i)"
      if i: "0 < i" "i < length ?h" "s \<le> parent i" "i \<noteq> ?par" for i
    proof (cases "parent i = ?par")
      case p: True
      then show ?thesis using lt sib [of i] i pos(2) up by (cases "i = pos") auto
    next
      case np: False
      then have "i \<noteq> pos" by auto
      then show ?thesis using np i br [of i] lt(2) less.prems(2) [of i] pos(2) by (cases "parent i = pos") auto
    qed
    ultimately have "heap_from s (sift_up_path lt s ?par x ?h)" using less.IH [OF up(3)] by blast
    with True show ?thesis by (simp add: sift_up_path.simps [of lt s pos x h])
  next
    case False
    have "key (h[pos := x] ! parent i) \<le> key (h[pos := x] ! i)" if i: "0 < i" "i < length h" "s \<le> parent i" for i
    proof (cases "i = pos")
      case True
      then have "s < pos" using i by auto
      with False True i pos(2) show ?thesis by (auto simp: lt_key)
    qed (use less.prems(2) i in auto)
    with False show ?thesis by (auto simp: sift_up_path.simps [of lt s pos x h] heap_from_def)
  qed
qed

lemma smaller_child_le:
  assumes "2 * pos + 1 < length h" "0 < c" "c < length h" "parent c = pos"
  shows "key (h ! smaller_child lt pos h) \<le> key (h ! c)"
proof -
  have "c = 2 * pos + 1 \<or> c = 2 * pos + 2" using assms(2,4) by presburger
  with assms(3) show ?thesis by (auto simp: smaller_child_def lt_key not_less Let_def)
qed

lemma sift_to_leaf_heap:
  assumes "sift_to_leaf lt pos h = (leaf, h')" "bridged s pos h"
    and "\<And>i. 0 < i \<Longrightarrow> i < length h \<Longrightarrow> s \<le> parent i \<Longrightarrow> i \<noteq> pos \<Longrightarrow> parent i \<noteq> pos \<Longrightarrow> key (h ! parent i) \<le> key (h ! i)"
  shows "bridged s leaf h'
    \<and> (\<forall>i. 0 < i \<and> i < length h' \<and> s \<le> parent i \<and> i \<noteq> leaf \<longrightarrow> key (h' ! parent i) \<le> key (h' ! i))"
  using assms
proof (induction "length h - pos" arbitrary: pos h rule: less_induct)
  case (less pos h)
  have pos: "under s pos" "pos < length h" and br: "\<And>c. s < pos \<Longrightarrow> 0 < c \<Longrightarrow> c < length h \<Longrightarrow> parent c = pos \<Longrightarrow> key (h ! parent pos) \<le> key (h ! c)"
    using less.prems(2) by (auto simp: bridged_def)
  show ?case
  proof (cases "2 * pos + 1 < length h")
    case True
    define c where "c = smaller_child lt pos h"
    have c: "pos < c" "c < length h" "parent c = pos" using smaller_child_bounds [OF True, of lt] by (auto simp: c_def)
    have min: "key (h ! c) \<le> key (h ! d)" if "0 < d" "d < length h" "parent d = pos" for d
      unfolding c_def using smaller_child_le [OF True that] .
    let ?h = "h[pos := h ! c]"
    have step: "sift_to_leaf lt c ?h = (leaf, h')"
      using less.prems(1) True by (simp add: sift_to_leaf.simps [of lt pos h] c_def)
    have below: "key (h ! c) \<le> key (h ! d)" if "0 < d" "d < length h" "parent d = c" for d
      using less.prems(3) [of d] that c under_le [OF pos(1)] by auto
    have "under s c" using under_child [of s c] pos(1) c by simp
    then have "bridged s c ?h" using c pos(2) below by (auto simp: bridged_def nth_list_update)
    moreover have "key (?h ! parent i) \<le> key (?h ! i)"
      if i: "0 < i" "i < length ?h" "s \<le> parent i" "i \<noteq> c" "parent i \<noteq> c" for i
    proof (cases "i = pos")
      case True
      then have "s < pos" "parent pos \<noteq> pos" using i by auto
      with True i br [of c] c pos(2) show ?thesis by auto
    next
      case False
      then show ?thesis using i min [of i] less.prems(3) [of i] pos(2) by (cases "parent i = pos") auto
    qed
    ultimately show ?thesis using less.hyps [OF _ step] c by auto
  next
    case False
    then have "leaf = pos" "h' = h" using less.prems(1) by (simp_all add: sift_to_leaf.simps [of lt pos h])
    moreover have "parent i \<noteq> pos" if "0 < i" "i < length h" for i using that False by auto
    ultimately show ?thesis using less.prems(2,3) by auto
  qed
qed

lemma siftup_heap:
  assumes "heap_from (Suc s) h" "s < length h"
  shows "heap_from s (siftup lt s h)"
proof -
  obtain leaf h' where l: "sift_to_leaf lt s h = (leaf, h')" by fastforce
  have "bridged s s h" using assms(2) by (simp add: bridged_def)
  then have w: "bridged s leaf h'" and o: "\<And>i. 0 < i \<Longrightarrow> i < length h' \<Longrightarrow> s \<le> parent i \<Longrightarrow> i \<noteq> leaf \<Longrightarrow> key (h' ! parent i) \<le> key (h' ! i)"
    using sift_to_leaf_heap [OF l, of s] assms(1) by (auto simp: heap_from_def)
  note sp = sift_to_leaf_spec [OF l assms(2), of "h ! s"]
  have nl: "leaf \<noteq> parent i" if "0 < i" "i < length h'" for i using that sp by auto
  have "bridged s leaf (h'[leaf := h ! s])" using w nl by (auto simp: bridged_def)
  then have "heap_from s (sift_up_path lt s leaf (h ! s) (h'[leaf := h ! s]))"
    by (rule sift_up_path_heap) (use o nl in auto)
  then show ?thesis using l sp by (simp add: siftup_def siftdown_def)
qed

lemma heappush_heap:
  assumes "heap_from 0 h"
  shows "heap_from 0 (heappush lt h x)"
proof -
  have p: "parent c \<noteq> length h" if "0 < c" "c < Suc (length h)" for c using that by auto
  then have "bridged 0 (length h) (h @ [x])" by (auto simp: bridged_def under_root)
  then have "heap_from 0 (sift_up_path lt 0 (length h) x (h @ [x]))"
    by (rule sift_up_path_heap) (use assms in \<open>auto simp: heap_from_def nth_append\<close>)
  then show ?thesis by (simp add: heappush_def siftdown_def)
qed

lemma heapify_from_heap:
  "heap_from n h \<Longrightarrow> n \<le> length h \<Longrightarrow> heap_from 0 (heapify_from lt n h)"
  by (induction n arbitrary: h) (auto simp: siftup_heap)

lemma heapify_heap: "heap_from 0 (heapify lt h)"
proof -
  have "heap_from (length h div 2) h" by (auto simp: heap_from_def)
  then show ?thesis by (simp add: heapify_def heapify_from_heap)
qed

lemma heap_root_min:
  assumes "heap_from 0 h" "i < length h"
  shows "key (h ! 0) \<le> key (h ! i)"
  using assms(2)
proof (induction i rule: less_induct)
  case (less i)
  show ?case
  proof (cases "i = 0")
    case False
    then have "key (h ! 0) \<le> key (h ! parent i)" using less by simp
    also have "\<dots> \<le> key (h ! i)" using assms(1) less.prems False by (simp add: heap_from_def)
    finally show ?thesis .
  qed simp
qed

lemma heappop_heap:
  assumes "heap_from 0 h" "heappop lt h = Inr (x, h')"
  shows "heap_from 0 h' \<and> (\<forall>y \<in> set h. key x \<le> key y) \<and> mset h = add_mset x (mset h')"
proof -
  have ne: "h \<noteq> []" using assms(2) by (auto simp: heappop_def)
  then have x: "x = hd h" "mset h = add_mset x (mset h')"
    using assms(2) heappop_cases [of h lt] by (metis Inr_inject prod.inject)+
  have "heap_from 0 h'"
  proof (cases "butlast h = []")
    case False
    have "heap_from (Suc 0) ((butlast h)[0 := last h])"
      using assms(1) by (auto simp: heap_from_def nth_butlast)
    with siftup_heap [of 0] False assms(2) ne show ?thesis by (auto simp: heappop_def)
  qed (use assms(2) ne in \<open>auto simp: heappop_def heap_from_def\<close>)
  moreover have "\<forall>y \<in> set h. key x \<le> key y"
    using heap_root_min [OF assms(1)] ne x(1) by (auto simp: in_set_conv_nth hd_conv_nth)
  ultimately show ?thesis using x(2) by blast
qed

text \<open>Popping everything sorts.\<close>

lemma drain_sorted: "heap_from 0 h \<Longrightarrow> sorted (map key (drain lt h))"
proof (induction h rule: length_induct)
  case (1 h)
  show ?case
  proof (cases "h = []")
    case False
    obtain h' where h': "heappop lt h = Inr (hd h, h')" "length h' = length h - 1"
      using heappop_cases [OF False, of lt] by blast
    note p = heappop_heap [OF 1(2) h'(1)]
    have "set (drain lt h') = set h'" by (metis drain_mset set_mset_mset)
    moreover have "set h' \<subseteq> set h" using p by (metis set_mset_add_mset_insert set_mset_mset subset_insertI)
    moreover have "length h' < length h" using h'(2) False by (cases h) simp_all
    ultimately show ?thesis using 1(1) p by (auto simp: drain_step [OF h'(1)])
  qed simp
qed

end

end
