(* ===== verification/Request_Queue.thy ===== *)
theory Request_Queue
  imports Heapq Request
begin

text \<open>
  The waiting queues of the scheduler (\<open>src/vllm/v1/core/sched/request_queue.py\<close>): the two
  implementations of \<open>RequestQueue\<close>, a deque served first come first served and a binary heap served
  by priority. A request is an object: removal and membership compare identities (\<open>py_id\<close>), as
  \<open>Request\<close> defines no equality of its own. The contract both classes promise is a locale,
  interpreted on them.
\<close>

subsection \<open>The two queues\<close>

datatype scheduling_policy = FCFS | PRIORITY

datatype request_queue =
    FCFSRequestQueue "request list"
  | PriorityRequestQueue (heap_list: "request list")

primrec create_request_queue :: "scheduling_policy \<Rightarrow> request_queue" where
  "create_request_queue FCFS = FCFSRequestQueue []"
| "create_request_queue PRIORITY = PriorityRequestQueue []"

text \<open>\<open>list.remove\<close> and \<open>deque.remove\<close>: the first element that is the object.\<close>

primrec remove_object :: "int \<Rightarrow> request list \<Rightarrow> request list result" where
  "remove_object i [] = Inl ValueError"
| "remove_object i (r # rs) =
     (if py_id r = i then Inr rs else bindE (remove_object i rs) (\<lambda>rs'. Inr (r # rs')))"

text \<open>\<open>FCFSRequestQueue\<close>, a deque; \<open>extendleft\<close> pushes one element after the other to the left.\<close>

definition fcfs_pop :: "request list \<Rightarrow> (request \<times> request list) result" where
  "fcfs_pop q = (case q of [] \<Rightarrow> Inl IndexError | r # q' \<Rightarrow> Inr (r, q'))"

definition fcfs_peek :: "request list \<Rightarrow> request result" where
  "fcfs_peek q = (if q = [] then Inl IndexError else Inr (q ! 0))"

definition fcfs_prepend_requests :: "request list \<Rightarrow> request list \<Rightarrow> request list" where
  "fcfs_prepend_requests q requests = fold (#) requests q"

definition fcfs_remove_requests :: "request list \<Rightarrow> request list \<Rightarrow> request list" where
  "fcfs_remove_requests q requests = filter (\<lambda>r. py_id r \<notin> py_id ` set requests) q"

text \<open>\<open>PriorityRequestQueue\<close>, a heap.\<close>

definition prio_pop :: "request list \<Rightarrow> (request \<times> request list) result" where
  "prio_pop h = (if h = [] then Inl IndexError else heappop request_lt h)"

definition prio_peek :: "request list \<Rightarrow> request result" where
  "prio_peek h = (if h = [] then Inl IndexError else Inr (h ! 0))"

definition prio_add :: "request list \<Rightarrow> request \<Rightarrow> request list" where
  "prio_add h r = heappush request_lt h r"

definition prio_prepend_requests :: "request list \<Rightarrow> request list \<Rightarrow> request list" where
  "prio_prepend_requests h requests = foldl prio_add h requests"

definition prio_remove :: "request list \<Rightarrow> request \<Rightarrow> request list result" where
  "prio_remove h r = bindE (remove_object (py_id r) h) (\<lambda>h'. Inr (heapify request_lt h'))"

definition prio_remove_requests :: "request list \<Rightarrow> request list \<Rightarrow> request list" where
  "prio_remove_requests h requests = heapify request_lt (filter (\<lambda>r. py_id r \<notin> py_id ` set requests) h)"

definition prio_iter :: "request list \<Rightarrow> request list" where
  "prio_iter h = drain request_lt h"

lemmas queue_ops = fcfs_pop_def fcfs_peek_def fcfs_prepend_requests_def fcfs_remove_requests_def prio_pop_def prio_peek_def
  prio_add_def prio_prepend_requests_def prio_remove_def prio_remove_requests_def prio_iter_def

declare queue_ops [simp]

text \<open>The methods of \<open>RequestQueue\<close>.\<close>

primrec add_request :: "request_queue \<Rightarrow> request \<Rightarrow> request_queue" where
  "add_request (FCFSRequestQueue q) r = FCFSRequestQueue (q @ [r])"
| "add_request (PriorityRequestQueue h) r = PriorityRequestQueue (prio_add h r)"

primrec pop_request :: "request_queue \<Rightarrow> (request \<times> request_queue) result" where
  "pop_request (FCFSRequestQueue q) = bindE (fcfs_pop q) (\<lambda>(r, q'). Inr (r, FCFSRequestQueue q'))"
| "pop_request (PriorityRequestQueue h) = bindE (prio_pop h) (\<lambda>(r, h'). Inr (r, PriorityRequestQueue h'))"

primrec peek_request :: "request_queue \<Rightarrow> request result" where
  "peek_request (FCFSRequestQueue q) = fcfs_peek q"
| "peek_request (PriorityRequestQueue h) = prio_peek h"

primrec prepend_request :: "request_queue \<Rightarrow> request \<Rightarrow> request_queue" where
  "prepend_request (FCFSRequestQueue q) r = FCFSRequestQueue (r # q)"
| "prepend_request (PriorityRequestQueue h) r = add_request (PriorityRequestQueue h) r"

primrec queue_iter :: "request_queue \<Rightarrow> request list" where
  "queue_iter (FCFSRequestQueue q) = q"
| "queue_iter (PriorityRequestQueue h) = prio_iter h"

primrec prepend_requests :: "request_queue \<Rightarrow> request_queue \<Rightarrow> request_queue" where
  "prepend_requests (FCFSRequestQueue q) requests = FCFSRequestQueue (fcfs_prepend_requests q (queue_iter requests))"
| "prepend_requests (PriorityRequestQueue h) requests =
     PriorityRequestQueue (prio_prepend_requests h (queue_iter requests))"

primrec remove_request :: "request_queue \<Rightarrow> request \<Rightarrow> request_queue result" where
  "remove_request (FCFSRequestQueue q) r = bindE (remove_object (py_id r) q) (\<lambda>q'. Inr (FCFSRequestQueue q'))"
| "remove_request (PriorityRequestQueue h) r = bindE (prio_remove h r) (\<lambda>h'. Inr (PriorityRequestQueue h'))"

primrec remove_requests :: "request_queue \<Rightarrow> request list \<Rightarrow> request_queue" where
  "remove_requests (FCFSRequestQueue q) requests = FCFSRequestQueue (fcfs_remove_requests q requests)"
| "remove_requests (PriorityRequestQueue h) requests = PriorityRequestQueue (prio_remove_requests h requests)"



text \<open>A client that pops \<open>n\<close> requests.\<close>

primrec pop_requests :: "('q \<Rightarrow> ('r \<times> 'q) result) \<Rightarrow> nat \<Rightarrow> 'q \<Rightarrow> ('r list \<times> 'q) result" where
  "pop_requests pop 0 q = Inr ([], q)"
| "pop_requests pop (Suc n) q =
     bindE (pop q) (\<lambda>(r, q'). bindE (pop_requests pop n q') (\<lambda>(rs, q''). Inr (r # rs, q'')))"

subsection \<open>The contract\<close>

text \<open>
  \<open>items q\<close> are the queued requests in the order of service. Popping serves the first and keeps the
  rest; removal keeps the order of the others.
\<close>

locale service_queue =
  fixes inv :: "'q \<Rightarrow> bool" and items :: "'q \<Rightarrow> 'r list" and oid :: "'r \<Rightarrow> int"
    and add :: "'q \<Rightarrow> 'r \<Rightarrow> 'q" and pop :: "'q \<Rightarrow> ('r \<times> 'q) result" and peek :: "'q \<Rightarrow> 'r result"
    and discard :: "'q \<Rightarrow> 'r \<Rightarrow> 'q result"
  assumes distinct_items: "inv q \<Longrightarrow> distinct (map oid (items q))"
    and pop_Nil: "inv q \<Longrightarrow> items q = [] \<Longrightarrow> pop q = Inl IndexError"
    and pop_Cons: "inv q \<Longrightarrow> items q = r # rs \<Longrightarrow> \<exists>q'. pop q = Inr (r, q') \<and> inv q' \<and> items q' = rs"
    and peek_eq: "inv q \<Longrightarrow> peek q = bindE (pop q) (\<lambda>(r, q'). Inr r)"
    and add_inv: "inv q \<Longrightarrow> oid r \<notin> oid ` set (items q) \<Longrightarrow> inv (add q r)"
    and add_items: "inv q \<Longrightarrow> oid r \<notin> oid ` set (items q) \<Longrightarrow>
      \<exists>pre suf. items q = pre @ suf \<and> items (add q r) = pre @ r # suf"
    and discard_ok: "inv q \<Longrightarrow> r \<in> set (items q) \<Longrightarrow>
      \<exists>q'. discard q r = Inr q' \<and> inv q' \<and> items q' = filter (\<lambda>x. oid x \<noteq> oid r) (items q)"
    and discard_fail: "inv q \<Longrightarrow> oid r \<notin> oid ` set (items q) \<Longrightarrow> discard q r = Inl ValueError"
begin

lemma pops_serve_in_order:
  "inv q \<Longrightarrow> n \<le> length (items q) \<Longrightarrow>
    \<exists>q'. pop_requests pop n q = Inr (take n (items q), q') \<and> inv q' \<and> items q' = drop n (items q)"
proof (induction n arbitrary: q)
  case (Suc n)
  then obtain r rs where rs: "items q = r # rs" by (cases "items q") auto
  with pop_Cons Suc.prems(1) obtain q1 where q1: "pop q = Inr (r, q1)" "inv q1" "items q1 = rs" by blast
  with Suc.IH [of q1] Suc.prems rs show ?case by auto
qed simp

lemma pops_too_many: "inv q \<Longrightarrow> length (items q) < n \<Longrightarrow> pop_requests pop n q = Inl IndexError"
proof (induction n arbitrary: q)
  case (Suc n)
  show ?case
  proof (cases "items q")
    case (Cons r rs)
    with pop_Cons Suc.prems(1) obtain q1 where "pop q = Inr (r, q1)" "inv q1" "items q1 = rs" by blast
    with Suc Cons show ?thesis by simp
  qed (use Suc.prems pop_Nil in simp)
qed simp

text \<open>A request that is added and taken suf leaves the queue as it was.\<close>

lemma add_discard:
  assumes "inv q" "oid r \<notin> oid ` set (items q)"
  shows "\<exists>q'. discard (add q r) r = Inr q' \<and> items q' = items q"
proof -
  obtain pre suf where fb: "items q = pre @ suf" "items (add q r) = pre @ r # suf"
    using add_items [OF assms] by blast
  then obtain q' where "discard (add q r) r = Inr q'" "items q' = filter (\<lambda>x. oid x \<noteq> oid r) (items (add q r))"
    using discard_ok [OF add_inv [OF assms], of r] by auto
  moreover have "\<forall>x \<in> set pre \<union> set suf. oid x \<noteq> oid r" using assms(2) fb(1) by (simp add: image_iff) metis
  ultimately show ?thesis using fb by (simp add: filter_id_conv)
qed

end

subsection \<open>The contract holds\<close>

interpretation rh: key_order request_lt request_key
  by unfold_locales (rule request_lt_key)

primrec queue_inv :: "request_queue \<Rightarrow> bool" where
  "queue_inv (FCFSRequestQueue q) = distinct (map py_id q)"
| "queue_inv (PriorityRequestQueue h) = (distinct (map py_id h) \<and> rh.heap_from 0 h)"

lemma request_key_inj: "distinct (map py_id rs) \<Longrightarrow> distinct (map request_key rs)"
  by (auto simp: distinct_map inj_on_def request_key_def)

lemma distinct_ids_mset: "mset rs = mset rs' \<Longrightarrow> distinct (map py_id rs) = distinct (map py_id rs')"
  by (metis mset_map mset_eq_imp_distinct_iff)

lemma sorted_by_key_unique:
  assumes "sorted (map request_key rs)" "sorted (map request_key rs')" "mset rs = mset rs'" "distinct (map py_id rs)"
  shows "rs = rs'"
proof -
  have d: "distinct (map request_key rs)" "distinct (map request_key rs')"
    using assms(3,4) distinct_ids_mset request_key_inj by blast+
  have "set rs = set rs'" using assms(3) by (rule mset_eq_setD)
  with map_sorted_distinct_set_unique [of request_key rs rs'] d assms(1,2) show ?thesis by (simp add: distinct_map)
qed

lemma priority_iter_unique:
  assumes "rh.heap_from 0 h" "mset h = mset rs" "sorted (map request_key rs)" "distinct (map py_id rs)"
  shows "queue_iter (PriorityRequestQueue h) = rs"
  using sorted_by_key_unique [of "drain request_lt h" rs] rh.drain_sorted [OF assms(1)] drain_mset [of request_lt h] assms(2-4)
    distinct_ids_mset [of "drain request_lt h" rs] by simp

lemma priority_iter:
  assumes "queue_inv (PriorityRequestQueue h)"
  shows "sorted (map request_key (drain request_lt h))" "distinct (map py_id (drain request_lt h))"
    "set (drain request_lt h) = set h"
  using assms rh.drain_sorted drain_mset [of request_lt h] distinct_ids_mset [of "drain request_lt h" h]
  by (auto dest: mset_eq_setD)


lemma remove_object_found:
  "distinct (map py_id rs) \<Longrightarrow> i \<in> py_id ` set rs \<Longrightarrow> remove_object i rs = Inr (filter (\<lambda>x. py_id x \<noteq> i) rs)"
proof (induction rs)
  case (Cons r rs)
  then have "filter (\<lambda>x. py_id x \<noteq> py_id r) rs = rs" by (auto simp: filter_id_conv image_iff)
  with Cons show ?case by auto
qed simp

lemma remove_object_missing: "i \<notin> py_id ` set rs \<Longrightarrow> remove_object i rs = Inl ValueError"
  by (induction rs) auto

lemma heapify_iter:
  assumes "queue_inv (PriorityRequestQueue h)"
  shows "queue_inv (PriorityRequestQueue (heapify request_lt (filter P h)))"
    "queue_iter (PriorityRequestQueue (heapify request_lt (filter P h))) = filter P (drain request_lt h)"
proof -
  note it = priority_iter [OF assms]
  have d: "distinct (map py_id (filter P xs))" if "distinct (map py_id xs)" for xs
    using that by (simp add: distinct_map_filter)
  then show "queue_inv (PriorityRequestQueue (heapify request_lt (filter P h)))"
    using assms rh.heapify_heap distinct_ids_mset [OF heapify_mset] by auto
  show "queue_iter (PriorityRequestQueue (heapify request_lt (filter P h))) = filter P (drain request_lt h)"
    by (rule priority_iter_unique [OF rh.heapify_heap])
      (use it d in \<open>simp_all add: heapify_mset drain_mset sorted_filter\<close>)
qed

lemma heappush_iter:
  assumes "queue_inv (PriorityRequestQueue h)" "py_id r \<notin> py_id ` set h"
  shows "queue_inv (PriorityRequestQueue (heappush request_lt h r))"
    "queue_iter (PriorityRequestQueue (heappush request_lt h r)) = insort_key request_key r (drain request_lt h)"
proof -
  note it = priority_iter [OF assms(1)]
  have "distinct (map py_id (r # drain request_lt h))" using it(2,3) assms(2) by auto
  then have d: "distinct (map py_id (insort_key request_key r (drain request_lt h)))"
    using distinct_ids_mset [of "insort_key request_key r (drain request_lt h)" "r # drain request_lt h"] by simp
  have m: "mset (heappush request_lt h r) = mset (insort_key request_key r (drain request_lt h))"
    by (simp add: heappush_mset drain_mset)
  have hp: "rh.heap_from 0 (heappush request_lt h r)" using assms(1) by (simp add: rh.heappush_heap)
  show "queue_inv (PriorityRequestQueue (heappush request_lt h r))"
    using hp d distinct_ids_mset [OF m] by simp
  show "queue_iter (PriorityRequestQueue (heappush request_lt h r)) = insort_key request_key r (drain request_lt h)"
    by (rule priority_iter_unique [OF hp m]) (use it d in \<open>simp_all add: sorted_insort_key\<close>)
qed

lemma insort_split: "\<exists>pre suf. xs = pre @ suf \<and> insort_key f x xs = pre @ x # suf"
proof (induction xs)
  case (Cons y ys)
  then obtain pre suf where "ys = pre @ suf" "insort_key f x ys = pre @ x # suf" by blast
  then have "y # ys = (y # pre) @ suf" "insort_key f x (y # ys) = (y # pre) @ x # suf" if "\<not> f x \<le> f y"
    using that by simp_all
  moreover have "y # ys = [] @ (y # ys)" "insort_key f x (y # ys) = [] @ x # (y # ys)" if "f x \<le> f y"
    using that by simp_all
  ultimately show ?case by metis
qed simp

interpretation rq: service_queue queue_inv queue_iter py_id add_request pop_request peek_request remove_request
proof (unfold_locales, goal_cases)
  case (1 q)
  then show ?case using priority_iter(2) by (cases q) auto
next
  case (2 q)
  then show ?case by (cases q) (auto dest: arg_cong [of _ _ mset] simp: drain_mset)
next
  case (3 q r rs)
  show ?case
  proof (cases q)
    case (PriorityRequestQueue h)
    with 3 have ne: "h \<noteq> []" by auto
    obtain h' where h': "heappop request_lt h = Inr (hd h, h')" using heappop_cases [OF ne] by blast
    have i: "rh.heap_from 0 h" "distinct (map py_id h)" using 3(1) PriorityRequestQueue by simp_all
    note hp = rh.heappop_heap [OF i(1) h']
    have "distinct (map py_id h')" using i(2) hp distinct_ids_mset [of h "hd h # h'"] by simp
    moreover have "r = hd h" "rs = drain request_lt h'" using 3(2) PriorityRequestQueue drain_step [OF h'] by simp_all
    ultimately have "pop_request q = Inr (r, PriorityRequestQueue h') \<and> queue_inv (PriorityRequestQueue h')
        \<and> queue_iter (PriorityRequestQueue h') = rs" using hp h' ne PriorityRequestQueue by simp
    then show ?thesis by (rule exI)
  next
    case (FCFSRequestQueue rs')
    with 3 show ?thesis by simp
  qed
next
  case (4 q)
  show ?case
  proof (cases q)
    case (PriorityRequestQueue h)
    show ?thesis
    proof (cases "h = []")
      case False
      then obtain h' where "heappop request_lt h = Inr (hd h, h')" using heappop_cases [OF False] by blast
      with False PriorityRequestQueue show ?thesis by (simp add: hd_conv_nth)
    qed (simp add: PriorityRequestQueue)
  next
    case (FCFSRequestQueue rs)
    then show ?thesis by (cases rs) simp_all
  qed
next
  case (5 q r)
  then show ?case by (cases q) (simp_all add: heappush_iter(1) priority_iter(3) del: queue_inv.simps(2))
next
  case (6 q r)
  show ?case
  proof (cases q)
    case (FCFSRequestQueue rs)
    then show ?thesis by (intro exI [of _ rs] exI [of _ "[]"]) simp
  next
    case (PriorityRequestQueue h)
    then have "queue_inv (PriorityRequestQueue h)" "py_id r \<notin> py_id ` set h"
      using 6 priority_iter(3) by (metis queue_iter.simps(2) prio_iter_def)+
    from heappush_iter(2) [OF this] PriorityRequestQueue insort_split [of "drain request_lt h" request_key r]
    show ?thesis by simp
  qed
next
  case (7 q r)
  show ?case
  proof (cases q)
    case (FCFSRequestQueue rs)
    with 7 show ?thesis by (simp add: remove_object_found distinct_map_filter)
  next
    case (PriorityRequestQueue h)
    then have i: "queue_inv (PriorityRequestQueue h)" and r: "r \<in> set h" using 7 priority_iter(3) by (metis queue_iter.simps(2) prio_iter_def)+
    then have "remove_object (py_id r) h = Inr (filter (\<lambda>x. py_id x \<noteq> py_id r) h)"
      by (intro remove_object_found) auto
    with PriorityRequestQueue heapify_iter [OF i, of "\<lambda>x. py_id x \<noteq> py_id r"] show ?thesis by simp
  qed
next
  case (8 q r)
  show ?case
  proof (cases q)
    case (FCFSRequestQueue rs)
    with 8 show ?thesis by (simp add: remove_object_missing)
  next
    case (PriorityRequestQueue h)
    then have "py_id r \<notin> py_id ` set h" using 8 priority_iter(3) by (metis queue_iter.simps(2) prio_iter_def)
    with PriorityRequestQueue show ?thesis by (simp add: remove_object_missing)
  qed
qed

subsection \<open>Properties\<close>





text \<open>
  C32. Where requests go. First come first served appends a new request, puts a preempted one in
  front, and a whole queue in front in reverse; the priority queue serves exactly as a list kept sorted
  by insertion would. Under either policy removal keeps the order of the others, removing a request
  that is not queued raises \<open>ValueError\<close>, and a request added and removed leaves no trace.
\<close>

theorem request_queue_positions:
  assumes "queue_inv q" "py_id r \<notin> py_id ` set (queue_iter q)"
  shows "(case q of
       FCFSRequestQueue rs \<Rightarrow> queue_iter (add_request q r) = rs @ [r] \<and> queue_iter (prepend_request q r) = r # rs
         \<and> (\<forall>q'. queue_iter (prepend_requests q q') = rev (queue_iter q') @ rs)
     | PriorityRequestQueue h \<Rightarrow> queue_iter (add_request q r) = insort_key request_key r (queue_iter q)
         \<and> prepend_request q r = add_request q r)
    \<and> queue_inv (add_request q r) \<and> queue_inv (remove_requests q rs)
    \<and> queue_iter (remove_requests q rs) = filter (\<lambda>x. py_id x \<notin> py_id ` set rs) (queue_iter q)
    \<and> remove_request q r = Inl ValueError
    \<and> (\<exists>q'. remove_request (add_request q r) r = Inr q' \<and> queue_iter q' = queue_iter q)"
proof -
  have "queue_inv (remove_requests q rs)
      \<and> queue_iter (remove_requests q rs) = filter (\<lambda>x. py_id x \<notin> py_id ` set rs) (queue_iter q)"
    using assms(1) heapify_iter [of _ "\<lambda>x. py_id x \<notin> py_id ` set rs"]
    by (cases q) (simp_all add: distinct_map_filter)
  moreover have "queue_iter (add_request q r) = insort_key request_key r (queue_iter q)" if "q = PriorityRequestQueue h" for h
    using heappush_iter(2) [of h r] assms that priority_iter(3) [of h] by simp
  moreover have "fold (#) xs ys = rev xs @ ys" for xs ys :: "request list"
    by (induction xs arbitrary: ys) simp_all
  ultimately show ?thesis
    using rq.add_inv [OF assms] rq.discard_fail [OF assms] rq.add_discard [OF assms] by (cases q) simp_all
qed

theorem request_queue_positions_witness:
  "\<exists>q. remove_request (add_request (create_request_queue PRIORITY) (init_fields 0 1 sample_args 16 WAITING None 3))
      (init_fields 0 1 sample_args 16 WAITING None 3) = Inr q \<and> queue_iter q = []"
  using request_queue_positions [of "create_request_queue PRIORITY" "init_fields 0 1 sample_args 16 WAITING None 3"]
  by (simp add: rh.heap_from_def)

end
