(* ===== verification/Sched_Utils.thy ===== *)
theory Sched_Utils
  imports Request
begin

text \<open>
  The helpers of the scheduler (\<open>src/vllm/v1/core/sched/utils.py\<close>): detection of repeated patterns at
  the end of the output, removal of finished requests from a list, and the test whether a request
  stops after the token it just received.
\<close>

subsection \<open>Definitions\<close>

text \<open>The two nested loops of \<open>_has_repeating_pattern\<close>; each index counts from the end.\<close>

primrec pattern_column :: "int list \<Rightarrow> int \<Rightarrow> int \<Rightarrow> int \<Rightarrow> int list \<Rightarrow> bool result" where
  "pattern_column token_ids pattern_len n target_token [] = Inr True"
| "pattern_column token_ids pattern_len n target_token (m # ms) =
     bindE (py_index token_ids (- (pattern_len * m + n))) (\<lambda>t.
       if t \<noteq> target_token then Inr False else pattern_column token_ids pattern_len n target_token ms)"

primrec pattern_rows :: "int list \<Rightarrow> int \<Rightarrow> int \<Rightarrow> int list \<Rightarrow> bool result" where
  "pattern_rows token_ids pattern_len repetition_min_count [] = Inr True"
| "pattern_rows token_ids pattern_len repetition_min_count (n # ns) =
     bindE (py_index token_ids (- n)) (\<lambda>target_token.
       bindE (pattern_column token_ids pattern_len n target_token [1..repetition_min_count - 1]) (\<lambda>ok.
         if ok then pattern_rows token_ids pattern_len repetition_min_count ns else Inr False))"

definition has_repeating_pattern :: "int list \<Rightarrow> int \<Rightarrow> int \<Rightarrow> bool result" where
  "has_repeating_pattern token_ids pattern_len repetition_min_count =
     pattern_rows token_ids pattern_len repetition_min_count [1..pattern_len]"

primrec repetition_loop :: "int list \<Rightarrow> int \<Rightarrow> int list \<Rightarrow> bool result" where
  "repetition_loop token_ids min_count' [] = Inr False"
| "repetition_loop token_ids min_count' (pattern_len # ls) =
     (if pattern_len * min_count' > int (length token_ids) then Inr False
      else bindE (has_repeating_pattern token_ids pattern_len min_count') (\<lambda>found.
        if found then Inr True else repetition_loop token_ids min_count' ls))"

definition check_sequence_repetition :: "int list \<Rightarrow> repetition_detection_params \<Rightarrow> bool result" where
  "check_sequence_repetition token_ids params =
     (let min_size = (if min_pattern_size params \<le> 0 then 1 else min_pattern_size params) in
      if max_pattern_size params \<le> 0 \<or> min_count params < 2 \<or> min_size > max_pattern_size params then Inr False
      else repetition_loop token_ids (min_count params) [min_size..max_pattern_size params])"

text \<open>\<open>remove_all\<close>; the set is given by a list of its elements without repetition.\<close>

definition remove_all :: "'a list \<Rightarrow> 'a list \<Rightarrow> 'a list" where
  "remove_all lst items_to_remove =
     (if items_to_remove = [] then lst
      else if length items_to_remove = 1 then remove1 (hd items_to_remove) lst
      else filter (\<lambda>x. x \<notin> set items_to_remove) lst)"

definition check_stop :: "request \<Rightarrow> int \<Rightarrow> (bool \<times> request) result" where
  "check_stop request max_model_len =
     bindE (assertE (pooling_params request = None)) (\<lambda>_.
     case sampling_params request of None \<Rightarrow> Inl AssertionError | Some params \<Rightarrow>
     bindE (py_index (output_token_ids request) (-1)) (\<lambda>last_token_id.
       if Some last_token_id = eos_token_id params
       then Inr (True, request\<lparr>status := FINISHED_STOPPED\<rparr>)
       else if last_token_id \<in> set (case stop_token_ids params of None \<Rightarrow> [] | Some ts \<Rightarrow> ts)
       then Inr (True, request\<lparr>status := FINISHED_STOPPED, stop_reason := Some (StopToken last_token_id)\<rparr>)
       else if num_tokens request \<ge> max_model_len \<or> num_output_tokens request \<ge> max_tokens request
       then Inr (True, request\<lparr>status := FINISHED_LENGTH_CAPPED\<rparr>)
       else if num_output_tokens request < min_tokens params then Inr (False, request)
       else case repetition_detection params of
           None \<Rightarrow> Inr (False, request)
         | Some rd \<Rightarrow> bindE (check_sequence_repetition (output_token_ids request) rd) (\<lambda>found.
             if found
             then Inr (True, request\<lparr>status := FINISHED_REPETITION,
                                     stop_reason := Some (StopString ''repetition_detected'')\<rparr>)
             else Inr (False, request))))"

subsection \<open>Repeated patterns\<close>

text \<open>The token \<open>p\<close> places before the end.\<close>

abbreviation from_end :: "'a list \<Rightarrow> nat \<Rightarrow> 'a" where
  "from_end ts p \<equiv> ts ! (length ts - p)"

lemma py_index_from_end: "0 < p \<Longrightarrow> p \<le> int (length ts) \<Longrightarrow> py_index ts (- p) = Inr (from_end ts (nat p))"
  by (auto simp: py_index_eq nat_diff_distrib)

lemma pattern_column_spec:
  assumes "\<forall>m \<in> set ms. 0 < L * m + n \<and> L * m + n \<le> int (length ts)"
  shows "pattern_column ts L n t ms = Inr (\<forall>m \<in> set ms. from_end ts (nat (L * m + n)) = t)"
  using assms
proof (induction ms)
  case (Cons m ms)
  then have "py_index ts (- (L * m + n)) = Inr (from_end ts (nat (L * m + n)))"
    by (intro py_index_from_end) auto
  with Cons show ?case by auto
qed simp

lemma offset_bounds:
  assumes "1 \<le> n" "n \<le> (L :: int)" "1 \<le> m" "m \<le> c - 1" "L * c \<le> len"
  shows "0 < L * m + n" "L * m + n \<le> len"
proof -
  have "L * m \<le> L * (c - 1)" using assms by (intro mult_left_mono) auto
  also have "\<dots> = L * c - L" by (simp add: algebra_simps)
  finally show "L * m + n \<le> len" using assms by simp
  have "0 \<le> L * m" using assms by (intro mult_nonneg_nonneg) auto
  then show "0 < L * m + n" using assms(1) by linarith
qed

lemma has_repeating_pattern_spec:
  assumes "L * c \<le> int (length ts)" "1 \<le> c"
  shows "has_repeating_pattern ts L c =
    Inr (\<forall>n \<in> {1..L}. \<forall>m \<in> {1..c - 1}. from_end ts (nat (L * m + n)) = from_end ts (nat n))"
proof -
  have "pattern_rows ts L c ns =
      Inr (\<forall>n \<in> set ns. \<forall>m \<in> {1..c - 1}. from_end ts (nat (L * m + n)) = from_end ts (nat n))"
    if "set ns \<subseteq> {1..L}" for ns
    using that
  proof (induction ns)
    case (Cons n ns)
    then have n: "1 \<le> n" "n \<le> L" by auto
    have "L * 1 \<le> L * c" using n assms(2) by (intro mult_left_mono) auto
    then have "n \<le> int (length ts)" using n assms(1) by linarith
    then have "py_index ts (- n) = Inr (from_end ts (nat n))" using n by (intro py_index_from_end) simp_all
    moreover have "pattern_column ts L n t [1..c - 1] = Inr (\<forall>m \<in> {1..c - 1}. from_end ts (nat (L * m + n)) = t)" for t
      using pattern_column_spec [of "[1..c - 1]" L n ts t] offset_bounds [OF n _ _ assms(1)] by simp
    ultimately show ?case using Cons by auto
  qed simp
  from this [of "[1..L]"] show ?thesis by (simp add: has_repeating_pattern_def)
qed

text \<open>What the loops look for: the list ends in \<open>c\<close> copies of its last \<open>k\<close> elements.\<close>

definition ends_in_copies :: "'a list \<Rightarrow> nat \<Rightarrow> nat \<Rightarrow> bool" where
  "ends_in_copies ts k c \<longleftrightarrow>
     k * c \<le> length ts \<and> drop (length ts - k * c) ts = concat (replicate c (drop (length ts - k) ts))"

lemma concat_replicate_nth:
  "i < c * length xs \<Longrightarrow> concat (replicate c xs) ! i = xs ! (i mod length xs)"
proof (induction c arbitrary: i)
  case (Suc c)
  show ?case
  proof (cases "i < length xs")
    case False
    then have "concat (replicate (Suc c) xs) ! i = xs ! ((i - length xs) mod length xs)"
      using Suc by (simp add: nth_append)
    also have "(i - length xs) mod length xs = i mod length xs" using False by (simp add: le_mod_geq)
    finally show ?thesis .
  qed (simp add: nth_append)
qed simp

lemma length_concat_replicate: "length (concat (replicate c xs)) = c * length xs"
  by (induction c) simp_all

lemma ends_in_copies_offsets:
  assumes k: "0 < k" and len: "k * c \<le> length ts" and c: "0 < c"
  shows "ends_in_copies ts k c \<longleftrightarrow>
    (\<forall>n \<in> {1..k}. \<forall>m \<in> {1..<c}. from_end ts (k * m + n) = from_end ts n)"
proof -
  let ?l = "length ts" and ?last = "drop (length ts - k) ts"
  have kl: "k \<le> ?l" using len c by (cases c) simp_all
  then have ll: "length ?last = k" by simp
  have cr: "concat (replicate c ?last) ! (k * c - p) = from_end ts ((p - 1) mod k + 1)" if "1 \<le> p" "p \<le> k * c" for p
  proof -
    define m n where "m = (p - 1) div k" and "n = (p - 1) mod k"
    then have mn: "p = k * m + Suc n" "n < k" using that k by simp_all
    have "k * m < k * c" using mn(1) that by linarith
    then have mc: "m < c" using k by simp
    then obtain d where d: "c = Suc (m + d)" using less_iff_Suc_add by auto
    have e: "k * c - p = k * d + (k - Suc n)" using mn d by (simp add: algebra_simps)
    have "(k * c - p) mod k = k - Suc n" unfolding e mod_mult_self4 using mn by (intro mod_less) simp
    then have "concat (replicate c ?last) ! (k * c - p) = ?last ! (k - Suc n)"
      using concat_replicate_nth [of "k * c - p" c ?last] ll that k c by (simp add: mult.commute)
    also have "\<dots> = ts ! (?l - k + (k - Suc n))" using kl mn by (simp add: nth_drop)
    also have "?l - k + (k - Suc n) = ?l - Suc n" using kl mn by simp
    finally show ?thesis using mn by simp
  qed
  have tl: "drop (?l - k * c) ts ! (k * c - p) = from_end ts p" if "1 \<le> p" "p \<le> k * c" for p
    using that len by (simp add: nth_drop)
  have "ends_in_copies ts k c \<longleftrightarrow> (\<forall>i < k * c. drop (?l - k * c) ts ! i = concat (replicate c ?last) ! i)"
    using len ll by (auto simp: ends_in_copies_def list_eq_iff_nth_eq length_concat_replicate mult.commute)
  also have "\<dots> \<longleftrightarrow> (\<forall>p. 1 \<le> p \<and> p \<le> k * c \<longrightarrow> from_end ts p = from_end ts ((p - 1) mod k + 1))"
  proof (intro iffI allI impI)
    fix p
    assume a: "\<forall>i < k * c. drop (?l - k * c) ts ! i = concat (replicate c ?last) ! i" and p: "1 \<le> p \<and> p \<le> k * c"
    have "k * c - p < k * c" using p by auto
    with a have "drop (?l - k * c) ts ! (k * c - p) = concat (replicate c ?last) ! (k * c - p)" by blast
    with p show "from_end ts p = from_end ts ((p - 1) mod k + 1)" using cr [of p] tl [of p] by metis
  next
    fix i
    assume a: "\<forall>p. 1 \<le> p \<and> p \<le> k * c \<longrightarrow> from_end ts p = from_end ts ((p - 1) mod k + 1)" and i: "i < k * c"
    have p: "1 \<le> k * c - i" "k * c - i \<le> k * c" "k * c - (k * c - i) = i" using i by simp_all
    from a p(1,2) have "from_end ts (k * c - i) = from_end ts ((k * c - i - 1) mod k + 1)" by blast
    with cr [OF p(1,2)] tl [OF p(1,2)] show "drop (?l - k * c) ts ! i = concat (replicate c ?last) ! i"
      unfolding p(3) by simp
  qed
  also have "\<dots> \<longleftrightarrow> (\<forall>n \<in> {1..k}. \<forall>m \<in> {1..<c}. from_end ts (k * m + n) = from_end ts n)"
  proof (intro iffI ballI allI impI)
    fix n m
    assume a: "\<forall>p. 1 \<le> p \<and> p \<le> k * c \<longrightarrow> from_end ts p = from_end ts ((p - 1) mod k + 1)" and n: "n \<in> {1..k}" and m: "m \<in> {1..<c}"
    have "k * Suc m \<le> k * c" using m by (intro mult_le_mono2) simp
    then have "from_end ts (k * m + n) = from_end ts ((k * m + n - 1) mod k + 1)" using a n by simp
    moreover have "(k * m + n - 1) mod k = n - 1"
    proof -
      have "k * m + n - 1 = k * m + (n - 1)" "n - 1 < k" using n by auto
      then show ?thesis using mod_mult_self4 [of k m "n - 1"] by simp
    qed
    ultimately show "from_end ts (k * m + n) = from_end ts n" using n by simp
  next
    fix p
    assume a: "\<forall>n \<in> {1..k}. \<forall>m \<in> {1..<c}. from_end ts (k * m + n) = from_end ts n" and p: "1 \<le> p \<and> p \<le> k * c"
    define m n where "m = (p - 1) div k" and "n = (p - 1) mod k + 1"
    then have mn: "p = k * m + n" "n \<in> {1..k}" using p k by (simp_all add: Suc_leI)
    have "1 \<le> n" using mn(2) by simp
    then have "k * m < k * c" using mn(1) p by linarith
    then have "m < c" using k by simp
    then have "from_end ts (k * m + n) = from_end ts n" using a mn(2) by (cases "m = 0") simp_all
    then show "from_end ts p = from_end ts ((p - 1) mod k + 1)" using mn(1) n_def by metis
  qed
  finally show ?thesis .
qed

lemma has_repeating_pattern_copies:
  assumes "L * c \<le> int (length ts)" "1 \<le> L" "1 \<le> c"
  shows "has_repeating_pattern ts L c = Inr (ends_in_copies ts (nat L) (nat c))"
proof -
  obtain k d where kd: "L = int k" "c = int d" "0 < k" "0 < d"
    using assms(2,3) that [of "nat L" "nat c"] by auto
  have len: "k * d \<le> length ts" using assms(1) kd by (simp flip: of_nat_mult)
  have "(\<forall>n \<in> {1..L}. \<forall>m \<in> {1..c - 1}. from_end ts (nat (L * m + n)) = from_end ts (nat n))
      \<longleftrightarrow> (\<forall>n \<in> {1..k}. \<forall>m \<in> {1..<d}. from_end ts (k * m + n) = from_end ts n)" (is "?l \<longleftrightarrow> ?r")
  proof
    assume l: ?l
    show ?r
    proof (intro ballI)
      fix n m
      assume "n \<in> {1..k}" "m \<in> {1..<d}"
      with l [THEN bspec, of "int n", THEN bspec, of "int m"] kd
      show "from_end ts (k * m + n) = from_end ts n" by (simp flip: of_nat_mult of_nat_add)
    qed
  next
    assume r: ?r
    show ?l
    proof (intro ballI)
      fix n m
      assume "n \<in> {1..L}" "m \<in> {1..c - 1}"
      with r [THEN bspec, of "nat n", THEN bspec, of "nat m"] kd
      show "from_end ts (nat (L * m + n)) = from_end ts (nat n)"
        by (simp add: nat_add_distrib nat_mult_distrib nat_less_iff le_nat_iff nat_le_iff)
    qed
  qed
  with has_repeating_pattern_spec [OF assms(1,3)] ends_in_copies_offsets [OF kd(3) len kd(4)] kd show ?thesis by simp
qed

lemma repetition_loop_spec:
  assumes "1 \<le> a" "2 \<le> c"
  shows "repetition_loop ts c [a..b] = Inr (\<exists>L \<in> {a..b}. ends_in_copies ts (nat L) (nat c))"
  using assms(1)
proof (induction "nat (b - a + 1)" arbitrary: a)
  case 0
  then show ?case by simp
next
  case (Suc x)
  then have ab: "a \<le> b" "1 \<le> a" by simp_all
  then have r: "[a..b] = a # [a + 1..b]" by (simp add: upto_rec1)
  have s: "{a..b} = insert a {a + 1..b}" using ab by auto
  show ?case
  proof (cases "a * c > int (length ts)")
    case True
    have "\<not> ends_in_copies ts (nat L) (nat c)" if "L \<in> {a..b}" for L
    proof -
      have "a * c \<le> L * c" using that assms(2) by (intro mult_right_mono) auto
      with True have "int (length ts) < L * c" by linarith
      then have "length ts < nat L * nat c" using that ab nat_mult_distrib [of L c] by (simp add: zless_nat_eq_int_zless)
      then show ?thesis by (simp add: ends_in_copies_def)
    qed
    with True r show ?thesis by auto
  next
    case False
    then have h: "has_repeating_pattern ts a c = Inr (ends_in_copies ts (nat a) (nat c))"
      using assms(2) ab by (intro has_repeating_pattern_copies) auto
    have "repetition_loop ts c [a + 1..b] = Inr (\<exists>L \<in> {a + 1..b}. ends_in_copies ts (nat L) (nat c))"
      using Suc ab by (intro Suc.hyps(1)) simp_all
    with False h r s show ?thesis by simp
  qed
qed

lemma check_repetition_total: "\<exists>b. check_sequence_repetition ts params = Inr b"
  using repetition_loop_spec [of _ "min_count params" ts "max_pattern_size params"]
  by (auto simp: check_sequence_repetition_def Let_def)

subsection \<open>Properties\<close>

text \<open>
  C37. Repetition detection is exact. The nested loops never raise, and they report a repetition
  exactly when the parameters are meaningful and the output ends in \<open>min_count\<close> copies of one pattern
  whose length is in the configured range.
\<close>

theorem check_sequence_repetition_exact:
  "check_sequence_repetition ts params =
    Inr (min_count params \<ge> 2 \<and>
      (\<exists>L. max 1 (min_pattern_size params) \<le> L \<and> L \<le> max_pattern_size params
         \<and> ends_in_copies ts (nat L) (nat (min_count params))))"
proof -
  have "(if min_pattern_size params \<le> 0 then 1 else min_pattern_size params) = max 1 (min_pattern_size params)" by auto
  then show ?thesis
    using repetition_loop_spec [of "max 1 (min_pattern_size params)" "min_count params" ts "max_pattern_size params"]
    by (auto simp: check_sequence_repetition_def Let_def Bex_def)
qed

text \<open>
  C38. When a request stops. For a generating request with output the test never raises and changes
  at most the status and the stop reason. It stops at the end-of-sequence token or a stop token
  whatever the length; otherwise at the length limits; otherwise, from \<open>min_tokens\<close> on, at a
  repetition. A request that goes on is below both limits, and one that stops has finished.
\<close>

theorem check_stop_outcome:
  assumes "pooling_params r = None" "sampling_params r = Some sp" "output_token_ids r \<noteq> []"
  shows "let t = last (output_token_ids r);
      stop = (Some t = eos_token_id sp \<or> (\<exists>ts. stop_token_ids sp = Some ts \<and> t \<in> set ts));
      capped = (num_tokens r \<ge> max_model_len \<or> num_output_tokens r \<ge> max_tokens r);
      repeats = (num_output_tokens r \<ge> min_tokens sp
        \<and> (\<exists>rd. repetition_detection sp = Some rd \<and> check_sequence_repetition (output_token_ids r) rd = Inr True))
    in \<exists>b r'. check_stop r max_model_len = Inr (b, r')
      \<and> r' = r\<lparr>status := status r', stop_reason := stop_reason r'\<rparr>
      \<and> (b \<longleftrightarrow> stop \<or> capped \<or> repeats) \<and> (\<not> b \<longrightarrow> r' = r) \<and> (b \<longrightarrow> is_finished r')
      \<and> (b \<longrightarrow> status r' = (if stop then FINISHED_STOPPED else if capped then FINISHED_LENGTH_CAPPED else FINISHED_REPETITION))"
proof -
  have l: "py_index (output_token_ids r) (- 1) = Inr (last (output_token_ids r))"
    using assms(3) py_index_from_end [of 1 "output_token_ids r"] by (cases "output_token_ids r" rule: rev_cases) auto
  have fin: "status_is_finished FINISHED_STOPPED" "status_is_finished FINISHED_LENGTH_CAPPED" "status_is_finished FINISHED_REPETITION"
    by (simp_all add: status_is_finished_def less_request_status_def)
  define t where "t = last (output_token_ids r)"
  define eos where "eos \<longleftrightarrow> Some t = eos_token_id sp"
  define tok where "tok \<longleftrightarrow> (\<exists>ts. stop_token_ids sp = Some ts \<and> t \<in> set ts)"
  define capped where "capped \<longleftrightarrow> num_tokens r \<ge> max_model_len \<or> num_output_tokens r \<ge> max_tokens r"
  define repeats where "repeats \<longleftrightarrow> num_output_tokens r \<ge> min_tokens sp
      \<and> (\<exists>rd. repetition_detection sp = Some rd \<and> check_sequence_repetition (output_token_ids r) rd = Inr True)"
  have tok': "t \<in> set (case stop_token_ids sp of None \<Rightarrow> [] | Some ts \<Rightarrow> ts) \<longleftrightarrow> tok"
    by (cases "stop_token_ids sp") (simp_all add: tok_def)
  have tail: "(if num_output_tokens r < min_tokens sp then Inr (False, r)
       else case repetition_detection sp of None \<Rightarrow> Inr (False, r)
         | Some rd \<Rightarrow> bindE (check_sequence_repetition (output_token_ids r) rd) (\<lambda>found.
             if found then Inr (True, r\<lparr>status := FINISHED_REPETITION, stop_reason := Some (StopString ''repetition_detected'')\<rparr>)
             else Inr (False, r)))
      = Inr (if repeats then (True, r\<lparr>status := FINISHED_REPETITION, stop_reason := Some (StopString ''repetition_detected'')\<rparr>)
             else (False, r))"
  proof (cases "repetition_detection sp")
    case (Some rd)
    then obtain b where "check_sequence_repetition (output_token_ids r) rd = Inr b" using check_repetition_total by blast
    with Some show ?thesis by (simp add: repeats_def)
  qed (simp add: repeats_def)
  have "check_stop r max_model_len =
      Inr (if eos then (True, r\<lparr>status := FINISHED_STOPPED\<rparr>)
        else if tok then (True, r\<lparr>status := FINISHED_STOPPED, stop_reason := Some (StopToken t)\<rparr>)
        else if capped then (True, r\<lparr>status := FINISHED_LENGTH_CAPPED\<rparr>)
        else if repeats then (True, r\<lparr>status := FINISHED_REPETITION, stop_reason := Some (StopString ''repetition_detected'')\<rparr>)
        else (False, r))"
    unfolding check_stop_def assms(1,2) l t_def [symmetric] option.case bindE_Inr assertE_def eos_def [symmetric] tok'
      capped_def [symmetric] tail by (simp only: if_True bindE_Inr option.case tail simp_thms l if_distrib [of Inr])
  then show ?thesis
    unfolding Let_def t_def [symmetric] eos_def [symmetric] tok_def [symmetric] capped_def [symmetric] repeats_def [symmetric]
    by (simp add: is_finished_def fin)
qed

theorem check_stop_outcome_witness:
  "\<exists>r'. check_stop ((init_fields 0 1 sample_args 16 WAITING None 3)\<lparr>output_token_ids := [4, 0]\<rparr>) 100 = Inr (True, r')
    \<and> status r' = FINISHED_STOPPED"
  using check_stop_outcome [of "(init_fields 0 1 sample_args 16 WAITING None 3)\<lparr>output_token_ids := [4, 0]\<rparr>" sample_sampling 100]
  by (auto simp: init_fields_def sample_args_def sample_sampling_def Let_def)

text \<open>
  C39. Removal from a list. On a list without repetition \<open>remove_all\<close> keeps exactly the elements
  outside the set, in order. With a single element to remove it removes the first occurrence only,
  so a repeated element survives.
\<close>

theorem remove_all_keeps_others:
  assumes "distinct (items :: 'a list)"
  shows "(distinct lst \<longrightarrow> remove_all lst items = filter (\<lambda>x. x \<notin> set items) lst)
    \<and> remove_all [x, x] [x :: 'a] = [x]"
proof -
  have "remove_all lst items = filter (\<lambda>x. x \<notin> set items) lst" if "distinct lst"
    using that by (cases items rule: remdups_adj.cases) (auto simp: remove_all_def distinct_remove1_removeAll removeAll_filter_not_eq intro: filter_cong)
  then show ?thesis by (simp add: remove_all_def)
qed

theorem remove_all_keeps_others_witness: "remove_all [3 :: int, 1, 2] [1, 3] = [2]"
  using remove_all_keeps_others [of "[1 :: int, 3]" "[3, 1, 2]" 0] by simp

end
