(* ===== verification/Encoder_Cache.thy ===== *)
theory Encoder_Cache
  imports Request
begin

text \<open>
  The cache of encoder outputs of multimodal inputs (\<open>src/vllm/v1/core/encoder_cache_manager.py\<close>) and
  the loop of the scheduler that releases inputs a request has passed
  (\<open>src/vllm/v1/core/sched/scheduler.py\<close>). The manager only counts: entries are named by the
  identifier of their item, and the model runner holds the tensors. The iteration order of a Python
  set of input ids is an argument. The accounting is an invariant over all sequences of operations.
\<close>

subsection \<open>The manager of multimodal models\<close>

record encoder_cache_manager =
  ecm_cache_size :: int
  num_free_slots :: int
  num_freeable_slots :: int
  cached :: "string \<rightharpoonup> string set"
  request_cached_ids :: "string \<rightharpoonup> int set"
  freeable :: "(string \<times> int) list"
  freed :: "string list"

definition init_ecm :: "int \<Rightarrow> encoder_cache_manager" where
  "init_ecm cache_size = \<lparr>ecm_cache_size = cache_size, num_free_slots = cache_size, num_freeable_slots = cache_size,
     cached = Map.empty, request_cached_ids = Map.empty, freeable = [], freed = []\<rparr>"

definition reset_ecm :: "encoder_cache_manager \<Rightarrow> encoder_cache_manager" where
  "reset_ecm m = m\<lparr>cached := Map.empty, request_cached_ids := Map.empty, freeable := [], freed := [],
     num_free_slots := ecm_cache_size m, num_freeable_slots := ecm_cache_size m\<rparr>"

definition get_mm_hash :: "request \<Rightarrow> int \<Rightarrow> string result" where
  "get_mm_hash r i = bindE (py_index (mm_features r) i) (\<lambda>f. Inr (mm_identifier f))"

text \<open>\<open>self.request_cached_ids.setdefault(request_id, set()).add(input_id)\<close> and the entry of \<open>cached\<close>.\<close>

definition add_reference :: "string \<Rightarrow> string \<Rightarrow> int \<Rightarrow> encoder_cache_manager \<Rightarrow> encoder_cache_manager" where
  "add_reference mm_hash rid input_id m =
     m\<lparr>cached := (cached m)(mm_hash \<mapsto> insert rid (case cached m mm_hash of None \<Rightarrow> {} | Some s \<Rightarrow> s)),
       request_cached_ids := (request_cached_ids m)(rid \<mapsto>
         insert input_id (case request_cached_ids m rid of None \<Rightarrow> {} | Some s \<Rightarrow> s))\<rparr>"

definition check_and_update_cache :: "request \<Rightarrow> int \<Rightarrow> encoder_cache_manager \<Rightarrow> (bool \<times> encoder_cache_manager) result" where
  "check_and_update_cache r input_id m =
     bindE (get_mm_hash r input_id) (\<lambda>mm_hash.
       case cached m mm_hash of
         None \<Rightarrow> Inr (False, m)
       | Some refs \<Rightarrow>
           bindE (if refs = {}
                  then (case map_of (freeable m) mm_hash of
                          None \<Rightarrow> Inl KeyError
                        | Some n \<Rightarrow> Inr (m\<lparr>freeable := AList.delete mm_hash (freeable m),
                                            num_freeable_slots := num_freeable_slots m - n\<rparr>))
                  else Inr m) (\<lambda>m'.
             Inr (True, add_reference mm_hash (request_id r) input_id m')))"

text \<open>The eviction loop of \<open>can_allocate\<close>: pop the oldest freeable entry until the slots suffice.\<close>

function evict_until :: "int \<Rightarrow> encoder_cache_manager \<Rightarrow> encoder_cache_manager result" where
  "evict_until num_embeds m =
     (if num_embeds > num_free_slots m
      then (case freeable m of
              [] \<Rightarrow> Inl KeyError
            | (mm_hash, n) # rest \<Rightarrow>
                if cached m mm_hash = None then Inl KeyError
                else evict_until num_embeds
                  (m\<lparr>freeable := rest, cached := (cached m)(mm_hash := None), freed := freed m @ [mm_hash],
                     num_free_slots := num_free_slots m + n\<rparr>))
      else Inr m)"
  by pat_completeness auto

termination
  by (relation "measure (\<lambda>(n, m). length (freeable m))") auto

declare evict_until.simps [simp del]

definition can_allocate ::
  "request \<Rightarrow> int \<Rightarrow> int \<Rightarrow> int \<Rightarrow> encoder_cache_manager \<Rightarrow> (bool \<times> encoder_cache_manager) result" where
  "can_allocate r input_id encoder_compute_budget num_embeds_to_schedule m =
     bindE (get_num_encoder_embeds input_id r) (\<lambda>num_embeds.
       if num_embeds > encoder_compute_budget then Inr (False, m)
       else let num_embeds' = num_embeds + num_embeds_to_schedule in
         if num_embeds' \<le> num_free_slots m then Inr (True, m)
         else if num_embeds' > num_freeable_slots m then Inr (False, m)
         else bindE (evict_until num_embeds' m) (\<lambda>m'. Inr (True, m')))"

definition allocate :: "request \<Rightarrow> int \<Rightarrow> encoder_cache_manager \<Rightarrow> encoder_cache_manager result" where
  "allocate r input_id m =
     bindE (get_mm_hash r input_id) (\<lambda>mm_hash.
     bindE (get_num_encoder_embeds input_id r) (\<lambda>n.
     bindE (assertE (num_free_slots m \<ge> n)) (\<lambda>_.
     bindE (assertE (num_freeable_slots m \<ge> n)) (\<lambda>_.
       Inr ((add_reference mm_hash (request_id r) input_id m)
         \<lparr>num_free_slots := num_free_slots m - n, num_freeable_slots := num_freeable_slots m - n\<rparr>)))))"

definition get_cached_input_ids :: "request \<Rightarrow> encoder_cache_manager \<Rightarrow> int set" where
  "get_cached_input_ids r m = (case request_cached_ids m (request_id r) of None \<Rightarrow> {} | Some ids \<Rightarrow> ids)"

definition drop_input_id :: "string \<Rightarrow> int \<Rightarrow> encoder_cache_manager \<Rightarrow> encoder_cache_manager" where
  "drop_input_id rid input_id m =
     (case request_cached_ids m rid of
        None \<Rightarrow> m
      | Some ids \<Rightarrow> m\<lparr>request_cached_ids := (request_cached_ids m)(rid :=
          (if ids - {input_id} = {} then None else Some (ids - {input_id})))\<rparr>)"

text \<open>\<open>any(...)\<close> over the remaining inputs of the request.\<close>

primrec other_occurrence :: "request \<Rightarrow> string \<Rightarrow> int list \<Rightarrow> bool result" where
  "other_occurrence r mm_hash [] = Inr False"
| "other_occurrence r mm_hash (other_id # ids) =
     bindE (get_mm_hash r other_id) (\<lambda>h. if h = mm_hash then Inr True else other_occurrence r mm_hash ids)"

definition release_reference :: "request \<Rightarrow> int \<Rightarrow> string \<Rightarrow> string set \<Rightarrow> encoder_cache_manager \<Rightarrow> encoder_cache_manager result" where
  "release_reference r input_id mm_hash refs m =
     (let refs' = refs - {request_id r}; m' = m\<lparr>cached := (cached m)(mm_hash \<mapsto> refs')\<rparr> in
      if refs' = {}
      then bindE (get_num_encoder_embeds input_id r) (\<lambda>n.
        Inr (m'\<lparr>freeable := AList.update mm_hash n (freeable m'), num_freeable_slots := num_freeable_slots m' + n\<rparr>))
      else Inr m')"

definition free_encoder_input ::
  "(int set \<Rightarrow> int list) \<Rightarrow> request \<Rightarrow> int \<Rightarrow> encoder_cache_manager \<Rightarrow> encoder_cache_manager result" where
  "free_encoder_input order r input_id m =
     bindE (get_mm_hash r input_id) (\<lambda>mm_hash.
       let m1 = drop_input_id (request_id r) input_id m in
       case cached m1 mm_hash of
         None \<Rightarrow> Inr m1
       | Some refs \<Rightarrow>
           if refs = {} then Inr m1
           else bindE (other_occurrence r mm_hash (order (get_cached_input_ids r m1))) (\<lambda>found.
             if found then Inr m1 else release_reference r input_id mm_hash refs m1))"

definition free_request :: "(int set \<Rightarrow> int list) \<Rightarrow> request \<Rightarrow> encoder_cache_manager \<Rightarrow> encoder_cache_manager result" where
  "free_request order r m = foldE (free_encoder_input order r) (order (get_cached_input_ids r m)) m"

definition get_freed_mm_hashes :: "encoder_cache_manager \<Rightarrow> string list \<times> encoder_cache_manager" where
  "get_freed_mm_hashes m = (filter (\<lambda>h. cached m h = None) (freed m), m\<lparr>freed := []\<rparr>)"

definition compute_mm_encoder_budget ::
  "bool \<Rightarrow> int \<Rightarrow> int \<Rightarrow> int \<Rightarrow> (string \<times> int) list \<Rightarrow> (int \<times> int) result" where
  "compute_mm_encoder_budget disable_chunked_mm_input max_num_batched_tokens max_num_encoder_input_tokens
     encoder_cache_size mm_max_toks_per_item =
     (if mm_max_toks_per_item = [] then Inr (0, 0)
      else let max_tokens_per_mm_item = Max (set (map snd mm_max_toks_per_item)) in
        if disable_chunked_mm_input \<and> max_tokens_per_mm_item > max_num_batched_tokens then Inl ValueError
        else Inr (max max_num_encoder_input_tokens max_tokens_per_mm_item,
                  max encoder_cache_size max_tokens_per_mm_item))"

subsection \<open>The manager of encoder-decoder models\<close>

record encoder_decoder_manager =
  edm_cache_size :: int
  edm_free_slots :: int
  allocated :: "string list"
  to_free :: "string list"

definition init_edm :: "int \<Rightarrow> encoder_decoder_manager" where
  "init_edm cache_size = \<lparr>edm_cache_size = cache_size, edm_free_slots = cache_size, allocated = [], to_free = []\<rparr>"

definition reset_edm :: "encoder_decoder_manager \<Rightarrow> encoder_decoder_manager" where
  "reset_edm m = m\<lparr>edm_free_slots := edm_cache_size m, allocated := [], to_free := []\<rparr>"

definition edm_can_allocate :: "request \<Rightarrow> int \<Rightarrow> int \<Rightarrow> int \<Rightarrow> encoder_decoder_manager \<Rightarrow> bool result" where
  "edm_can_allocate r input_id encoder_compute_budget num_embeds_to_schedule m =
     bindE (get_num_encoder_embeds input_id r) (\<lambda>n.
       if n > encoder_compute_budget then Inr False else Inr (n + num_embeds_to_schedule \<le> edm_free_slots m))"

definition edm_allocate :: "request \<Rightarrow> int \<Rightarrow> encoder_decoder_manager \<Rightarrow> encoder_decoder_manager result" where
  "edm_allocate r input_id m =
     bindE (get_num_encoder_embeds input_id r) (\<lambda>n.
     bindE (get_mm_hash r input_id) (\<lambda>mm_hash.
       Inr (m\<lparr>edm_free_slots := edm_free_slots m - n, allocated := allocated m @ [mm_hash]\<rparr>)))"

definition edm_free_encoder_input :: "request \<Rightarrow> int \<Rightarrow> encoder_decoder_manager \<Rightarrow> encoder_decoder_manager result" where
  "edm_free_encoder_input r input_id m =
     bindE (get_num_encoder_embeds input_id r) (\<lambda>n. Inr (m\<lparr>edm_free_slots := edm_free_slots m + n\<rparr>))"

definition edm_free :: "request \<Rightarrow> encoder_decoder_manager \<Rightarrow> encoder_decoder_manager result" where
  "edm_free r m = foldE (edm_free_encoder_input r) [0..int (length (mm_features r)) - 1] m"

definition edm_get_cached_input_ids :: "request \<Rightarrow> int set" where
  "edm_get_cached_input_ids r = set [0..int (length (mm_features r)) - 1]"

definition edm_get_freed_mm_hashes :: "encoder_decoder_manager \<Rightarrow> string list \<times> encoder_decoder_manager" where
  "edm_get_freed_mm_hashes m = (to_free m, m\<lparr>to_free := allocated m, allocated := []\<rparr>)"

subsection \<open>Releasing passed inputs\<close>

text \<open>
  \<open>Scheduler._free_encoder_inputs\<close> for a manager with its \<open>get_cached_input_ids\<close> and
  \<open>free_encoder_input\<close>, without a connector: an input goes when an encoder-decoder request has
  computed a token, or when its placeholder range lies behind the confirmed tokens.
\<close>

definition input_passed :: "bool \<Rightarrow> int \<Rightarrow> request \<Rightarrow> mm_feature \<Rightarrow> bool" where
  "input_passed is_encoder_decoder spec_lookahead r f \<longleftrightarrow>
     is_encoder_decoder \<and> num_computed_tokens r > 0
     \<or> ph_offset (mm_position f) + ph_length (mm_position f) + spec_lookahead
         \<le> num_computed_tokens r - num_output_placeholders r"

definition free_encoder_inputs ::
  "(int set \<Rightarrow> int list) \<Rightarrow> bool \<Rightarrow> int \<Rightarrow> ('m \<Rightarrow> int set) \<Rightarrow> (int \<Rightarrow> 'm \<Rightarrow> 'm result) \<Rightarrow> request \<Rightarrow> 'm \<Rightarrow> 'm result" where
  "free_encoder_inputs order is_encoder_decoder spec_lookahead cached_ids free_input r m =
     (if cached_ids m = {} then Inr m
      else foldE (\<lambda>input_id m'. bindE (py_index (mm_features r) input_id) (\<lambda>f.
        if input_passed is_encoder_decoder spec_lookahead r f then free_input input_id m' else Inr m'))
        (order (cached_ids m)) m)"

subsection \<open>The accounting\<close>

text \<open>
  The inputs of the requests: \<open>sz h\<close> is the number of embeddings of the item \<open>h\<close>, \<open>feat rid i\<close> the item
  of input \<open>i\<close> of request \<open>rid\<close>. A request agrees with them, and its inputs include those cached for it.
\<close>

definition agrees :: "(string \<Rightarrow> int) \<Rightarrow> (string \<Rightarrow> int \<Rightarrow> string) \<Rightarrow> request \<Rightarrow> bool" where
  "agrees sz feat r \<longleftrightarrow> (\<forall>i < length (mm_features r).
     mm_identifier (mm_features r ! i) = feat (request_id r) (int i)
     \<and> get_num_embeds (mm_position (mm_features r ! i)) = sz (feat (request_id r) (int i))
     \<and> 0 \<le> sz (feat (request_id r) (int i)))"

definition has_input :: "request \<Rightarrow> int \<Rightarrow> bool" where
  "has_input r i \<longleftrightarrow> 0 \<le> i \<and> i < int (length (mm_features r))"

definition ids_of :: "encoder_cache_manager \<Rightarrow> string \<Rightarrow> int set" where
  "ids_of m rid = (case request_cached_ids m rid of None \<Rightarrow> {} | Some ids \<Rightarrow> ids)"

definition refs_of :: "encoder_cache_manager \<Rightarrow> string \<Rightarrow> string set" where
  "refs_of m h = (case cached m h of None \<Rightarrow> {} | Some s \<Rightarrow> s)"

definition referenced :: "encoder_cache_manager \<Rightarrow> string set" where
  "referenced m = {h. refs_of m h \<noteq> {}}"

definition enc_wf :: "(string \<Rightarrow> int) \<Rightarrow> (string \<Rightarrow> int \<Rightarrow> string) \<Rightarrow> encoder_cache_manager \<Rightarrow> bool" where
  "enc_wf sz feat m \<longleftrightarrow> finite (dom (cached m)) \<and> (\<forall>h \<in> dom (cached m). 0 \<le> sz h)
     \<and> distinct (map fst (freeable m))
     \<and> (\<forall>h n. (h, n) \<in> set (freeable m) \<longleftrightarrow> cached m h = Some {} \<and> n = sz h)
     \<and> num_free_slots m = ecm_cache_size m - sum sz (dom (cached m))
     \<and> num_freeable_slots m = ecm_cache_size m - sum sz (referenced m)
     \<and> 0 \<le> num_free_slots m
     \<and> (\<forall>rid. request_cached_ids m rid \<noteq> Some {})
     \<and> (\<forall>h rid. rid \<in> refs_of m h \<longleftrightarrow> (\<exists>i \<in> ids_of m rid. feat rid i = h))"

lemma enc_wfD:
  assumes "enc_wf sz feat m"
  shows "finite (dom (cached m))" "\<And>h. h \<in> dom (cached m) \<Longrightarrow> 0 \<le> sz h" "distinct (map fst (freeable m))"
    "\<And>h n. (h, n) \<in> set (freeable m) \<longleftrightarrow> cached m h = Some {} \<and> n = sz h"
    "num_free_slots m = ecm_cache_size m - sum sz (dom (cached m))"
    "num_freeable_slots m = ecm_cache_size m - sum sz (referenced m)"
    "0 \<le> num_free_slots m" "\<And>rid. request_cached_ids m rid \<noteq> Some {}"
    "\<And>h rid. rid \<in> refs_of m h \<longleftrightarrow> (\<exists>i \<in> ids_of m rid. feat rid i = h)"
  using assms by (auto simp: enc_wf_def)

lemma referenced_cached: "referenced m \<subseteq> dom (cached m)"
  by (auto simp: referenced_def refs_of_def split: option.splits)

lemma get_mm_hash_ok: "agrees sz feat r \<Longrightarrow> has_input r i \<Longrightarrow> get_mm_hash r i = Inr (feat (request_id r) i)"
  by (auto simp: get_mm_hash_def has_input_def agrees_def py_index_nth)

lemma get_embeds_ok:
  assumes "agrees sz feat r" "has_input r i"
  shows "get_num_encoder_embeds i r = Inr (sz (feat (request_id r) i))" "0 \<le> sz (feat (request_id r) i)"
proof -
  have "nat i < length (mm_features r)" "int (nat i) = i" using assms(2) by (auto simp: has_input_def)
  with assms(1) have "get_num_embeds (mm_position (mm_features r ! nat i)) = sz (feat (request_id r) i)"
    "0 \<le> sz (feat (request_id r) i)" by (metis agrees_def)+
  with assms(2) show "get_num_encoder_embeds i r = Inr (sz (feat (request_id r) i))" "0 \<le> sz (feat (request_id r) i)"
    by (simp_all add: get_num_encoder_embeds_def num_encoder_inputs_def has_input_def)
qed

lemma init_wf: "0 \<le> cs \<Longrightarrow> enc_wf sz feat (init_ecm cs)"
  by (simp add: enc_wf_def init_ecm_def refs_of_def ids_of_def referenced_def)

lemma reset_wf: "0 \<le> ecm_cache_size m \<Longrightarrow> enc_wf sz feat (reset_ecm m)"
  by (simp add: enc_wf_def reset_ecm_def refs_of_def ids_of_def referenced_def)

text \<open>What the free slots lack is what the freeable entries hold.\<close>

lemma freeable_sum:
  assumes "enc_wf sz feat m"
  shows "num_freeable_slots m = num_free_slots m + sum_list (map snd (freeable m))"
proof -
  note w = enc_wfD [OF assms]
  have fr: "set (map fst (freeable m)) = dom (cached m) - referenced m"
    using w(4) by (force simp: referenced_def refs_of_def split: option.splits)
  have "sum_list (map snd (freeable m)) = sum_list (map sz (map fst (freeable m)))"
    using w(4) by (auto intro!: arg_cong [of _ _ sum_list])
  also have "\<dots> = sum sz (dom (cached m) - referenced m)" using w(3) fr by (metis sum_list_distinct_conv_sum_set)
  also have "\<dots> = sum sz (dom (cached m)) - sum sz (referenced m)" using w(1) referenced_cached by (rule sum_diff)
  finally show ?thesis using w(5,6) by simp
qed

lemma enc_bounds:
  assumes "enc_wf sz feat m"
  shows "num_free_slots m \<le> num_freeable_slots m" "num_freeable_slots m \<le> ecm_cache_size m"
proof -
  note w = enc_wfD [OF assms]
  have sub: "referenced m \<subseteq> dom (cached m)" by (rule referenced_cached)
  then have "sum sz (referenced m) \<le> sum sz (dom (cached m))" using w(1,2) by (intro sum_mono2) auto
  then show "num_free_slots m \<le> num_freeable_slots m" using w(5,6) by simp
  have "0 \<le> sum sz (referenced m)" using w(2) sub by (intro sum_nonneg) blast
  then show "num_freeable_slots m \<le> ecm_cache_size m" using w(6) by simp
qed

subsection \<open>The operations keep it\<close>

lemma add_reference_refs:
  "refs_of (add_reference h rid i m) = (refs_of m)(h := insert rid (refs_of m h))"
  "ids_of (add_reference h rid i m) = (ids_of m)(rid := insert i (ids_of m rid))"
  by (auto simp: add_reference_def refs_of_def ids_of_def fun_eq_iff)

lemma add_reference_simps [simp]:
  "referenced (add_reference h rid i m) = insert h (referenced m)"
  "dom (cached (add_reference h rid i m)) = insert h (dom (cached m))"
  "freeable (add_reference h rid i m) = freeable m" "freed (add_reference h rid i m) = freed m"
  "num_free_slots (add_reference h rid i m) = num_free_slots m"
  "num_freeable_slots (add_reference h rid i m) = num_freeable_slots m"
  "ecm_cache_size (add_reference h rid i m) = ecm_cache_size m"
  "request_cached_ids (add_reference h rid i m) rid' \<noteq> Some {} \<longleftrightarrow> rid' = rid \<or> request_cached_ids m rid' \<noteq> Some {}"
  by (auto simp: referenced_def add_reference_refs) (auto simp: add_reference_def split: if_splits)

lemma referenced_frame [simp]:
  "referenced (m\<lparr>freeable := fs, num_freeable_slots := y\<rparr>) = referenced m"
  "referenced (m\<lparr>num_free_slots := x, num_freeable_slots := y\<rparr>) = referenced m"
  "refs_of (m\<lparr>freeable := fs, num_freeable_slots := y\<rparr>) = refs_of m"
  "refs_of (m\<lparr>num_free_slots := x, num_freeable_slots := y\<rparr>) = refs_of m"
  "ids_of (m\<lparr>freeable := fs, num_freeable_slots := y\<rparr>) = ids_of m"
  "ids_of (m\<lparr>num_free_slots := x, num_freeable_slots := y\<rparr>) = ids_of m"
  by (simp_all add: referenced_def refs_of_def ids_of_def fun_eq_iff)

lemma check_and_update_spec:
  assumes wf: "enc_wf sz feat m" and r: "agrees sz feat r" "has_input r i" and h: "h = feat (request_id r) i"
  shows "if h \<in> dom (cached m)
    then \<exists>m'. check_and_update_cache r i m = Inr (True, m') \<and> enc_wf sz feat m' \<and> request_id r \<in> refs_of m' h
      \<and> (\<forall>h'. refs_of m h' \<subseteq> refs_of m' h') \<and> dom (cached m') = dom (cached m) \<and> freed m' = freed m
      \<and> num_free_slots m' = num_free_slots m \<and> ecm_cache_size m' = ecm_cache_size m
    else check_and_update_cache r i m = Inr (False, m)"
proof (cases "cached m h")
  case None
  then show ?thesis using get_mm_hash_ok [OF r] h by (simp add: check_and_update_cache_def domIff)
next
  case (Some refs)
  note w = enc_wfD [OF wf] and gh = get_mm_hash_ok [OF r, folded h]
  define m1 where "m1 = (if refs = {} then m\<lparr>freeable := AList.delete h (freeable m),
      num_freeable_slots := num_freeable_slots m - sz h\<rparr> else m)"
  have mo: "map_of (freeable m) h = Some (sz h)" if "refs = {}"
    using w(3,4) that Some by (simp add: map_of_eq_Some_iff)
  have res: "check_and_update_cache r i m = Inr (True, add_reference h (request_id r) i m1)"
    using gh Some mo by (simp add: check_and_update_cache_def m1_def)
  have m1: "referenced m1 = referenced m" "refs_of m1 = refs_of m" "ids_of m1 = ids_of m" "cached m1 = cached m"
    "num_free_slots m1 = num_free_slots m" "ecm_cache_size m1 = ecm_cache_size m" "freed m1 = freed m"
    "request_cached_ids m1 = request_cached_ids m"
    by (simp_all add: m1_def)
  have hd: "h \<in> dom (cached m)" using Some by auto
  have hr: "h \<in> referenced m \<longleftrightarrow> refs \<noteq> {}" using Some by (simp add: referenced_def refs_of_def)
  have fin: "finite (referenced m)" using finite_subset [OF referenced_cached w(1)] .
  have "num_freeable_slots m1 = ecm_cache_size m - sum sz (insert h (referenced m))"
    using w(6) hr fin by (cases "refs = {}") (simp_all add: m1_def insert_absorb)
  moreover have "(h', n) \<in> set (freeable m1) \<longleftrightarrow> cached (add_reference h (request_id r) i m1) h' = Some {} \<and> n = sz h'" for h' n
    using w(4) Some m1(4) by (auto simp: m1_def add_reference_def AList.delete_eq)
  moreover have "distinct (map fst (freeable m1))" using w(3) by (simp add: m1_def distinct_delete)
  moreover have "(rid \<in> refs_of (add_reference h (request_id r) i m1) h')
      = (\<exists>j \<in> ids_of (add_reference h (request_id r) i m1) rid. feat rid j = h')" for rid h'
    using w(9) [of rid h'] h by (auto simp: add_reference_refs m1)
  ultimately have "enc_wf sz feat (add_reference h (request_id r) i m1)"
    using w m1 hd by (simp add: enc_wf_def insert_absorb)
  with res hd m1 show ?thesis by (simp add: add_reference_refs insert_absorb subset_insertI)
qed

lemma allocate_spec:
  assumes wf: "enc_wf sz feat m" and r: "agrees sz feat r" "has_input r i" and h: "h = feat (request_id r) i"
    and new: "cached m h = None" and room: "sz h \<le> num_free_slots m"
  shows "\<exists>m'. allocate r i m = Inr m' \<and> enc_wf sz feat m' \<and> refs_of m' = (refs_of m)(h := {request_id r})
    \<and> num_free_slots m' = num_free_slots m - sz h \<and> ecm_cache_size m' = ecm_cache_size m \<and> freed m' = freed m
    \<and> dom (cached m') = insert h (dom (cached m))"
proof -
  note w = enc_wfD [OF wf] and gh = get_mm_hash_ok [OF r, folded h] and ge = get_embeds_ok [OF r, folded h]
  let ?m = "add_reference h (request_id r) i m"
  let ?m' = "?m\<lparr>num_free_slots := num_free_slots m - sz h, num_freeable_slots := num_freeable_slots m - sz h\<rparr>"
  have "sz h \<le> num_freeable_slots m" using room enc_bounds(1) [OF wf] by simp
  then have res: "allocate r i m = Inr ?m'" using gh ge room by (simp add: allocate_def assertE_def)
  have nr: "refs_of m h = {}" "h \<notin> referenced m" "h \<notin> dom (cached m)"
    using new by (auto simp: refs_of_def referenced_def)
  have fin: "finite (referenced m)" using finite_subset [OF referenced_cached w(1)] .
  have "(h', n) \<in> set (freeable m) \<longleftrightarrow> cached ?m h' = Some {} \<and> n = sz h'" for h' n
    using w(4) new by (auto simp: add_reference_def)
  moreover have "(rid \<in> refs_of ?m h') = (\<exists>j \<in> ids_of ?m rid. feat rid j = h')" for rid h'
    using w(9) [of rid h'] h by (auto simp: add_reference_refs)
  ultimately have "enc_wf sz feat ?m'"
    using w nr fin room ge(2) by (simp add: enc_wf_def)
  with res nr show ?thesis by (simp add: add_reference_refs)
qed

text \<open>Eviction pops the oldest freeable entries and touches no referenced one.\<close>

lemma evict_oldest_wf:
  assumes wf: "enc_wf sz feat m" and f: "freeable m = (h, n) # rest"
  defines "m' \<equiv> m\<lparr>freeable := rest, cached := (cached m)(h := None), freed := freed m @ [h], num_free_slots := num_free_slots m + n\<rparr>"
  shows "enc_wf sz feat m' \<and> cached m h = Some {} \<and> refs_of m' = refs_of m"
proof -
  note w = enc_wfD [OF wf]
  have h: "cached m h = Some {}" "n = sz h" using w(4) [of h n] f by auto
  have refs: "refs_of m' = refs_of m" using h by (auto simp: m'_def refs_of_def fun_eq_iff)
  then have rf: "referenced m' = referenced m" by (simp add: referenced_def)
  have ids: "ids_of m' = ids_of m" by (simp add: m'_def ids_of_def fun_eq_iff)
  have hd: "h \<in> dom (cached m)" using h by auto
  have "(h', k) \<in> set rest \<longleftrightarrow> ((cached m)(h := None)) h' = Some {} \<and> k = sz h'" for h' k
    using w(3) w(4) [of h' k] f by (auto simp: image_iff)
  moreover have "sum sz (dom (cached m) - {h}) = sum sz (dom (cached m)) - sz h" using w(1) hd by (simp add: sum_diff1)
  ultimately have "enc_wf sz feat m'"
    using w f h refs rf ids w(2) [OF hd] by (simp add: enc_wf_def m'_def)
  with h refs show ?thesis by simp
qed

lemma evict_until_spec:
  assumes "enc_wf sz feat m" "k \<le> num_freeable_slots m"
  shows "\<exists>m' j. evict_until k m = Inr m' \<and> enc_wf sz feat m' \<and> k \<le> num_free_slots m'
    \<and> refs_of m' = refs_of m \<and> num_freeable_slots m' = num_freeable_slots m \<and> ecm_cache_size m' = ecm_cache_size m
    \<and> freeable m' = drop j (freeable m) \<and> freed m' = freed m @ map fst (take j (freeable m))
    \<and> dom (cached m') = dom (cached m) - fst ` set (take j (freeable m))
    \<and> request_cached_ids m' = request_cached_ids m"
  using assms
proof (induction "freeable m" arbitrary: m)
  case Nil
  then have "k \<le> num_free_slots m" using freeable_sum [OF Nil(2)] by simp
  with Nil show ?case by (intro exI [of _ m] exI [of _ 0]) (simp add: evict_until.simps)
next
  case (Cons e rest)
  obtain h n where e: "e = (h, n)" by (cases e)
  show ?case
  proof (cases "k \<le> num_free_slots m")
    case True
    with Cons show ?thesis by (intro exI [of _ m] exI [of _ 0]) (simp add: evict_until.simps)
  next
    case False
    let ?m = "m\<lparr>freeable := rest, cached := (cached m)(h := None), freed := freed m @ [h], num_free_slots := num_free_slots m + n\<rparr>"
    have f: "freeable m = (h, n) # rest" using Cons(2) e by simp
    note ev = evict_oldest_wf [OF Cons(3) f]
    have step: "evict_until k m = evict_until k ?m" using False f ev by (subst evict_until.simps) simp
    obtain m' j where m': "evict_until k ?m = Inr m'" "enc_wf sz feat m'" "k \<le> num_free_slots m'"
        "refs_of m' = refs_of ?m" "num_freeable_slots m' = num_freeable_slots ?m" "ecm_cache_size m' = ecm_cache_size ?m"
        "freeable m' = drop j rest" "freed m' = freed ?m @ map fst (take j rest)"
        "dom (cached m') = dom (cached ?m) - fst ` set (take j rest)" "request_cached_ids m' = request_cached_ids ?m"
      using Cons(1) [of ?m] ev Cons(4) by auto
    show ?thesis by (rule exI [of _ m'], rule exI [of _ "Suc j"]) (use step m' ev f in auto)
  qed
qed

lemma can_allocate_spec:
  assumes wf: "enc_wf sz feat m" and r: "agrees sz feat r" "has_input r i" and n: "n = sz (feat (request_id r) i)"
  shows "\<exists>m'. can_allocate r i budget sched m = Inr (n \<le> budget \<and> n + sched \<le> num_freeable_slots m, m') \<and> enc_wf sz feat m'
    \<and> (n \<le> budget \<and> n + sched \<le> num_freeable_slots m \<longrightarrow> n + sched \<le> num_free_slots m')
    \<and> refs_of m' = refs_of m \<and> ecm_cache_size m' = ecm_cache_size m \<and> request_cached_ids m' = request_cached_ids m
    \<and> (\<exists>j. freeable m' = drop j (freeable m) \<and> freed m' = freed m @ map fst (take j (freeable m))
        \<and> dom (cached m') = dom (cached m) - fst ` set (take j (freeable m)))"
proof -
  note ge = get_embeds_ok(1) [OF r, folded n]
  show ?thesis
  proof (cases "n \<le> budget \<and> num_free_slots m < n + sched \<and> n + sched \<le> num_freeable_slots m")
    case True
    with evict_until_spec [OF wf, of "n + sched"] obtain m' j where
      m': "evict_until (n + sched) m = Inr m'" "enc_wf sz feat m'" "n + sched \<le> num_free_slots m'"
        "refs_of m' = refs_of m" "ecm_cache_size m' = ecm_cache_size m" "request_cached_ids m' = request_cached_ids m"
        "freeable m' = drop j (freeable m)" "freed m' = freed m @ map fst (take j (freeable m))"
        "dom (cached m') = dom (cached m) - fst ` set (take j (freeable m))" by blast
    then show ?thesis using ge True by (intro exI [of _ m']) (auto simp: can_allocate_def Let_def)
  next
    case False
    then have "can_allocate r i budget sched m = Inr (n \<le> budget \<and> n + sched \<le> num_freeable_slots m, m)"
      "n \<le> budget \<and> n + sched \<le> num_freeable_slots m \<longrightarrow> n + sched \<le> num_free_slots m"
      using ge enc_bounds(1) [OF wf] by (auto simp: can_allocate_def Let_def)
    then show ?thesis using wf by (intro exI [of _ m] conjI exI [of _ 0]) auto
  qed
qed

text \<open>Releasing an input: the reference goes with the last occurrence of the item.\<close>

definition enumerates :: "(int set \<Rightarrow> int list) \<Rightarrow> bool" where
  "enumerates order \<longleftrightarrow> (\<forall>A. finite A \<longrightarrow> set (order A) = A \<and> distinct (order A))"

definition covers :: "request \<Rightarrow> encoder_cache_manager \<Rightarrow> bool" where
  "covers r m \<longleftrightarrow> (\<forall>i \<in> ids_of m (request_id r). has_input r i)"

lemma covers_finite: "covers r m \<Longrightarrow> finite (ids_of m (request_id r))"
  by (rule finite_subset [of _ "{0..<int (length (mm_features r))}"]) (auto simp: covers_def has_input_def)

lemma drop_input_id_frame [simp]:
  "cached (drop_input_id rid i m) = cached m" "freeable (drop_input_id rid i m) = freeable m"
  "num_free_slots (drop_input_id rid i m) = num_free_slots m" "freed (drop_input_id rid i m) = freed m"
  "num_freeable_slots (drop_input_id rid i m) = num_freeable_slots m"
  "ecm_cache_size (drop_input_id rid i m) = ecm_cache_size m"
  "refs_of (drop_input_id rid i m) = refs_of m" "referenced (drop_input_id rid i m) = referenced m"
  "ids_of (drop_input_id rid i m) = (ids_of m)(rid := ids_of m rid - {i})"
  by (auto simp: drop_input_id_def refs_of_def referenced_def ids_of_def fun_eq_iff split: option.splits)

lemma drop_input_id_ids: "\<forall>rid'. request_cached_ids m rid' \<noteq> Some {} \<Longrightarrow> request_cached_ids (drop_input_id rid i m) rid' \<noteq> Some {}"
  by (auto simp: drop_input_id_def split: option.splits)

lemma other_occurrence_spec:
  "agrees sz feat r \<Longrightarrow> \<forall>i \<in> set ids. has_input r i \<Longrightarrow>
    other_occurrence r h ids = Inr (\<exists>i \<in> set ids. feat (request_id r) i = h)"
  by (induction ids) (auto simp: get_mm_hash_ok)

lemma drop_input_id_wf:
  assumes "enc_wf sz feat m" "(\<exists>j \<in> ids_of m rid - {i}. feat rid j = feat rid i) \<or> rid \<notin> refs_of m (feat rid i)"
  shows "enc_wf sz feat (drop_input_id rid i m)"
proof -
  note w = enc_wfD [OF assms(1)]
  have "(rid' \<in> refs_of m h) = (\<exists>j \<in> ((ids_of m)(rid := ids_of m rid - {i})) rid'. feat rid' j = h)" for rid' h
    using w(9) [of rid' h] assms(2) by auto
  then show ?thesis using w drop_input_id_ids [of m rid i] by (simp add: enc_wf_def)
qed

lemma update_append_new: "k \<notin> fst ` set al \<Longrightarrow> AList.update k v al = al @ [(k, v)]"
  by (induction al) auto

lemma release_reference_spec:
  assumes wf: "enc_wf sz feat m" and r: "agrees sz feat r" "has_input r i" and rid: "rid = request_id r" and h: "h = feat rid i"
    and refs: "cached m h = Some refs" "refs \<noteq> {}" and last: "\<forall>j \<in> ids_of m rid - {i}. feat rid j \<noteq> h"
  shows "\<exists>m'. release_reference r i h refs (drop_input_id rid i m) = Inr m' \<and> enc_wf sz feat m'
    \<and> refs_of m' = (refs_of m)(h := refs - {rid}) \<and> ids_of m' = (ids_of m)(rid := ids_of m rid - {i})
    \<and> dom (cached m') = dom (cached m) \<and> freed m' = freed m \<and> num_free_slots m' = num_free_slots m
    \<and> ecm_cache_size m' = ecm_cache_size m"
proof -
  note w = enc_wfD [OF wf]
  let ?m1 = "drop_input_id rid i m" and ?refs = "refs - {rid}"
  let ?m2 = "?m1\<lparr>cached := (cached m)(h \<mapsto> ?refs)\<rparr>"
  define m' where "m' = (if ?refs = {} then ?m2\<lparr>freeable := AList.update h (sz h) (freeable m),
      num_freeable_slots := num_freeable_slots m + sz h\<rparr> else ?m2)"
  have res: "release_reference r i h refs ?m1 = Inr m'"
    using get_embeds_ok(1) [OF r] h rid by (simp add: release_reference_def m'_def Let_def)
  have hm: "h \<in> dom (cached m)" "h \<in> referenced m" "refs_of m h = refs" using refs by (auto simp: referenced_def refs_of_def)
  have nf: "h \<notin> fst ` set (freeable m)" using w(4) refs by force
  have refs': "refs_of m' = (refs_of m)(h := ?refs)" and ids': "ids_of m' = (ids_of m)(rid := ids_of m rid - {i})"
    by (auto simp: m'_def refs_of_def fun_eq_iff)
      (auto simp: m'_def ids_of_def fun_eq_iff drop_input_id_def split: option.splits if_splits)
  then have rf: "referenced m' = (if ?refs = {} then referenced m - {h} else referenced m)"
    using hm by (auto simp: referenced_def)
  have fr: "freeable m' = (if ?refs = {} then freeable m @ [(h, sz h)] else freeable m)"
    using nf by (simp add: m'_def update_append_new)
  have c9: "(rid' \<in> refs_of m' h') = (\<exists>j \<in> ids_of m' rid'. feat rid' j = h')" for rid' h'
    unfolding refs' ids' using w(9) [of rid' h'] hm(3) last h by auto
  have c4: "(h', k) \<in> set (freeable m') \<longleftrightarrow> cached m' h' = Some {} \<and> k = sz h'" for h' k
    unfolding fr using w(4) [of h' k] refs by (auto simp: m'_def)
  have "finite (referenced m)" using finite_subset [OF referenced_cached w(1)] .
  then have c6: "num_freeable_slots m' = ecm_cache_size m - sum sz (referenced m')"
    unfolding rf using w(6) hm(2) by (simp add: m'_def sum_diff1)
  have frame: "dom (cached m') = dom (cached m)" "freed m' = freed m" "num_free_slots m' = num_free_slots m"
    "ecm_cache_size m' = ecm_cache_size m" "request_cached_ids m' = request_cached_ids ?m1"
    using hm(1) by (auto simp: m'_def)
  have "distinct (map fst (freeable m'))" unfolding fr using w(3) nf by simp
  then have "enc_wf sz feat m'"
    unfolding enc_wf_def using w c4 c6 c9 frame drop_input_id_ids [of m rid i] by simp
  with res refs' ids' frame show ?thesis by blast
qed

lemma free_encoder_input_spec:
  assumes wf: "enc_wf sz feat m" and r: "agrees sz feat r" "has_input r i" "covers r m" and o: "enumerates order"
    and rid: "rid = request_id r" and h: "h = feat rid i"
  shows "\<exists>m'. free_encoder_input order r i m = Inr m' \<and> enc_wf sz feat m'
    \<and> refs_of m' = (refs_of m)(h := if \<exists>j \<in> ids_of m rid - {i}. feat rid j = h then refs_of m h else refs_of m h - {rid})
    \<and> ids_of m' = (ids_of m)(rid := ids_of m rid - {i})
    \<and> dom (cached m') = dom (cached m) \<and> freed m' = freed m \<and> num_free_slots m' = num_free_slots m
    \<and> ecm_cache_size m' = ecm_cache_size m"
proof -
  let ?m1 = "drop_input_id rid i m" and ?other = "\<exists>j \<in> ids_of m rid - {i}. feat rid j = h"
  have gh: "get_mm_hash r i = Inr h" using get_mm_hash_ok [OF r(1,2)] rid h by simp
  have ids1: "get_cached_input_ids r ?m1 = ids_of m rid - {i}"
    using fun_cong [OF drop_input_id_frame(9) [of rid i m], of rid]
    by (simp add: get_cached_input_ids_def ids_of_def rid del: drop_input_id_frame)
  have e: "set (order (ids_of m rid - {i})) = ids_of m rid - {i}"
    using o covers_finite [OF r(3)] by (simp add: enumerates_def rid)
  then have oc: "other_occurrence r h (order (get_cached_input_ids r ?m1)) = Inr ?other"
    using other_occurrence_spec [OF r(1), of "order (ids_of m rid - {i})" h] r(3) ids1
    by (auto simp: covers_def rid)
  have keep: ?thesis if "free_encoder_input order r i m = Inr ?m1" "?other \<or> rid \<notin> refs_of m h"
    using that drop_input_id_wf [OF wf, of rid i] h by (intro exI [of _ ?m1]) auto
  show ?thesis
  proof (cases "refs_of m h = {} \<or> ?other")
    case True
    then have "free_encoder_input order r i m = Inr ?m1"
      using gh oc by (cases "cached m h") (auto simp: free_encoder_input_def rid [symmetric] refs_of_def Let_def)
    with True keep show ?thesis by auto
  next
    case False
    then obtain refs where refs: "cached m h = Some refs" "refs \<noteq> {}" "refs_of m h = refs"
      by (cases "cached m h") (auto simp: refs_of_def)
    have "free_encoder_input order r i m = release_reference r i h refs ?m1"
      using gh oc refs False by (simp add: free_encoder_input_def rid [symmetric] Let_def)
    moreover have no: "?other = False" using False by blast
    ultimately show ?thesis
      unfolding no if_False refs(3) using release_reference_spec [OF wf r(1,2) rid h refs(1,2)] no by simp
  qed
qed

lemma free_inputs_spec:
  assumes "enc_wf sz feat m" "agrees sz feat r" "covers r m" "enumerates order" "\<forall>i \<in> set ids. has_input r i" "rid = request_id r"
  shows "\<exists>m'. foldE (free_encoder_input order r) ids m = Inr m' \<and> enc_wf sz feat m'
    \<and> (\<forall>h. refs_of m' h - {rid} = refs_of m h - {rid}) \<and> ids_of m' = (ids_of m)(rid := ids_of m rid - set ids)
    \<and> dom (cached m') = dom (cached m) \<and> freed m' = freed m \<and> num_free_slots m' = num_free_slots m
    \<and> ecm_cache_size m' = ecm_cache_size m"
  using assms
proof (induction ids arbitrary: m)
  case (Cons i ids)
  then obtain m1 where m1: "free_encoder_input order r i m = Inr m1" "enc_wf sz feat m1"
      "refs_of m1 = (refs_of m)(feat rid i := if \<exists>j \<in> ids_of m rid - {i}. feat rid j = feat rid i
         then refs_of m (feat rid i) else refs_of m (feat rid i) - {rid})"
      "ids_of m1 = (ids_of m)(rid := ids_of m rid - {i})"
      "dom (cached m1) = dom (cached m)" "freed m1 = freed m" "num_free_slots m1 = num_free_slots m"
      "ecm_cache_size m1 = ecm_cache_size m"
    using free_encoder_input_spec [OF Cons.prems(1,2) _ Cons.prems(3,4), of i rid "feat rid i"] by auto
  have "covers r m1" using Cons.prems(3,6) m1(4) by (auto simp: covers_def)
  then obtain m' where m': "foldE (free_encoder_input order r) ids m1 = Inr m'" "enc_wf sz feat m'"
      "\<forall>h. refs_of m' h - {rid} = refs_of m1 h - {rid}" "ids_of m' = (ids_of m1)(rid := ids_of m1 rid - set ids)"
      "dom (cached m') = dom (cached m1)" "freed m' = freed m1" "num_free_slots m' = num_free_slots m1"
      "ecm_cache_size m' = ecm_cache_size m1"
    using Cons.IH [OF m1(2) Cons.prems(2) _ Cons.prems(4) _ Cons.prems(6)] Cons.prems(5) by (meson list.set_intros(2))
  have "refs_of m1 h - {rid} = refs_of m h - {rid}" for h unfolding m1(3) by auto
  moreover have "ids_of m' = (ids_of m)(rid := ids_of m rid - set (i # ids))"
    unfolding m'(4) m1(4) by (auto simp: fun_eq_iff)
  ultimately show ?case using m1 m' by (intro exI [of _ m']) simp
qed (simp add: fun_upd_idem)

lemma free_request_spec:
  assumes "enc_wf sz feat m" "agrees sz feat r" "covers r m" "enumerates order" "rid = request_id r"
  shows "\<exists>m'. free_request order r m = Inr m' \<and> enc_wf sz feat m' \<and> (\<forall>h. refs_of m' h = refs_of m h - {rid})
    \<and> ids_of m' = (ids_of m)(rid := {}) \<and> dom (cached m') = dom (cached m) \<and> freed m' = freed m
    \<and> num_free_slots m' = num_free_slots m \<and> ecm_cache_size m' = ecm_cache_size m"
proof -
  have ids: "get_cached_input_ids r m = ids_of m rid" by (simp add: get_cached_input_ids_def ids_of_def assms(5))
  have e: "set (order (ids_of m rid)) = ids_of m rid"
    using assms(4,5) covers_finite [OF assms(3)] by (simp add: enumerates_def)
  then obtain m' where m': "free_request order r m = Inr m'" "enc_wf sz feat m'"
      "\<forall>h. refs_of m' h - {rid} = refs_of m h - {rid}" "ids_of m' = (ids_of m)(rid := {})" "dom (cached m') = dom (cached m)"
      "freed m' = freed m" "num_free_slots m' = num_free_slots m" "ecm_cache_size m' = ecm_cache_size m"
    using free_inputs_spec [OF assms(1-4) _ assms(5), of "order (ids_of m rid)"] assms(3,5)
    unfolding free_request_def ids by (auto simp: covers_def)
  have "rid \<notin> refs_of m' h" for h using enc_wfD(9) [OF m'(2), of rid h] m'(4) by simp
  then have "refs_of m' h = refs_of m h - {rid}" for h using m'(3) by (metis Diff_empty Diff_insert0)
  with m' show ?thesis by blast
qed

subsection \<open>All sequences of operations\<close>

text \<open>
  The states of a manager of a cache of \<open>size\<close> slots: the operations in any order, with requests that
  agree with \<open>sz\<close> and \<open>feat\<close>; space is allocated for items that are not cached, as the scheduler does
  after \<open>check_and_update_cache\<close> has returned false.
\<close>

inductive enc_reach :: "(string \<Rightarrow> int) \<Rightarrow> (string \<Rightarrow> int \<Rightarrow> string) \<Rightarrow> int \<Rightarrow> encoder_cache_manager \<Rightarrow> bool"
  for sz feat cs where
  enc_init: "0 \<le> cs \<Longrightarrow> enc_reach sz feat cs (init_ecm cs)"
| enc_reset: "enc_reach sz feat cs m \<Longrightarrow> enc_reach sz feat cs (reset_ecm m)"
| enc_check: "enc_reach sz feat cs m \<Longrightarrow> agrees sz feat r \<Longrightarrow> has_input r i \<Longrightarrow>
    check_and_update_cache r i m = Inr (b, m') \<Longrightarrow> enc_reach sz feat cs m'"
| enc_can: "enc_reach sz feat cs m \<Longrightarrow> agrees sz feat r \<Longrightarrow> has_input r i \<Longrightarrow>
    can_allocate r i budget sched m = Inr (b, m') \<Longrightarrow> enc_reach sz feat cs m'"
| enc_allocate: "enc_reach sz feat cs m \<Longrightarrow> agrees sz feat r \<Longrightarrow> has_input r i \<Longrightarrow> cached m (feat (request_id r) i) = None \<Longrightarrow>
    allocate r i m = Inr m' \<Longrightarrow> enc_reach sz feat cs m'"
| enc_free_input: "enc_reach sz feat cs m \<Longrightarrow> agrees sz feat r \<Longrightarrow> has_input r i \<Longrightarrow> covers r m \<Longrightarrow> enumerates order \<Longrightarrow>
    free_encoder_input order r i m = Inr m' \<Longrightarrow> enc_reach sz feat cs m'"
| enc_free: "enc_reach sz feat cs m \<Longrightarrow> agrees sz feat r \<Longrightarrow> covers r m \<Longrightarrow> enumerates order \<Longrightarrow>
    free_request order r m = Inr m' \<Longrightarrow> enc_reach sz feat cs m'"
| enc_freed: "enc_reach sz feat cs m \<Longrightarrow> get_freed_mm_hashes m = (hs, m') \<Longrightarrow> enc_reach sz feat cs m'"

lemma allocate_room:
  assumes "agrees sz feat r" "has_input r i" "allocate r i m = Inr m'"
  shows "sz (feat (request_id r) i) \<le> num_free_slots m"
  using assms get_embeds_ok [OF assms(1,2)] get_mm_hash_ok [OF assms(1,2)]
  by (auto simp: allocate_def assertE_def split: if_splits)

lemma enc_reach_wf: "enc_reach sz feat cs m \<Longrightarrow> enc_wf sz feat m \<and> ecm_cache_size m = cs \<and> 0 \<le> cs"
proof (induction rule: enc_reach.induct)
  case enc_init
  then show ?case using init_wf [of cs] by (simp add: init_ecm_def)
next
  case (enc_reset m)
  then show ?case using reset_wf [of m] by (simp add: reset_ecm_def)
next
  case (enc_check m r i b m')
  then show ?case using check_and_update_spec [of sz feat m r i "feat (request_id r) i"] by (auto split: if_splits)
next
  case (enc_can m r i budget sched b m')
  then show ?case using can_allocate_spec [of sz feat m r i _ budget sched] by fastforce
next
  case (enc_allocate m r i m')
  then show ?case using allocate_spec [of sz feat m r i] allocate_room [of sz feat r i m m'] by fastforce
next
  case (enc_free_input m r i order m')
  then show ?case using free_encoder_input_spec [of sz feat m r i order] by fastforce
next
  case (enc_free m r order m')
  then show ?case using free_request_spec [of sz feat m r order] by fastforce
next
  case (enc_freed m hs m')
  then show ?case by (auto simp: get_freed_mm_hashes_def enc_wf_def refs_of_def ids_of_def referenced_def)
qed

subsection \<open>Properties\<close>

text \<open>
  C33. The accounting of the encoder cache. After any sequence of operations the free slots are the
  size less the embeddings of all cached items, the reclaimable slots the size less those of the
  referenced items, and \<open>0 \<le> free \<le> reclaimable \<le> size\<close>; the eviction list holds exactly the cached
  items without a reference, each once; an item has a reference of a request exactly when one of the
  inputs recorded for the request is that item, so a referenced item is always cached.
\<close>

theorem encoder_cache_accounting:
  assumes "enc_reach sz feat cs m"
  shows "num_free_slots m = cs - sum sz (dom (cached m)) \<and> num_freeable_slots m = cs - sum sz (referenced m)
    \<and> 0 \<le> num_free_slots m \<and> num_free_slots m \<le> num_freeable_slots m \<and> num_freeable_slots m \<le> cs
    \<and> distinct (map fst (freeable m)) \<and> (\<forall>h n. (h, n) \<in> set (freeable m) \<longleftrightarrow> cached m h = Some {} \<and> n = sz h)
    \<and> (\<forall>h rid. rid \<in> refs_of m h \<longleftrightarrow> (\<exists>i \<in> ids_of m rid. feat rid i = h))"
proof -
  have wf: "enc_wf sz feat m" "ecm_cache_size m = cs" using enc_reach_wf [OF assms] by auto
  show ?thesis using enc_wfD [OF wf(1)] enc_bounds [OF wf(1)] wf(2) by simp
qed

definition image_request :: "string \<Rightarrow> request" where
  "image_request item = (init_fields 0 1 sample_args 16 WAITING None 3)
     \<lparr>mm_features := [\<lparr>mm_identifier = item, mm_position = \<lparr>ph_offset = 0, ph_length = 4, is_embed = None\<rparr>\<rparr>],
      num_computed_tokens := 5\<rparr>"

lemma image_request_agrees: "agrees (\<lambda>_. 4) (\<lambda>_ _. item) (image_request item)"
  by (simp add: agrees_def image_request_def get_num_embeds_def embeds_cumsum_def)

lemma image_request_input: "has_input (image_request item) 0"
  by (simp add: has_input_def image_request_def)

lemma image_allocated:
  obtains m where "allocate (image_request ''A'') 0 (init_ecm 10) = Inr m" "enc_reach (\<lambda>_. 4) (\<lambda>_ _. ''A'') 10 m"
    "refs_of m ''A'' = {request_id (image_request ''A'')}"
proof -
  note r = image_request_agrees [of "''A''"] image_request_input [of "''A''"]
  have new: "cached (init_ecm 10) ''A'' = None" by (simp add: init_ecm_def)
  have wf: "enc_wf (\<lambda>_. 4) (\<lambda>_ _. ''A'') (init_ecm 10)" and room: "4 \<le> num_free_slots (init_ecm 10)"
    by (rule init_wf) (simp_all add: init_ecm_def)
  from allocate_spec [OF wf r refl new room] obtain m where m: "allocate (image_request ''A'') 0 (init_ecm 10) = Inr m"
      "refs_of m ''A'' = {request_id (image_request ''A'')}" by (metis fun_upd_same)
  have "enc_reach (\<lambda>_. 4) (\<lambda>_ _. ''A'') 10 m" using enc_allocate [OF enc_init r new m(1)] by simp
  with m that show thesis by blast
qed

theorem encoder_cache_accounting_witness:
  "\<exists>m. allocate (image_request ''A'') 0 (init_ecm 10) = Inr m \<and> num_free_slots m = 10 - sum (\<lambda>_. 4) (dom (cached m))
     \<and> 0 \<le> num_free_slots m"
proof -
  obtain m where m: "allocate (image_request ''A'') 0 (init_ecm 10) = Inr m" "enc_reach (\<lambda>_. 4) (\<lambda>_ _. ''A'') 10 m"
    by (blast intro: image_allocated)
  from encoder_cache_accounting [OF m(2)] m(1) show ?thesis by blast
qed

text \<open>
  C34. \<open>can_allocate\<close> decides exactly. It answers yes if and only if the item fits the compute budget
  and, with the embeddings already scheduled, the reclaimable slots; its eviction loop always ends,
  evicts the oldest unreferenced items only, reports them as freed, and keeps every reference; after a
  yes the item can be allocated: both assertions of \<open>allocate\<close> hold.
\<close>

theorem can_allocate_exact:
  assumes "enc_reach sz feat cs m" "agrees sz feat r" "has_input r i" "h = feat (request_id r) i" "0 \<le> sched"
  shows "\<exists>b m' j. can_allocate r i budget sched m = Inr (b, m')
    \<and> (b \<longleftrightarrow> sz h \<le> budget \<and> sz h + sched \<le> num_freeable_slots m)
    \<and> freeable m' = drop j (freeable m) \<and> freed m' = freed m @ map fst (take j (freeable m))
    \<and> dom (cached m') = dom (cached m) - fst ` set (take j (freeable m)) \<and> refs_of m' = refs_of m
    \<and> (b \<and> cached m' h = None \<longrightarrow> (\<exists>m''. allocate r i m' = Inr m'' \<and> request_id r \<in> refs_of m'' h))"
proof -
  have wf: "enc_wf sz feat m" using enc_reach_wf [OF assms(1)] by simp
  have n: "sz h = sz (feat (request_id r) i)" using assms(4) by simp
  obtain m' j where m': "can_allocate r i budget sched m = Inr (sz h \<le> budget \<and> sz h + sched \<le> num_freeable_slots m, m')"
      "enc_wf sz feat m'" "sz h \<le> budget \<and> sz h + sched \<le> num_freeable_slots m \<longrightarrow> sz h + sched \<le> num_free_slots m'"
      "refs_of m' = refs_of m" "freeable m' = drop j (freeable m)" "freed m' = freed m @ map fst (take j (freeable m))"
      "dom (cached m') = dom (cached m) - fst ` set (take j (freeable m))"
    using can_allocate_spec [OF wf assms(2,3) n, of budget sched] by blast
  have "\<exists>m''. allocate r i m' = Inr m'' \<and> request_id r \<in> refs_of m'' h"
    if "sz h \<le> budget \<and> sz h + sched \<le> num_freeable_slots m" "cached m' h = None"
    using allocate_spec [OF m'(2) assms(2-4) that(2)] m'(3) that(1) assms(5) by fastforce
  with m' show ?thesis by blast
qed

theorem can_allocate_exact_witness:
  "\<exists>m. can_allocate (image_request ''A'') 0 8 0 (init_ecm 10) = Inr (True, m)"
proof -
  have "enc_reach (\<lambda>_. 4) (\<lambda>_ _. ''A'') 10 (init_ecm 10)" by (rule enc_init) simp
  from can_allocate_exact [OF this image_request_agrees image_request_input refl, of 0 8] show ?thesis
    by (auto simp: init_ecm_def)
qed

text \<open>
  C35. Finishing a request releases it. \<open>free\<close> removes its references and nothing else, whatever the
  order in which the set of its inputs is visited; no entry leaves the cache, those it referenced last
  become evictable. The hashes later reported to the workers are the evicted ones that are not cached
  again.
\<close>

theorem free_request_releases:
  assumes "enc_reach sz feat cs m" "agrees sz feat r" "covers r m" "enumerates order"
  shows "\<exists>m'. free_request order r m = Inr m' \<and> (\<forall>h. refs_of m' h = refs_of m h - {request_id r})
    \<and> ids_of m' = (ids_of m)(request_id r := {}) \<and> dom (cached m') = dom (cached m)
    \<and> num_freeable_slots m' = num_freeable_slots m + sum sz {h. refs_of m h = {request_id r}}
    \<and> set (fst (get_freed_mm_hashes m')) = set (freed m) - dom (cached m)"
proof -
  have wf: "enc_wf sz feat m" using enc_reach_wf [OF assms(1)] by simp
  obtain m' where m': "free_request order r m = Inr m'" "enc_wf sz feat m'" "\<forall>h. refs_of m' h = refs_of m h - {request_id r}"
      "ids_of m' = (ids_of m)(request_id r := {})" "dom (cached m') = dom (cached m)" "freed m' = freed m"
      "ecm_cache_size m' = ecm_cache_size m"
    using free_request_spec [OF wf assms(2-4) refl] by blast
  let ?own = "{h. refs_of m h = {request_id r}}"
  have own: "?own \<subseteq> referenced m" "referenced m' = referenced m - ?own" using m'(3) by (auto simp: referenced_def)
  have fin: "finite (referenced m)" using finite_subset [OF referenced_cached enc_wfD(1) [OF wf]] .
  have "sum sz (referenced m') = sum sz (referenced m) - sum sz ?own" unfolding own(2) using fin own(1) by (rule sum_diff)
  then have "num_freeable_slots m' = num_freeable_slots m + sum sz ?own"
    using enc_wfD(6) [OF wf] enc_wfD(6) [OF m'(2)] m'(7) by simp
  moreover have "set (fst (get_freed_mm_hashes m')) = set (freed m) - dom (cached m)"
    using m'(5,6) by (auto simp: get_freed_mm_hashes_def domIff)
  ultimately show ?thesis using m' by blast
qed

theorem free_request_releases_witness:
  "\<exists>m m'. allocate (image_request ''A'') 0 (init_ecm 10) = Inr m \<and> free_request sorted_list_of_set (image_request ''A'') m = Inr m'
     \<and> refs_of m' ''A'' = {}"
proof -
  obtain m where m: "allocate (image_request ''A'') 0 (init_ecm 10) = Inr m" "enc_reach (\<lambda>_. 4) (\<lambda>_ _. ''A'') 10 m"
      "refs_of m ''A'' = {request_id (image_request ''A'')}" by (blast intro: image_allocated)
  have "ids_of m (request_id (image_request ''A'')) \<subseteq> {0}"
    using m(1) by (auto simp: allocate_def assertE_def add_reference_def ids_of_def init_ecm_def err_simps split: if_splits)
  then have "covers (image_request ''A'') m" using image_request_input by (auto simp: covers_def)
  moreover have "enumerates sorted_list_of_set" by (simp add: enumerates_def)
  ultimately show ?thesis
    using free_request_releases [OF m(2) image_request_agrees, of sorted_list_of_set] m by auto
qed

text \<open>
  C36. The encoder-decoder manager loses count. It records no allocation, so every input of a request
  counts as cached at every step. After one allocation each further step of an encoder-decoder request
  that has computed a token gives its slots back again: after \<open>k\<close> steps the manager holds
  \<open>cs + (k - 1) * n\<close> free slots, beyond the size of the cache.
\<close>

theorem encoder_decoder_slots_inflate:
  assumes "mm_features r = [f]" "n = get_num_embeds (mm_position f)" "num_computed_tokens r > 0" "enumerates order"
  shows "\<exists>m m'. edm_allocate r 0 (init_edm cs) = Inr m
    \<and> foldE (\<lambda>_. free_encoder_inputs order True lookahead (\<lambda>_. edm_get_cached_input_ids r) (edm_free_encoder_input r) r) [0..<k] m = Inr m'
    \<and> edm_free_slots m' = cs + (int k - 1) * n"
proof -
  let ?step = "free_encoder_inputs order True lookahead (\<lambda>_. edm_get_cached_input_ids r) (edm_free_encoder_input r) r"
  have ge: "get_num_encoder_embeds 0 r = Inr n"
    using assms(1,2) by (simp add: get_num_encoder_embeds_def num_encoder_inputs_def)
  have "xs = [0]" if "set xs = {0}" "distinct xs" for xs :: "int list"
    using that by (cases xs; cases "tl xs") auto
  then have "order {0} = [0]" using assms(4) by (simp add: enumerates_def)
  moreover have "edm_get_cached_input_ids r = {0}" using assms(1) by (simp add: edm_get_cached_input_ids_def)
  ultimately have step: "?step = (\<lambda>m. Inr (m\<lparr>edm_free_slots := edm_free_slots m + n\<rparr>))"
    using assms(1,3) ge by (simp add: fun_eq_iff free_encoder_inputs_def input_passed_def py_index_nth edm_free_encoder_input_def)
  have steps: "\<exists>m'. foldE (\<lambda>_. ?step) [0..<k] m = Inr m' \<and> edm_free_slots m' = edm_free_slots m + int k * n" for m
    unfolding step by (induction k) (auto simp: foldE_append algebra_simps)
  define m where "m = (init_edm cs)\<lparr>edm_free_slots := cs - n, allocated := [mm_identifier f]\<rparr>"
  have "edm_allocate r 0 (init_edm cs) = Inr m"
    using ge assms(1) by (simp add: edm_allocate_def get_mm_hash_def py_index_nth init_edm_def m_def)
  with steps [of m] show ?thesis by (auto simp: m_def algebra_simps)
qed

theorem encoder_decoder_slots_inflate_witness:
  "\<exists>m m'. edm_allocate (image_request ''A'') 0 (init_edm 10) = Inr m
    \<and> foldE (\<lambda>_. free_encoder_inputs sorted_list_of_set True 0 (\<lambda>_. edm_get_cached_input_ids (image_request ''A''))
        (edm_free_encoder_input (image_request ''A'')) (image_request ''A'')) [0..<3] m = Inr m'
    \<and> edm_free_slots m' = 18"
proof -
  let ?f = "\<lparr>mm_identifier = ''A'', mm_position = \<lparr>ph_offset = 0, ph_length = 4, is_embed = None\<rparr>\<rparr>"
  have "mm_features (image_request ''A'') = [?f]" "num_computed_tokens (image_request ''A'') > 0"
    "get_num_embeds (mm_position ?f) = 4"
    by (simp_all add: image_request_def get_num_embeds_def embeds_cumsum_def)
  from encoder_decoder_slots_inflate [OF this(1) refl this(2), of sorted_list_of_set 10 0 3] this(3)
  show ?thesis by (simp add: enumerates_def)
qed

text \<open>
  The encoder budgets. With no modality they are zero. Otherwise both budgets admit every single
  item and are at least the configured ones; the only error is a \<open>ValueError\<close>, exactly when items may
  not be chunked and one exceeds the batch.
\<close>

theorem encoder_budget_bounds:
  assumes "(k, n) \<in> set items"
  shows "case compute_mm_encoder_budget disable_chunked max_batched max_input cache_size items of
      Inl e \<Rightarrow> e = ValueError \<and> disable_chunked \<and> (\<exists>(k', n') \<in> set items. n' > max_batched)
    | Inr (compute, space) \<Rightarrow> n \<le> compute \<and> n \<le> space \<and> max_input \<le> compute \<and> cache_size \<le> space
        \<and> (disable_chunked \<longrightarrow> n \<le> max_batched)"
proof -
  have "n \<in> snd ` set items" using assms by force
  then have n: "n \<le> Max (snd ` set items)" and m: "Max (snd ` set items) \<in> snd ` set items" by (auto intro: Max_in)
  have "\<exists>(k', n') \<in> set items. n' > max_batched" if "max_batched < Max (snd ` set items)" using that m by force
  with n assms show ?thesis by (auto simp: compute_mm_encoder_budget_def Let_def)
qed

theorem encoder_budget_bounds_witness:
  "compute_mm_encoder_budget True 8 4 16 [(''image'', 6)] = Inr (6, 16) \<and> 6 \<le> (8 :: int)"
  using encoder_budget_bounds [of "''image''" 6 "[(''image'', 6)]" True 8 4 16] by (simp add: compute_mm_encoder_budget_def)

end
