(* ===== verification/KV_Metrics.thy ===== *)
theory KV_Metrics
  imports Block_Pool
begin

text \<open>
  The collector of block residency metrics (\<open>src/vllm/v1/core/kv_cache_metrics.py\<close>). The readings of
  the monotonic clock and of the random generator are arguments; seconds are exact rationals. The
  calls are those the block pool makes.
\<close>

subsection \<open>Definitions\<close>

record block_metrics_state =
  birth_time_ns :: int
  last_access_ns :: int
  access_history :: "int list"

definition new_metrics_state :: "int \<Rightarrow> block_metrics_state" where
  "new_metrics_state now = \<lparr>birth_time_ns = now, last_access_ns = now, access_history = []\<rparr>"

text \<open>\<open>deque(maxlen=4)\<close>: appending to a full deque drops its oldest element.\<close>

definition bounded_append :: "nat \<Rightarrow> 'a \<Rightarrow> 'a list \<Rightarrow> 'a list" where
  "bounded_append maxlen x xs = (let ys = xs @ [x] in drop (length ys - maxlen) ys)"

definition record_access :: "int \<Rightarrow> block_metrics_state \<Rightarrow> block_metrics_state" where
  "record_access now s = s\<lparr>last_access_ns := now, access_history := bounded_append 4 now (access_history s)\<rparr>"

definition get_lifetime_seconds :: "int \<Rightarrow> block_metrics_state \<Rightarrow> rat" where
  "get_lifetime_seconds now s = of_int (now - birth_time_ns s) / 10 ^ 9"

definition get_idle_time_seconds :: "int \<Rightarrow> block_metrics_state \<Rightarrow> rat" where
  "get_idle_time_seconds now s = of_int (now - last_access_ns s) / 10 ^ 9"

definition get_reuse_gaps_seconds :: "block_metrics_state \<Rightarrow> rat list" where
  "get_reuse_gaps_seconds s =
     (if length (access_history s) < 2 then []
      else map (\<lambda>i. of_int (access_history s ! i - access_history s ! (i - 1)) / 10 ^ 9) [1..<length (access_history s)])"

record eviction_event =
  lifetime_seconds :: rat
  idle_seconds :: rat
  reuse_gaps_seconds :: "rat list"

record kv_metrics_collector =
  sample_rate :: rat
  block_metrics :: "int \<rightharpoonup> block_metrics_state"
  eviction_events :: "eviction_event list"

definition init_collector :: "rat \<Rightarrow> kv_metrics_collector result" where
  "init_collector rate = bindE (assertE (0 < rate \<and> rate \<le> 1)) (\<lambda>_.
     Inr \<lparr>sample_rate = rate, block_metrics = Map.empty, eviction_events = []\<rparr>)"

definition should_sample_block :: "rat \<Rightarrow> kv_metrics_collector \<Rightarrow> bool" where
  "should_sample_block random c \<longleftrightarrow> random < sample_rate c"

definition on_block_allocated :: "rat \<Rightarrow> int \<Rightarrow> block_ref \<Rightarrow> kv_metrics_collector \<Rightarrow> kv_metrics_collector" where
  "on_block_allocated random now b c =
     (if should_sample_block random c
      then c\<lparr>block_metrics := (block_metrics c)(block_id b \<mapsto> new_metrics_state now)\<rparr> else c)"

definition on_block_accessed :: "int \<Rightarrow> block_ref \<Rightarrow> kv_metrics_collector \<Rightarrow> kv_metrics_collector" where
  "on_block_accessed now b c =
     (case block_metrics c (block_id b) of
        None \<Rightarrow> c
      | Some s \<Rightarrow> c\<lparr>block_metrics := (block_metrics c)(block_id b \<mapsto> record_access now s)\<rparr>)"

text \<open>The clock is read twice: for the lifetime and for the idle time.\<close>

definition on_block_evicted :: "int \<Rightarrow> int \<Rightarrow> block_ref \<Rightarrow> kv_metrics_collector \<Rightarrow> kv_metrics_collector" where
  "on_block_evicted now now' b c =
     (case block_metrics c (block_id b) of
        None \<Rightarrow> c
      | Some s \<Rightarrow> c\<lparr>block_metrics := (block_metrics c)(block_id b := None),
          eviction_events := eviction_events c @
            [\<lparr>lifetime_seconds = get_lifetime_seconds now s, idle_seconds = get_idle_time_seconds now' s,
              reuse_gaps_seconds = get_reuse_gaps_seconds s\<rparr>]\<rparr>)"

definition reset_collector :: "kv_metrics_collector \<Rightarrow> kv_metrics_collector" where
  "reset_collector c = c\<lparr>block_metrics := Map.empty, eviction_events := []\<rparr>"

definition drain_events :: "kv_metrics_collector \<Rightarrow> eviction_event list \<times> kv_metrics_collector" where
  "drain_events c = (eviction_events c, c\<lparr>eviction_events := []\<rparr>)"

text \<open>A call of the pool at a time, and a sequence of them with the readings of each.\<close>

fun apply_call :: "metrics_call \<Rightarrow> rat \<times> int \<times> int \<Rightarrow> kv_metrics_collector \<Rightarrow> kv_metrics_collector" where
  "apply_call (OnAllocated b) (random, now, now') c = on_block_allocated random now b c"
| "apply_call (OnAccessed b) (random, now, now') c = on_block_accessed now b c"
| "apply_call (OnEvicted b) (random, now, now') c = on_block_evicted now now' b c"
| "apply_call OnReset (random, now, now') c = reset_collector c"

primrec apply_calls :: "(metrics_call \<times> rat \<times> int \<times> int) list \<Rightarrow> kv_metrics_collector \<Rightarrow> kv_metrics_collector" where
  "apply_calls [] c = c"
| "apply_calls (e # es) c = apply_calls es (apply_call (fst e) (snd e) c)"

subsection \<open>Invariant\<close>

definition state_ok :: "int \<Rightarrow> block_metrics_state \<Rightarrow> bool" where
  "state_ok now s \<longleftrightarrow> birth_time_ns s \<le> last_access_ns s \<and> last_access_ns s \<le> now
     \<and> length (access_history s) \<le> 4 \<and> sorted (access_history s) \<and> (\<forall>t \<in> set (access_history s). t \<le> last_access_ns s)"

definition event_ok :: "eviction_event \<Rightarrow> bool" where
  "event_ok e \<longleftrightarrow> 0 \<le> lifetime_seconds e \<and> 0 \<le> idle_seconds e \<and> length (reuse_gaps_seconds e) \<le> 3
     \<and> (\<forall>g \<in> set (reuse_gaps_seconds e). 0 \<le> g)"

definition collector_ok :: "int \<Rightarrow> kv_metrics_collector \<Rightarrow> bool" where
  "collector_ok now c \<longleftrightarrow> (\<forall>b s. block_metrics c b = Some s \<longrightarrow> state_ok now s) \<and> (\<forall>e \<in> set (eviction_events c). event_ok e)"

text \<open>The readings of the clock never go back.\<close>

fun clock_ok :: "int \<Rightarrow> (metrics_call \<times> rat \<times> int \<times> int) list \<Rightarrow> bool" where
  "clock_ok t [] = True"
| "clock_ok t ((_, _, now, now') # es) = (t \<le> now \<and> now \<le> now' \<and> clock_ok now' es)"

lemma bounded_append_props:
  "length (bounded_append n x xs) \<le> n" "set (bounded_append n x xs) \<subseteq> insert x (set xs)"
  "sorted xs \<Longrightarrow> \<forall>t \<in> set xs. t \<le> x \<Longrightarrow> sorted (bounded_append n x (xs :: int list))"
  by (auto simp: bounded_append_def Let_def sorted_append intro!: sorted_wrt_drop dest!: in_set_dropD)

lemma record_access_ok:
  assumes "state_ok t s" "t \<le> now"
  shows "state_ok now (record_access now s)"
proof -
  have "\<forall>u \<in> set (access_history s). u \<le> now" using assms by (auto simp: state_ok_def)
  then show ?thesis using assms bounded_append_props [where n = 4 and x = now and xs = "access_history s"]
    by (auto simp: state_ok_def record_access_def)
qed

lemma gaps_ok: "state_ok t s \<Longrightarrow> length (get_reuse_gaps_seconds s) \<le> 3 \<and> (\<forall>g \<in> set (get_reuse_gaps_seconds s). 0 \<le> g)"
  by (auto simp: get_reuse_gaps_seconds_def state_ok_def sorted_iff_nth_mono)

lemma apply_call_ok:
  assumes "collector_ok t c" "t \<le> now" "now \<le> now'"
  shows "collector_ok now' (apply_call call (random, now, now') c)"
proof -
  have mono: "state_ok now' s" if "state_ok t s" for s using that assms(2,3) by (auto simp: state_ok_def)
  have c: "collector_ok now' c" using assms(1) mono by (auto simp: collector_ok_def)
  show ?thesis
  proof (cases call)
    case (OnAllocated b)
    have "state_ok now' (new_metrics_state now)" using assms(3) by (simp add: state_ok_def new_metrics_state_def)
    with c OnAllocated show ?thesis by (auto simp: collector_ok_def on_block_allocated_def)
  next
    case (OnAccessed b)
    show ?thesis
    proof (cases "block_metrics c (block_id b)")
      case (Some s)
      then have "state_ok now' (record_access now s)"
        using assms record_access_ok [of t s now] by (auto simp: collector_ok_def state_ok_def)
      with c OnAccessed Some show ?thesis by (auto simp: collector_ok_def on_block_accessed_def)
    qed (use c OnAccessed in \<open>simp add: on_block_accessed_def\<close>)
  next
    case (OnEvicted b)
    show ?thesis
    proof (cases "block_metrics c (block_id b)")
      case (Some s)
      then have s: "state_ok t s" using assms(1) by (auto simp: collector_ok_def)
      have "(0 :: rat) \<le> of_int (now - birth_time_ns s)" "(0 :: rat) \<le> of_int (now' - last_access_ns s)"
        using s assms(2,3) by (auto simp: state_ok_def simp del: of_int_diff)
      with gaps_ok [OF s] c OnEvicted Some show ?thesis
        by (auto simp: collector_ok_def on_block_evicted_def event_ok_def get_lifetime_seconds_def get_idle_time_seconds_def
            simp del: of_int_diff)
    qed (use c OnEvicted in \<open>simp add: on_block_evicted_def\<close>)
  next
    case OnReset
    then show ?thesis by (simp add: collector_ok_def reset_collector_def)
  qed
qed

subsection \<open>Properties\<close>

text \<open>
  C40. Residency metrics are sane. With a clock that does not go back, whatever blocks are sampled and
  in whatever order the pool allocates, accesses and evicts them, every reported lifetime, idle time
  and reuse gap is non-negative, a report has at most three gaps, no state keeps more than four access
  times, and a sampling rate outside \<open>(0, 1]\<close> is refused.
\<close>

theorem residency_metrics_sane:
  assumes "init_collector rate = Inr c" "clock_ok t es"
  shows "0 < rate \<and> rate \<le> 1 \<and> (\<forall>e \<in> set (eviction_events (apply_calls es c)). event_ok e)
    \<and> (\<forall>b s. block_metrics (apply_calls es c) b = Some s \<longrightarrow>
        length (access_history s) \<le> 4 \<and> sorted (access_history s) \<and> birth_time_ns s \<le> last_access_ns s)"
proof -
  have "\<exists>t'. collector_ok t' (apply_calls es c)" if "collector_ok t c" "clock_ok t es" for t c
    using that
  proof (induction es arbitrary: t c)
    case (Cons e es)
    obtain call random now now' where e: "e = (call, random, now, now')" by (cases e)
    with Cons.prems apply_call_ok [of t c now now' call random] Cons.IH [of now' "apply_call call (random, now, now') c"]
    show ?case by simp
  qed auto
  moreover have "collector_ok t c" and r: "0 < rate \<and> rate \<le> 1"
    using assms(1) by (auto simp: init_collector_def collector_ok_def assertE_def split: if_splits)
  ultimately obtain t' where t': "collector_ok t' (apply_calls es c)" using assms(2) by blast
  then have "length (access_history s) \<le> 4 \<and> sorted (access_history s) \<and> birth_time_ns s \<le> last_access_ns s"
    if "block_metrics (apply_calls es c) b = Some s" for b s using that by (simp add: collector_ok_def state_ok_def)
  with t' r show ?thesis by (simp add: collector_ok_def)
qed

theorem residency_metrics_sane_witness:
  "\<exists>c. init_collector (1 / 2) = Inr c \<and> eviction_events (apply_calls [(OnAllocated (Blk 1), 0, 5, 5), (OnEvicted (Blk 1), 0, 7, 8)] c) \<noteq> []
    \<and> (\<forall>e \<in> set (eviction_events (apply_calls [(OnAllocated (Blk 1), 0, 5, 5), (OnEvicted (Blk 1), 0, 7, 8)] c)). event_ok e)"
proof -
  let ?c = "\<lparr>sample_rate = 1 / 2, block_metrics = Map.empty, eviction_events = []\<rparr>"
  let ?es = "[(OnAllocated (Blk 1), 0, 5, 5), (OnEvicted (Blk 1), 0, 7, 8)]"
  have i: "init_collector (1 / 2) = Inr ?c" by (simp add: init_collector_def assertE_def)
  have "eviction_events (apply_calls ?es ?c) \<noteq> []"
    by (simp add: on_block_allocated_def on_block_evicted_def should_sample_block_def)
  with residency_metrics_sane [OF i, of 0 ?es] i show ?thesis by auto
qed

end
