(* ===== verification/Single_Type.thy ===== *)
theory Single_Type
  imports Pool_Run
begin

text \<open>
  The managers of one KV-cache group (\<open>src/vllm/v1/core/single_type_kv_cache_manager.py\<close>): the base
  class \<open>SingleTypeKVCacheManager\<close> and its subclasses for full attention, reference sliding window
  (R-SWA), sliding window, chunked local attention, circular buffers and cross attention. A manager
  keeps the block table of every request and works on the block pool it shares with the other groups,
  so each operation takes and returns both. Mamba, sink and HiSparse managers are not modelled.
\<close>

subsection \<open>State\<close>

text \<open>The spec of the group, with the fields the managers read.\<close>

datatype manager_kind =
    FullAttention
  | RSWA (rswa_window: int)
  | SlidingWindow (sliding_window: int) (extra_retained_tokens: int)
  | ChunkedLocal (attention_chunk_size: int)
  | CircularBuffer
  | CrossAttention

record st_manager =
  kind :: manager_kind
  sm_block_size :: int
  sm_enable_caching :: bool
  kv_cache_group_id :: int
  cache_hit_alignment_tokens :: int
  use_eagle :: bool
  max_admission_blocks :: "int option"
  record_new_block_ids :: bool
  new_block_ids :: "int list"
  req_to_blocks :: "(string \<times> block_ref list) list"
  num_cached_block :: "string \<rightharpoonup> int"
  partial_hit_reqs :: "string \<rightharpoonup> int \<times> block_ref"
  pending_cow_copies :: "(block_ref \<times> block_ref) list"

text \<open>
  \<open>is_zeroed_spec\<close>: the spec is an attention spec whose new blocks the worker zeroes. The decode
  context parallel size scales the block size.
\<close>

definition init_manager ::
  "manager_kind \<Rightarrow> int \<Rightarrow> bool \<Rightarrow> int \<Rightarrow> int \<Rightarrow> int \<Rightarrow> bool \<Rightarrow> bool \<Rightarrow> int option \<Rightarrow> st_manager" where
  "init_manager k block_size caching gid scheduler_block_size dcp_world_size needs_zeroing is_zeroed_spec cap =
     \<lparr>kind = k, sm_block_size = (if dcp_world_size > 1 then block_size * dcp_world_size else block_size),
      sm_enable_caching = caching, kv_cache_group_id = gid, cache_hit_alignment_tokens = scheduler_block_size,
      use_eagle = False, max_admission_blocks = cap, record_new_block_ids = (needs_zeroing \<and> is_zeroed_spec),
      new_block_ids = [], req_to_blocks = [], num_cached_block = Map.empty, partial_hit_reqs = Map.empty,
      pending_cow_copies = []\<rparr>"

text \<open>\<open>req_to_blocks\<close> is a \<open>defaultdict\<close>: reading a missing request inserts an empty list.\<close>

definition req_blocks :: "string \<Rightarrow> st_manager \<Rightarrow> block_ref list" where
  "req_blocks rid m = (case map_of (req_to_blocks m) rid of None \<Rightarrow> [] | Some bs \<Rightarrow> bs)"

definition set_req_blocks :: "string \<Rightarrow> block_ref list \<Rightarrow> st_manager \<Rightarrow> st_manager" where
  "set_req_blocks rid bs m = m\<lparr>req_to_blocks := AList.update rid bs (req_to_blocks m)\<rparr>"

definition touch_req :: "string \<Rightarrow> st_manager \<Rightarrow> st_manager" where
  "touch_req rid m = set_req_blocks rid (req_blocks rid m) m"

subsection \<open>Counting\<close>

fun get_num_skipped_tokens :: "manager_kind \<Rightarrow> int \<Rightarrow> int" where
  "get_num_skipped_tokens (SlidingWindow w e) n = max 0 (n - w + 1 - e)"
| "get_num_skipped_tokens (ChunkedLocal c) n = n div c * c"
| "get_num_skipped_tokens _ n = 0"

definition get_num_evictable_blocks :: "block_ref list \<Rightarrow> block_pool \<Rightarrow> int" where
  "get_num_evictable_blocks bs p = int (length (filter (\<lambda>b. ref_cnt (heap p b) = 0 \<and> \<not> is_null (heap p b)) bs))"

definition has_partial_local_hit :: "st_manager \<Rightarrow> block_ref list \<Rightarrow> int \<Rightarrow> bool" where
  "has_partial_local_hit m new_computed num_local \<longleftrightarrow> length new_computed > 0 \<and> num_local mod sm_block_size m \<noteq> 0"

definition capped_required_blocks :: "st_manager \<Rightarrow> int \<Rightarrow> bool \<Rightarrow> int" where
  "capped_required_blocks m n apply_admission_cap =
     (case max_admission_blocks m of
        None \<Rightarrow> cdiv n (sm_block_size m)
      | Some c \<Rightarrow> if apply_admission_cap then min (cdiv n (sm_block_size m)) c else cdiv n (sm_block_size m))"

definition base_num_blocks_to_allocate ::
  "string \<Rightarrow> int \<Rightarrow> block_ref list \<Rightarrow> int \<Rightarrow> int \<Rightarrow> bool \<Rightarrow> st_manager \<Rightarrow> block_pool \<Rightarrow> int result" where
  "base_num_blocks_to_allocate rid num_toks new_computed total_computed num_local apply_admission_cap m p =
     (let num_required = capped_required_blocks m num_toks apply_admission_cap;
          num_req_blocks = int (length (req_blocks rid m)) in
      if num_cached_block m rid \<noteq> None
      then bindE (assertE (length new_computed = 0)) (\<lambda>_. Inr (max (num_required - num_req_blocks) 0))
      else
        let num_skipped_tokens = get_num_skipped_tokens (kind m) total_computed;
            num_local_computed_blocks = int (length new_computed) + num_req_blocks;
            num_skipped_blocks = num_skipped_tokens div sm_block_size m;
            num_new_blocks = max (num_required - max num_skipped_blocks num_local_computed_blocks) 0;
            num_skipped_new = max 0 (num_skipped_blocks - num_req_blocks);
            num_evictable = get_num_evictable_blocks (drop (nat num_skipped_new) new_computed) p;
            num_new_blocks' = (if has_partial_local_hit m new_computed num_local then num_new_blocks + 1 else num_new_blocks)
        in Inr (num_new_blocks' + num_evictable))"

definition get_num_blocks_to_allocate ::
  "string \<Rightarrow> int \<Rightarrow> block_ref list \<Rightarrow> int \<Rightarrow> int \<Rightarrow> bool \<Rightarrow> st_manager \<Rightarrow> block_pool \<Rightarrow> int result" where
  "get_num_blocks_to_allocate rid num_toks new_computed total_computed num_local apply_admission_cap m p =
     (if kind m = CircularBuffer then Inr (if req_blocks rid m \<noteq> [] then 0 else 1)
      else base_num_blocks_to_allocate rid num_toks new_computed total_computed num_local apply_admission_cap m p)"

subsection \<open>Allocation\<close>

definition record_new_ids :: "block_ref list \<Rightarrow> st_manager \<Rightarrow> st_manager" where
  "record_new_ids bs m =
     (if record_new_block_ids m then m\<lparr>new_block_ids := new_block_ids m @ map block_id bs\<rparr> else m)"

definition base_add_local_computed_blocks ::
  "string \<Rightarrow> block_ref list \<Rightarrow> int \<Rightarrow> int \<Rightarrow> st_manager \<Rightarrow> block_pool \<Rightarrow> (st_manager \<times> block_pool) result" where
  "base_add_local_computed_blocks rid new_computed num_local num_external m p =
     bindE (assertE (length (req_blocks rid m) = 0)) (\<lambda>_.
       let num_skipped_tokens = get_num_skipped_tokens (kind m) (num_local + num_external);
           num_skipped_blocks = num_skipped_tokens div sm_block_size m;
           computed = (if num_skipped_blocks > 0 then drop (nat num_skipped_blocks) new_computed else new_computed) in
       bindE (if sm_enable_caching m then touch computed p
              else bindE (assertE (computed = [])) (\<lambda>_. Inr p)) (\<lambda>p1.
         let blocks = replicate (nat num_skipped_blocks) null_block @ computed;
             m1 = (set_req_blocks rid blocks m)\<lparr>num_cached_block := (num_cached_block m)(rid \<mapsto> int (length blocks))\<rparr> in
         if has_partial_local_hit m computed num_local
         then let block_idx = num_local div sm_block_size m in
           Inr (m1\<lparr>partial_hit_reqs := (partial_hit_reqs m1)(rid \<mapsto> (block_idx, last computed)),
                   num_cached_block := (num_cached_block m1)(rid \<mapsto> block_idx)\<rparr>, p1)
         else Inr (m1, p1)))"

definition add_local_computed_blocks ::
  "string \<Rightarrow> block_ref list \<Rightarrow> int \<Rightarrow> int \<Rightarrow> st_manager \<Rightarrow> block_pool \<Rightarrow> (st_manager \<times> block_pool) result" where
  "add_local_computed_blocks rid new_computed num_local num_external m p =
     (case kind m of
        CircularBuffer \<Rightarrow> Inr (m, p)
      | CrossAttention \<Rightarrow> bindE (assertE (length new_computed = 0)) (\<lambda>_. Inr (m, p))
      | _ \<Rightarrow> base_add_local_computed_blocks rid new_computed num_local num_external m p)"

definition claim_ring_block :: "string \<Rightarrow> st_manager \<Rightarrow> block_pool \<Rightarrow> (block_ref list \<times> st_manager \<times> block_pool) result" where
  "claim_ring_block rid m p =
     (if req_blocks rid m \<noteq> [] then Inr ([], touch_req rid m, p)
      else bindE (get_new_blocks 1 p) (\<lambda>(new_blocks, p1).
        Inr (new_blocks, record_new_ids new_blocks (set_req_blocks rid (req_blocks rid m @ new_blocks) m), p1)))"

definition base_allocate_external_computed_blocks ::
  "string \<Rightarrow> int \<Rightarrow> int \<Rightarrow> st_manager \<Rightarrow> block_pool \<Rightarrow> (st_manager \<times> block_pool) result" where
  "base_allocate_external_computed_blocks rid num_local num_external m p =
     (let num_total = num_local + num_external;
          num_skipped_tokens = get_num_skipped_tokens (kind m) num_total;
          num_external' = (if num_skipped_tokens > 0 then min (num_total - num_skipped_tokens) num_external else num_external) in
      if num_external' \<le> 0 then Inr (m, p)
      else
        let num_new_blocks = max 0 (cdiv num_total (sm_block_size m) - int (length (req_blocks rid m))) in
        bindE (get_new_blocks num_new_blocks p) (\<lambda>(allocated, p1).
          Inr (record_new_ids allocated (set_req_blocks rid (req_blocks rid m @ allocated) m), p1)))"

definition allocate_external_computed_blocks ::
  "string \<Rightarrow> int \<Rightarrow> int \<Rightarrow> st_manager \<Rightarrow> block_pool \<Rightarrow> (st_manager \<times> block_pool) result" where
  "allocate_external_computed_blocks rid num_local num_external m p =
     (case kind m of
        CircularBuffer \<Rightarrow> bindE (claim_ring_block rid m p) (\<lambda>(_, mp). Inr mp)
      | CrossAttention \<Rightarrow> Inr (m, p)
      | _ \<Rightarrow> base_allocate_external_computed_blocks rid num_local num_external m p)"

definition apply_cow ::
  "string \<Rightarrow> int \<Rightarrow> block_ref \<Rightarrow> block_ref \<Rightarrow> st_manager \<Rightarrow> block_pool \<Rightarrow> (st_manager \<times> block_pool) result" where
  "apply_cow rid block_idx source_block cow_block m p =
     (let blocks = req_blocks rid m in
      bindE (assertE (block_idx < int (length blocks))) (\<lambda>_.
      bindE (py_index blocks block_idx) (\<lambda>b.
      bindE (assertE (b = source_block)) (\<lambda>_.
      bindE (assertE (\<not> is_null (heap p source_block) \<and> ref_cnt (heap p source_block) > 0)) (\<lambda>_.
        Inr ((set_req_blocks rid (blocks[nat (if block_idx < 0 then int (length blocks) + block_idx else block_idx) := cow_block]) m)
               \<lparr>pending_cow_copies := pending_cow_copies m @ [(source_block, cow_block)]\<rparr>,
             add_ref 1 cow_block p))))))"

definition redirect_partial_hit ::
  "string \<Rightarrow> st_manager \<Rightarrow> block_pool \<Rightarrow> (block_ref list \<times> st_manager \<times> block_pool) result" where
  "redirect_partial_hit rid m p =
     (case partial_hit_reqs m rid of
        None \<Rightarrow> Inr ([], m, p)
      | Some (block_idx, source_block) \<Rightarrow>
          bindE (get_new_blocks 1 p) (\<lambda>(new_blocks, p1).
          bindE (py_index new_blocks 0) (\<lambda>cow_block.
          bindE (apply_cow rid block_idx source_block cow_block
                   (m\<lparr>partial_hit_reqs := (partial_hit_reqs m)(rid := None)\<rparr>) p1) (\<lambda>(m2, p2).
            Inr ([cow_block], m2\<lparr>new_block_ids := new_block_ids m2 @ [block_id cow_block]\<rparr>, p2)))))"

definition base_allocate_new_blocks ::
  "string \<Rightarrow> int \<Rightarrow> st_manager \<Rightarrow> block_pool \<Rightarrow> (block_ref list \<times> st_manager \<times> block_pool) result" where
  "base_allocate_new_blocks rid num_toks m p =
     bindE (redirect_partial_hit rid m p) (\<lambda>(cow_blocks, m1, p1).
       let num_new_blocks = cdiv num_toks (sm_block_size m1) - int (length (req_blocks rid m1)) in
       if num_new_blocks \<le> 0 then Inr (cow_blocks, touch_req rid m1, p1)
       else bindE (get_new_blocks num_new_blocks p1) (\<lambda>(new_blocks, p2).
         Inr (cow_blocks @ new_blocks,
              record_new_ids new_blocks (set_req_blocks rid (req_blocks rid m1 @ new_blocks) m1), p2)))"

definition allocate_new_blocks ::
  "string \<Rightarrow> int \<Rightarrow> st_manager \<Rightarrow> block_pool \<Rightarrow> (block_ref list \<times> st_manager \<times> block_pool) result" where
  "allocate_new_blocks rid num_toks m p =
     (if kind m = CircularBuffer then claim_ring_block rid m p else base_allocate_new_blocks rid num_toks m p)"

definition take_new_block_ids :: "st_manager \<Rightarrow> int list \<times> st_manager" where
  "take_new_block_ids m = (new_block_ids m, m\<lparr>new_block_ids := []\<rparr>)"

definition take_pending_cow_copies :: "st_manager \<Rightarrow> (block_ref \<times> block_ref) list \<times> st_manager" where
  "take_pending_cow_copies m = (pending_cow_copies m, m\<lparr>pending_cow_copies := []\<rparr>)"

subsection \<open>Caching full blocks\<close>

definition contiguous_blocks_for_hit :: "int \<Rightarrow> int \<Rightarrow> bool \<Rightarrow> int" where
  "contiguous_blocks_for_hit window_size block_size eagle =
     (let blocks = cdiv (window_size - 1) block_size in if eagle then blocks + 1 else blocks)"

text \<open>\<open>mask[lo - start], ..., mask[hi - 1 - start] = True\<close>.\<close>

definition set_range :: "int \<Rightarrow> int \<Rightarrow> int \<Rightarrow> bool list \<Rightarrow> bool list" where
  "set_range start lo hi bmask = fold (\<lambda>i mk. mk[nat (i - start) := True]) [lo..hi - 1] bmask"

definition segment_mask :: "int \<Rightarrow> int \<Rightarrow> int \<Rightarrow> int \<Rightarrow> int \<Rightarrow> bool list \<Rightarrow> bool list" where
  "segment_mask start_block end_block shift per_segment need bmask =
     fold (\<lambda>i mk. if i \<ge> shift \<and> (i - shift) mod per_segment \<ge> per_segment - need
                   then mk[nat (i - start_block) := True] else mk) [start_block..end_block - 1] bmask"

definition final_segment_mask :: "int \<Rightarrow> int \<Rightarrow> int \<Rightarrow> int \<Rightarrow> int \<Rightarrow> bool list \<Rightarrow> bool list" where
  "final_segment_mask start_block end_block per_segment need final_end bmask =
     (let final_segment_size = final_end mod per_segment in
      if final_segment_size \<noteq> 0
      then let final_segment_start = final_end - final_segment_size;
               final_tail_start = max final_segment_start (final_end - need);
               final_tail_end = min end_block final_end
           in set_range start_block (max start_block final_tail_start) final_tail_end bmask
      else bmask)"

definition boundary_masks :: "int \<Rightarrow> int \<Rightarrow> int \<Rightarrow> int \<Rightarrow> int \<Rightarrow> int \<Rightarrow> int list \<Rightarrow> bool list \<Rightarrow> bool list" where
  "boundary_masks start_block end_block alignment block_size shift need boundaries bmask =
     fold (\<lambda>b mk. let aligned = b div alignment * alignment; e = aligned div block_size + shift
                   in set_range start_block (max start_block (e - need)) (min end_block e) mk) boundaries bmask"

definition swa_reachable_block_mask ::
  "int \<Rightarrow> int \<Rightarrow> int option \<Rightarrow> int \<Rightarrow> int \<Rightarrow> bool \<Rightarrow> int option \<Rightarrow> int list \<Rightarrow> int option \<Rightarrow> bool list option" where
  "swa_reachable_block_mask start_block end_block alignment_tokens block_size window eagle retention boundaries final_end =
     (case alignment_tokens of
        None \<Rightarrow> None
      | Some alignment \<Rightarrow>
          if alignment mod block_size \<noteq> 0 then None
          else
            let need = contiguous_blocks_for_hit window block_size eagle;
                shift = (if eagle then 1 else 0);
                bmask = replicate (nat (end_block - start_block)) False;
                segment_tokens = (case retention of None \<Rightarrow> Some alignment | Some r \<Rightarrow> if r = 0 then None else Some r);
                dense = (case segment_tokens of None \<Rightarrow> False | Some st \<Rightarrow> need \<ge> st div block_size)
            in if dense then None
               else
                 let bmask1 = (case segment_tokens of
                       None \<Rightarrow> bmask
                     | Some st \<Rightarrow>
                         let per_segment = st div block_size;
                             mk = segment_mask start_block end_block shift per_segment need bmask
                         in case final_end of
                              None \<Rightarrow> mk
                            | Some fe \<Rightarrow> if eagle then mk
                                else final_segment_mask start_block end_block per_segment need fe mk)
                 in Some (if retention = None then bmask1
                          else boundary_masks start_block end_block alignment block_size shift need boundaries bmask1))"

text \<open>The block size of the mask is that of the manager: the spec's, scaled by the parallel size.\<close>

definition reachable_block_mask :: "st_manager \<Rightarrow> int \<Rightarrow> int \<Rightarrow> int option \<Rightarrow> int list \<Rightarrow> bool list option" where
  "reachable_block_mask m start_block end_block retention boundaries =
     (case kind m of
        SlidingWindow w e \<Rightarrow>
          swa_reachable_block_mask start_block end_block (Some (cache_hit_alignment_tokens m)) (sm_block_size m) w
            (use_eagle m) retention boundaries None
      | _ \<Rightarrow> None)"

definition base_cache_blocks ::
  "embeds_digest \<Rightarrow> request \<Rightarrow> int \<Rightarrow> int option \<Rightarrow> int list \<Rightarrow> st_manager \<Rightarrow> block_pool
     \<Rightarrow> (request \<times> st_manager \<times> block_pool) result" where
  "base_cache_blocks dig r num_toks retention replay_boundaries m p =
     (let rid = request_id r;
          num_cached_blocks = (case num_cached_block m rid of None \<Rightarrow> 0 | Some n \<Rightarrow> n);
          num_full_blocks = num_toks div sm_block_size m in
      if num_cached_blocks \<ge> num_full_blocks then Inr (r, m, p)
      else
        let boundaries = replay_boundaries @ (if shared_prefix_boundary r \<noteq> 0 then [shared_prefix_boundary r] else []);
            block_mask = reachable_block_mask m num_cached_blocks num_full_blocks retention boundaries in
        bindE (cache_full_blocks dig r (req_blocks rid m) num_cached_blocks num_full_blocks (sm_block_size m)
                 (kv_cache_group_id m) block_mask p) (\<lambda>(r', p').
          Inr (r', (touch_req rid m)\<lparr>num_cached_block := (num_cached_block m)(rid \<mapsto> num_full_blocks)\<rparr>, p')))"

definition cache_partial_tail_block ::
  "embeds_digest \<Rightarrow> request \<Rightarrow> int \<Rightarrow> st_manager \<Rightarrow> block_pool \<Rightarrow> (request \<times> st_manager \<times> block_pool) result" where
  "cache_partial_tail_block dig r num_toks m p =
     (let boundary_tokens = num_prompt_tokens r div hash_block_size p * hash_block_size p in
      if boundary_tokens = 0 \<or> boundary_tokens > num_toks then Inr (r, m, p)
      else if boundary_tokens mod sm_block_size m = 0 then Inr (r, m, p)
      else
        let blocks = req_blocks (request_id r) m; block_idx = boundary_tokens div sm_block_size m in
        if block_idx \<ge> int (length blocks) then Inr (r, touch_req (request_id r) m, p)
        else bindE (py_index blocks block_idx) (\<lambda>b.
          bindE (cache_partial_block dig r b boundary_tokens (kv_cache_group_id m) (sm_block_size m) False p) (\<lambda>(_, r', p').
            Inr (r', touch_req (request_id r) m, p'))))"

definition full_cache_blocks ::
  "embeds_digest \<Rightarrow> request \<Rightarrow> int \<Rightarrow> int option \<Rightarrow> int list \<Rightarrow> st_manager \<Rightarrow> block_pool
     \<Rightarrow> (request \<times> st_manager \<times> block_pool) result" where
  "full_cache_blocks dig r num_toks retention replay_boundaries m p =
     bindE (base_cache_blocks dig r num_toks retention replay_boundaries m p) (\<lambda>(r1, m1, p1).
       if sm_block_size m1 = hash_block_size p1 then Inr (r1, m1, p1)
       else cache_partial_tail_block dig r1 num_toks m1 p1)"

definition mgr_cache_blocks ::
  "embeds_digest \<Rightarrow> request \<Rightarrow> int \<Rightarrow> int option \<Rightarrow> int list \<Rightarrow> st_manager \<Rightarrow> block_pool
     \<Rightarrow> (request \<times> st_manager \<times> block_pool) result" where
  "mgr_cache_blocks dig r num_toks retention replay_boundaries m p =
     (case kind m of
        FullAttention \<Rightarrow> full_cache_blocks dig r num_toks retention replay_boundaries m p
      | RSWA w \<Rightarrow> full_cache_blocks dig r num_toks retention replay_boundaries m p
      | CircularBuffer \<Rightarrow> Inr (r, m, p)
      | CrossAttention \<Rightarrow> Inl ValueError
      | _ \<Rightarrow> base_cache_blocks dig r num_toks retention replay_boundaries m p)"

subsection \<open>Release\<close>

definition pop_blocks_for_free :: "string \<Rightarrow> st_manager \<Rightarrow> block_ref list \<times> st_manager" where
  "pop_blocks_for_free rid m =
     (req_blocks rid m,
      m\<lparr>req_to_blocks := AList.delete rid (req_to_blocks m), num_cached_block := (num_cached_block m)(rid := None),
        partial_hit_reqs := (partial_hit_reqs m)(rid := None)\<rparr>)"

definition mgr_free :: "string \<Rightarrow> st_manager \<Rightarrow> block_pool \<Rightarrow> (st_manager \<times> block_pool) result" where
  "mgr_free rid m p =
     (let (blocks, m') = pop_blocks_for_free rid m in bindE (free_blocks (rev blocks) p) (\<lambda>p'. Inr (m', p')))"

text \<open>The backward loop of \<open>_remove_blocks_in_range\<close>: the blocks taken out and the table left.\<close>

function remove_loop :: "int \<Rightarrow> int \<Rightarrow> block_ref list \<Rightarrow> block_ref list \<Rightarrow> block_ref list \<times> block_ref list" where
  "remove_loop first_block i blocks freed' =
     (if i < first_block then (freed', blocks)
      else if blocks ! nat i = null_block then (freed', blocks)
      else remove_loop first_block (i - 1) (blocks[nat i := null_block]) (freed' @ [blocks ! nat i]))"
  by pat_completeness auto

termination
  by (relation "measure (\<lambda>(f, i, bs, fr). nat (i + 1 - f))") auto

declare remove_loop.simps [simp del]

definition remove_blocks_in_range ::
  "string \<Rightarrow> int \<Rightarrow> int \<Rightarrow> st_manager \<Rightarrow> block_pool \<Rightarrow> (st_manager \<times> block_pool) result" where
  "remove_blocks_in_range rid first_block last_block m p =
     (if map_of (req_to_blocks m) rid = None then Inr (m, p)
      else if first_block \<ge> last_block then Inr (m, p)
      else
        let blocks = req_blocks rid m; last_block' = min last_block (int (length blocks));
            (freed', blocks') = remove_loop first_block (last_block' - 1) blocks []; m' = set_req_blocks rid blocks' m in
        if freed' = [] then Inr (m', p)
        else bindE (free_blocks freed' p) (\<lambda>p'. Inr (m', p')))"

definition base_remove_skipped_blocks :: "string \<Rightarrow> int \<Rightarrow> st_manager \<Rightarrow> block_pool \<Rightarrow> (st_manager \<times> block_pool) result" where
  "base_remove_skipped_blocks rid processed m p =
     (let num_skipped_tokens = get_num_skipped_tokens (kind m) processed in
      if num_skipped_tokens \<le> 0 then Inr (m, p)
      else
        let m1 = touch_req rid m;
            num_skipped_blocks = min (num_skipped_tokens div sm_block_size m) (int (length (req_blocks rid m)))
        in remove_blocks_in_range rid 0 num_skipped_blocks m1 p)"

definition rswa_remove_skipped_blocks ::
  "string \<Rightarrow> int \<Rightarrow> int \<Rightarrow> int \<Rightarrow> st_manager \<Rightarrow> block_pool \<Rightarrow> (st_manager \<times> block_pool) result" where
  "rswa_remove_skipped_blocks rid processed prompt_tokens w m p =
     (let bs = sm_block_size m;
          first_gap_block = cdiv prompt_tokens bs;
          window_start = max prompt_tokens (processed - w);
          last_gap_block = window_start div bs
      in remove_blocks_in_range rid first_gap_block last_gap_block m p)"

definition remove_skipped_blocks ::
  "string \<Rightarrow> int \<Rightarrow> int option \<Rightarrow> st_manager \<Rightarrow> block_pool \<Rightarrow> (st_manager \<times> block_pool) result" where
  "remove_skipped_blocks rid processed prompt_tokens m p =
     (case kind m of
        CircularBuffer \<Rightarrow> Inr (m, p)
      | RSWA w \<Rightarrow>
          (case prompt_tokens of
             None \<Rightarrow> base_remove_skipped_blocks rid processed m p
           | Some n \<Rightarrow> rswa_remove_skipped_blocks rid processed n w m p)
      | _ \<Rightarrow> base_remove_skipped_blocks rid processed m p)"

definition full_num_common_prefix_blocks :: "string \<Rightarrow> st_manager \<Rightarrow> block_pool \<Rightarrow> int \<times> st_manager" where
  "full_num_common_prefix_blocks rid m p =
     (let m1 = touch_req rid m in
      (int (length (takeWhile (\<lambda>b. ref_cnt (heap p b) = int (length (req_to_blocks m1))) (req_blocks rid m1))), m1))"

definition get_num_common_prefix_blocks :: "string \<Rightarrow> st_manager \<Rightarrow> block_pool \<Rightarrow> int \<times> st_manager" where
  "get_num_common_prefix_blocks rid m p =
     (case kind m of
        FullAttention \<Rightarrow> full_num_common_prefix_blocks rid m p
      | RSWA w \<Rightarrow> full_num_common_prefix_blocks rid m p
      | _ \<Rightarrow> (0, m))"

subsection \<open>The manager of a spec\<close>

text \<open>
  The admission cap of the specs that recycle blocks (\<open>src/vllm/v1/kv_cache_interface.py\<close>), from the block
  size of the spec, the tokens that may be in flight and the model length.
\<close>

fun max_admission_blocks_per_request :: "manager_kind \<Rightarrow> int \<Rightarrow> int \<Rightarrow> int \<Rightarrow> int option" where
  "max_admission_blocks_per_request (SlidingWindow w e) bs max_in_flight max_model_len =
     Some (cdiv (min (w - 1 + e + max_in_flight) max_model_len) bs + 1)"
| "max_admission_blocks_per_request (ChunkedLocal c) bs max_in_flight max_model_len =
     Some (cdiv (min (c + max_in_flight) max_model_len) bs)"
| "max_admission_blocks_per_request _ bs max_in_flight max_model_len = None"

definition get_manager_for_kv_cache_spec ::
  "manager_kind \<Rightarrow> int \<Rightarrow> int \<Rightarrow> int \<Rightarrow> bool \<Rightarrow> int \<Rightarrow> int \<Rightarrow> int \<Rightarrow> bool \<Rightarrow> st_manager" where
  "get_manager_for_kv_cache_spec k bs max_in_flight max_model_len caching gid scheduler_block_size dcp_world_size needs_zeroing =
     init_manager k bs caching gid scheduler_block_size dcp_world_size needs_zeroing (k \<noteq> CircularBuffer)
       (max_admission_blocks_per_request k bs max_in_flight max_model_len)"

end
