(* ===== verification/Single_Type_Inv.thy ===== *)
theory Single_Type_Inv
  imports Single_Type
begin

text \<open>
  Who holds which block. The references of a manager are the entries of its block tables and both ends
  of the copies it has not handed out yet. The invariant says that the count of a pool block is the
  number of these references plus those held elsewhere (\<open>ext\<close>: other groups, copies in flight); every
  operation of the manager keeps it for every \<open>ext\<close>.
\<close>

subsection \<open>References of a manager\<close>

definition owned :: "st_manager \<Rightarrow> block_ref list" where
  "owned m = concat (map snd (req_to_blocks m)) @ concat (map (\<lambda>(s, c). [s, c]) (pending_cow_copies m))"

definition own_count :: "st_manager \<Rightarrow> block_ref \<Rightarrow> int" where
  "own_count m b = int (count_list (owned m) b)"

definition tables_ok :: "st_manager \<Rightarrow> block_pool \<Rightarrow> bool" where
  "tables_ok m p \<longleftrightarrow> distinct (map fst (req_to_blocks m)) \<and> 0 < sm_block_size m
     \<and> (\<forall>b \<in> set (owned m). b = null_block \<or> in_pool p b)
     \<and> (\<forall>rid i s. partial_hit_reqs m rid = Some (i, s) \<longrightarrow>
          0 \<le> i \<and> i < int (length (req_blocks rid m)) \<and> req_blocks rid m ! nat i = s \<and> s \<noteq> null_block)"

definition st_inv :: "(block_ref \<Rightarrow> int) \<Rightarrow> st_manager \<Rightarrow> block_pool \<Rightarrow> block_ref list \<Rightarrow> bool" where
  "st_inv ext m p xs \<longleftrightarrow> pool_wf p xs \<and> tables_ok m p \<and> (\<forall>b. 0 \<le> ext b)
     \<and> (\<forall>b. in_pool p b \<longrightarrow> ref_cnt (heap p b) = own_count m b + ext b)"

lemma st_invD:
  assumes "st_inv ext m p xs"
  shows "pool_wf p xs" "tables_ok m p" "\<And>b. 0 \<le> ext b" "\<And>b. in_pool p b \<Longrightarrow> ref_cnt (heap p b) = own_count m b + ext b"
    "distinct (map fst (req_to_blocks m))" "0 < sm_block_size m" "\<And>b. b \<in> set (owned m) \<Longrightarrow> b = null_block \<or> in_pool p b"
    "\<And>rid i s. partial_hit_reqs m rid = Some (i, s) \<Longrightarrow>
       0 \<le> i \<and> i < int (length (req_blocks rid m)) \<and> req_blocks rid m ! nat i = s \<and> s \<noteq> null_block"
  using assms by (auto simp: st_inv_def tables_ok_def)

lemma count_concat_update:
  "distinct (map fst al) \<Longrightarrow>
    int (count_list (concat (map snd (AList.update k v al))) b)
      = int (count_list (concat (map snd al)) b) - int (count_list (case map_of al k of None \<Rightarrow> [] | Some bs \<Rightarrow> bs) b) + int (count_list v b)"
proof (induction al)
  case (Cons e al)
  obtain k' v' where e: "e = (k', v')" by (cases e)
  show ?case
  proof (cases "k' = k")
    case True
    then have "map_of al k = None" using Cons.prems e by (simp add: map_of_eq_None_iff)
    with True e show ?thesis by simp
  next
    case False
    with Cons e show ?thesis by simp
  qed
qed simp

lemma count_concat_delete:
  "distinct (map fst al) \<Longrightarrow>
    int (count_list (concat (map snd (AList.delete k al))) b)
      = int (count_list (concat (map snd al)) b) - int (count_list (case map_of al k of None \<Rightarrow> [] | Some bs \<Rightarrow> bs) b)"
proof (induction al)
  case (Cons e al)
  obtain k' v' where e: "e = (k', v')" by (cases e)
  show ?case
  proof (cases "k' = k")
    case True
    then have n: "map_of al k = None" using Cons.prems e by (simp add: map_of_eq_None_iff)
    then have "AList.delete k al = al" by (simp add: delete_id map_of_eq_None_iff)
    with True e n show ?thesis by simp
  next
    case False
    with Cons e show ?thesis by simp
  qed
qed simp

lemma set_req_blocks_frame [simp]:
  "kind (set_req_blocks rid bs m) = kind m" "sm_block_size (set_req_blocks rid bs m) = sm_block_size m"
  "sm_enable_caching (set_req_blocks rid bs m) = sm_enable_caching m"
  "num_cached_block (set_req_blocks rid bs m) = num_cached_block m" "partial_hit_reqs (set_req_blocks rid bs m) = partial_hit_reqs m"
  "pending_cow_copies (set_req_blocks rid bs m) = pending_cow_copies m" "kv_cache_group_id (set_req_blocks rid bs m) = kv_cache_group_id m"
  "record_new_block_ids (set_req_blocks rid bs m) = record_new_block_ids m" "new_block_ids (set_req_blocks rid bs m) = new_block_ids m"
  "max_admission_blocks (set_req_blocks rid bs m) = max_admission_blocks m"
  by (simp_all add: set_req_blocks_def)

lemma req_blocks_set [simp]: "req_blocks rid' (set_req_blocks rid bs m) = (if rid' = rid then bs else req_blocks rid' m)"
  by (simp add: req_blocks_def set_req_blocks_def update_conv')

lemma owned_set_count:
  assumes "distinct (map fst (req_to_blocks m))"
  shows "own_count (set_req_blocks rid bs m) b = own_count m b - int (count_list (req_blocks rid m) b) + int (count_list bs b)"
  using count_concat_update [OF assms, of rid bs b]
  by (simp add: own_count_def owned_def set_req_blocks_def req_blocks_def)

lemma owned_frame:
  assumes "req_to_blocks m' = req_to_blocks m" "pending_cow_copies m' = pending_cow_copies m"
  shows "owned m' = owned m" "own_count m' = own_count m" "req_blocks rid m' = req_blocks rid m"
  using assms by (simp_all add: owned_def own_count_def fun_eq_iff req_blocks_def)

lemma req_blocks_owned: "set (req_blocks rid m) \<subseteq> set (owned m)"
proof (cases "map_of (req_to_blocks m) rid")
  case (Some bs)
  then have "(rid, bs) \<in> set (req_to_blocks m)" by (rule map_of_SomeD)
  with Some show ?thesis by (force simp: req_blocks_def owned_def)
qed (simp add: req_blocks_def)

lemma set_owned_set: "set (owned (set_req_blocks rid bs m)) \<subseteq> set (owned m) \<union> set bs"
proof -
  have "set (concat (map snd (AList.update rid bs al))) \<subseteq> set (concat (map snd al)) \<union> set bs" for al :: "(string \<times> block_ref list) list"
    by (induction al) auto
  then show ?thesis by (auto simp: owned_def set_req_blocks_def)
qed

lemma count_req_le_own:
  assumes "distinct (map fst (req_to_blocks m))"
  shows "int (count_list (req_blocks rid m) b) \<le> own_count m b"
  using owned_set_count [OF assms, of rid "[]" b] by (simp add: own_count_def)

subsection \<open>Changing one table\<close>

text \<open>
  The step all operations share: the table of a request changes and the counts of the pool follow.
\<close>

lemma st_inv_change_table:
  assumes inv: "st_inv ext m p xs" and wf: "pool_wf q ys" "config q = config p"
    and bs: "\<forall>b \<in> set bs. b = null_block \<or> in_pool p b"
    and refs: "\<And>b. in_pool p b \<Longrightarrow> ref_cnt (heap q b) = ref_cnt (heap p b) - int (count_list (req_blocks rid m) b) + int (count_list bs b)"
    and m': "req_to_blocks m' = req_to_blocks (set_req_blocks rid bs m)" "pending_cow_copies m' = pending_cow_copies m"
      "sm_block_size m' = sm_block_size m"
    and part: "\<And>rid' i s. partial_hit_reqs m' rid' = Some (i, s) \<Longrightarrow>
      0 \<le> i \<and> i < int (length (req_blocks rid' (set_req_blocks rid bs m))) \<and> req_blocks rid' (set_req_blocks rid bs m) ! nat i = s \<and> s \<noteq> null_block"
  shows "st_inv ext m' q ys"
proof -
  note d = st_invD [OF inv]
  have ip: "in_pool q = in_pool p" using config_in_pool [OF wf(2)] .
  have o: "owned m' = owned (set_req_blocks rid bs m)" "own_count m' = own_count (set_req_blocks rid bs m)"
    using owned_frame [of m' "set_req_blocks rid bs m"] m' by simp_all
  have rb: "req_blocks rid' m' = req_blocks rid' (set_req_blocks rid bs m)" for rid'
    using m'(1) by (simp add: req_blocks_def)
  have "distinct (map fst (req_to_blocks m'))" unfolding m'(1) using d(5) by (simp add: set_req_blocks_def distinct_update)
  moreover have "\<forall>b \<in> set (owned m'). b = null_block \<or> in_pool q b"
    using set_owned_set [of rid bs m] d(7) bs by (auto simp: o ip)
  ultimately have "tables_ok m' q" using d(6) m'(3) part by (simp add: tables_ok_def rb)
  moreover have "ref_cnt (heap q b) = own_count m' b + ext b" if "in_pool q b" for b
    using refs [of b] that d(4) [of b] owned_set_count [OF d(5), of rid bs b] by (simp add: o ip)
  ultimately show ?thesis using wf(1) d(3) by (simp add: st_inv_def)
qed

lemma part_append:
  assumes "st_inv ext m p xs" "partial_hit_reqs m rid' = Some (i, s)"
  shows "0 \<le> i \<and> i < int (length (req_blocks rid' (set_req_blocks rid (req_blocks rid m @ bs) m)))
    \<and> req_blocks rid' (set_req_blocks rid (req_blocks rid m @ bs) m) ! nat i = s \<and> s \<noteq> null_block"
  using st_invD(8) [OF assms] by (auto simp: nth_append nat_less_iff)

lemma touch_req_inv:
  assumes "st_inv ext m p xs"
  shows "st_inv ext (touch_req rid m) p xs"
  unfolding touch_req_def
proof (rule st_inv_change_table [OF assms st_invD(1) [OF assms] refl, where bs = "req_blocks rid m" and rid = rid])
  show "\<forall>b \<in> set (req_blocks rid m). b = null_block \<or> in_pool p b"
    using st_invD(7) [OF assms] req_blocks_owned by blast
  show "0 \<le> i \<and> i < int (length (req_blocks rid' (set_req_blocks rid (req_blocks rid m) m)))
      \<and> req_blocks rid' (set_req_blocks rid (req_blocks rid m) m) ! nat i = s \<and> s \<noteq> null_block"
    if "partial_hit_reqs (set_req_blocks rid (req_blocks rid m) m) rid' = Some (i, s)" for rid' i s
    using part_append [OF assms, of rid' i s rid "[]"] that by simp
qed simp_all

lemma record_new_ids_frame [simp]:
  "req_to_blocks (record_new_ids bs m) = req_to_blocks m" "pending_cow_copies (record_new_ids bs m) = pending_cow_copies m"
  "partial_hit_reqs (record_new_ids bs m) = partial_hit_reqs m" "sm_block_size (record_new_ids bs m) = sm_block_size m"
  "num_cached_block (record_new_ids bs m) = num_cached_block m" "kind (record_new_ids bs m) = kind m"
  "req_blocks rid (record_new_ids bs m) = req_blocks rid m"
  by (simp_all add: record_new_ids_def req_blocks_def)

subsection \<open>Growing a table\<close>

lemma grow_table:
  assumes inv: "st_inv ext m p xs" and n: "0 \<le> n" "n \<le> int (length xs)"
    and m': "req_to_blocks m' = req_to_blocks (set_req_blocks rid (req_blocks rid m @ take (nat n) xs) m)"
      "pending_cow_copies m' = pending_cow_copies m" "sm_block_size m' = sm_block_size m" "partial_hit_reqs m' = partial_hit_reqs m"
  shows "\<exists>q. get_new_blocks n p = Inr (take (nat n) xs, q) \<and> st_inv ext m' q (drop (nat n) xs) \<and> config q = config p"
proof -
  note d = st_invD [OF inv]
  obtain q where q: "get_new_blocks n p = Inr (take (nat n) xs, q)" "pool_wf q (drop (nat n) xs)" "config q = config p"
      "\<forall>c. ref_cnt (heap q c) = ref_cnt (heap p c) + (if c \<in> set (take (nat n) xs) then 1 else 0)"
    using get_new_blocks_spec [OF d(1) n(1)] n(2) by auto
  note w = pool_wfD [OF d(1)]
  have new: "\<forall>b \<in> set (take (nat n) xs). in_pool p b" using w(5) by (auto dest: in_set_takeD)
  have "st_inv ext m' q (drop (nat n) xs)"
  proof (rule st_inv_change_table [OF inv q(2,3) _ _ m'(1-3)])
    show "\<forall>b \<in> set (req_blocks rid m @ take (nat n) xs). b = null_block \<or> in_pool p b"
      using d(7) req_blocks_owned [of rid m] new by auto
    show "ref_cnt (heap q b) = ref_cnt (heap p b) - int (count_list (req_blocks rid m) b) + int (count_list (req_blocks rid m @ take (nat n) xs) b)"
      for b using q(4) distinct_count_list [of "take (nat n) xs" b] w(2) by simp
    fix rid' i s
    assume "partial_hit_reqs m' rid' = Some (i, s)"
    then show "0 \<le> i \<and> i < int (length (req_blocks rid' (set_req_blocks rid (req_blocks rid m @ take (nat n) xs) m)))
      \<and> req_blocks rid' (set_req_blocks rid (req_blocks rid m @ take (nat n) xs) m) ! nat i = s \<and> s \<noteq> null_block"
      using part_append [OF inv] m'(4) by simp
  qed
  with q show ?thesis by blast
qed

lemma claim_ring_block_spec:
  assumes inv: "st_inv ext m p xs" and "req_blocks rid m \<noteq> [] \<or> xs \<noteq> []"
  shows "\<exists>bs m' q ys. claim_ring_block rid m p = Inr (bs, m', q) \<and> st_inv ext m' q ys \<and> config q = config p
    \<and> req_blocks rid m' = req_blocks rid m @ bs \<and> req_blocks rid m' \<noteq> []"
proof (cases "req_blocks rid m = []")
  case True
  then have x: "1 \<le> int (length xs)" using assms(2) by (cases xs) simp_all
  let ?m = "record_new_ids (take (nat 1) xs) (set_req_blocks rid (req_blocks rid m @ take (nat 1) xs) m)"
  obtain q where "get_new_blocks 1 p = Inr (take (nat 1) xs, q)" "st_inv ext ?m q (drop (nat 1) xs)" "config q = config p"
    using grow_table [OF inv _ x, of ?m rid] by auto
  with True x show ?thesis
    by (intro exI [of _ "take (nat 1) xs"] exI [of _ ?m] exI [of _ q] exI [of _ "drop (nat 1) xs"])
      (auto simp: claim_ring_block_def)
next
  case False
  then show ?thesis using touch_req_inv [OF inv, of rid]
    by (intro exI [of _ "[]"] exI [of _ "touch_req rid m"] exI [of _ p] exI [of _ xs]) (simp add: claim_ring_block_def touch_req_def)
qed

lemma allocate_external_spec:
  assumes inv: "st_inv ext m p xs" and room: "max 0 (cdiv (num_local + num_external) (sm_block_size m) - int (length (req_blocks rid m))) \<le> int (length xs)"
  shows "\<exists>m' q ys. base_allocate_external_computed_blocks rid num_local num_external m p = Inr (m', q) \<and> st_inv ext m' q ys
    \<and> config q = config p"
proof -
  let ?n = "max 0 (cdiv (num_local + num_external) (sm_block_size m) - int (length (req_blocks rid m)))"
  let ?m = "record_new_ids (take (nat ?n) xs) (set_req_blocks rid (req_blocks rid m @ take (nat ?n) xs) m)"
  obtain q where "get_new_blocks ?n p = Inr (take (nat ?n) xs, q)" "st_inv ext ?m q (drop (nat ?n) xs)" "config q = config p"
    using grow_table [OF inv _ room, of ?m rid] by auto
  then show ?thesis using inv by (auto simp: base_allocate_external_computed_blocks_def Let_def)
qed

subsection \<open>Copy on write\<close>

lemma add_ref_pool_wf:
  assumes "pool_wf p xs" "in_pool p b" "ref_cnt (heap p b) > 0"
  shows "pool_wf (add_ref 1 b p) xs"
proof -
  have "b \<notin> set xs" using pool_wfD(5) [OF assms(1)] assms(3) by auto
  then have "pending_wf (add_ref 1 b p) xs []"
    using assms by (auto simp: pool_wf_def pending_wf_def)
  moreover have "watch_wf (add_ref 1 b p)" using assms(1) by (simp add: pool_wf_def watch_wf_def)
  ultimately show ?thesis using assms(1) by (simp add: pool_wf_def)
qed

lemma count_list_update:
  "i < length bs \<Longrightarrow> int (count_list (bs[i := c]) b) = int (count_list bs b) - (if b = bs ! i then 1 else 0) + (if b = c then 1 else 0)"
proof -
  assume i: "i < length bs"
  have c: "count_list xs y = count (mset xs) y" for xs :: "'a list" and y by (simp add: count_mset)
  have "count (mset bs) (bs ! i) > 0" using i by simp
  then show ?thesis unfolding c mset_update [OF i] by auto
qed

text \<open>
  The shared tail block is replaced by a private one. The old block keeps the reference of the table,
  now as the source of the pending copy; the new one gets a second reference as its target.
\<close>

lemma redirect_spec:
  assumes inv: "st_inv ext m p xs" and hit: "partial_hit_reqs m rid = Some (i, s)" and room: "xs = c # ys"
  shows "\<exists>m' q. redirect_partial_hit rid m p = Inr ([c], m', q) \<and> st_inv ext m' q ys \<and> config q = config p
    \<and> req_blocks rid m' = (req_blocks rid m)[nat i := c] \<and> partial_hit_reqs m' = (partial_hit_reqs m)(rid := None)
    \<and> sm_block_size m' = sm_block_size m \<and> kind m' = kind m \<and> num_cached_block m' = num_cached_block m
    \<and> (\<forall>rid'. rid' \<noteq> rid \<longrightarrow> req_blocks rid' m' = req_blocks rid' m)
    \<and> pending_cow_copies m' = pending_cow_copies m @ [(s, c)]"
proof -
  note d = st_invD [OF inv] and h = st_invD(8) [OF inv hit]
  let ?bs = "req_blocks rid m" and ?cs = "(req_blocks rid m)[nat i := c]"
  obtain p1 where p1: "get_new_blocks 1 p = Inr ([c], p1)" "pool_wf p1 ys" "config p1 = config p"
      "\<forall>b. ref_cnt (heap p1 b) = ref_cnt (heap p b) + (if b = c then 1 else 0)"
    using get_new_blocks_spec [OF d(1), of 1] room by auto
  define q where "q = add_ref 1 c p1"
  define m' where "m' = (set_req_blocks rid ?cs m)\<lparr>partial_hit_reqs := (partial_hit_reqs m)(rid := None),
      pending_cow_copies := pending_cow_copies m @ [(s, c)], new_block_ids := new_block_ids m @ [block_id c]\<rparr>"
  have ip: "in_pool p1 = in_pool p" "in_pool q = in_pool p" using config_in_pool [OF p1(3)] by (simp_all add: q_def fun_eq_iff)
  have s: "s \<in> set ?bs" "in_pool p s" using h d(7) req_blocks_owned [of rid m] by (force simp: nat_less_iff)+
  have c: "in_pool p c" "ref_cnt (heap p c) = 0" using pool_wfD(5) [OF d(1)] room by auto
  have "1 \<le> count_list ?bs s" using s(1) by (metis count_list_0_iff less_one not_le)
  then have rs: "ref_cnt (heap p s) > 0" using d(3,4) [of s] s(2) count_req_le_own [OF d(5), of rid s] by simp
  have nn: "\<not> is_null (heap p1 s)" using p1(2) h by (simp add: pool_wf_def pending_wf_def)
  have wq: "pool_wf q ys" using add_ref_pool_wf [OF p1(2), of c] c p1(4) ip by (simp add: q_def)
  have res: "redirect_partial_hit rid m p = Inr ([c], m', q)"
    using hit p1(1,4) h rs nn c(2)
    by (simp add: redirect_partial_hit_def apply_cow_def py_index_nth assertE_def m'_def q_def set_req_blocks_def req_blocks_def Let_def)
  have pos: "nat i < length ?bs" "?bs ! nat i = s" using h by auto
  have cnt: "int (count_list ?cs b) = int (count_list ?bs b) - (if b = s then 1 else 0) + (if b = c then 1 else 0)" for b
    using count_list_update [OF pos(1), of c b] pos(2) by simp
  have oc: "own_count m' b = own_count m b + 2 * (if b = c then 1 else 0)" for b
  proof -
    have "own_count m' b = own_count (set_req_blocks rid ?cs m) b + (if b = s then 1 else 0) + (if b = c then 1 else 0)"
      by (simp add: own_count_def owned_def m'_def set_req_blocks_def)
    then show ?thesis using owned_set_count [OF d(5), of rid ?cs b] cnt [of b] by simp
  qed
  have rb: "req_blocks rid' m' = (if rid' = rid then ?cs else req_blocks rid' m)" for rid'
    using req_blocks_set [of rid' rid ?cs m] by (simp add: m'_def req_blocks_def)
  have "set (owned m') \<subseteq> set (owned (set_req_blocks rid ?cs m)) \<union> {s, c}"
    by (auto simp: owned_def m'_def set_req_blocks_def)
  moreover have "set ?cs \<subseteq> insert c (set (owned m))" using set_update_subset_insert [of ?bs "nat i" c] req_blocks_owned [of rid m] by blast
  ultimately have "set (owned m') \<subseteq> set (owned m) \<union> {s, c}" using set_owned_set [of rid ?cs m] by blast
  then have "\<forall>b \<in> set (owned m'). b = null_block \<or> in_pool q b" using d(7) s(2) c(1) ip by auto
  moreover have "distinct (map fst (req_to_blocks m'))" using d(5) by (simp add: m'_def set_req_blocks_def distinct_update)
  moreover have "0 \<le> j \<and> j < int (length (req_blocks rid' m')) \<and> req_blocks rid' m' ! nat j = t \<and> t \<noteq> null_block"
    if "partial_hit_reqs m' rid' = Some (j, t)" for rid' j t
  proof -
    have "rid' \<noteq> rid" "partial_hit_reqs m rid' = Some (j, t)" using that by (auto simp: m'_def split: if_splits)
    with d(8) [of rid' j t] show ?thesis unfolding rb by simp
  qed
  moreover have "0 < sm_block_size m'" using d(6) by (simp add: m'_def)
  ultimately have "tables_ok m' q" unfolding tables_ok_def by blast
  moreover have "ref_cnt (heap q b) = own_count m' b + ext b" if "in_pool q b" for b
    using that d(4) [of b] p1(4) oc [of b] by (simp add: ip q_def)
  ultimately have "st_inv ext m' q ys" using wq d(3) by (simp add: st_inv_def)
  moreover have "config q = config p" using p1(3) by (simp add: q_def)
  ultimately show ?thesis using res rb by (intro exI [of _ m'] exI [of _ q]) (simp add: m'_def)
qed

subsection \<open>Allocation\<close>

lemma allocate_new_blocks_spec:
  assumes inv: "st_inv ext m p xs"
    and c: "c = (if partial_hit_reqs m rid = None then 0 else 1)"
    and n: "n = max 0 (cdiv num_toks (sm_block_size m) - int (length (req_blocks rid m)))"
    and room: "c + n \<le> int (length xs)"
  shows "\<exists>bs m' q ys. base_allocate_new_blocks rid num_toks m p = Inr (bs, m', q) \<and> st_inv ext m' q ys \<and> config q = config p
    \<and> int (length (req_blocks rid m')) = int (length (req_blocks rid m)) + n \<and> int (length ys) = int (length xs) - c - n
    \<and> int (length bs) = c + n \<and> set bs \<subseteq> set xs
    \<and> partial_hit_reqs m' rid = None \<and> num_cached_block m' = num_cached_block m
    \<and> (\<forall>rid'. rid' \<noteq> rid \<longrightarrow> req_blocks rid' m' = req_blocks rid' m)
    \<and> (partial_hit_reqs m rid = None \<longrightarrow> req_blocks rid m' = req_blocks rid m @ bs)"
proof -
  have "\<exists>cow m1 p1. redirect_partial_hit rid m p = Inr (cow, m1, p1) \<and> st_inv ext m1 p1 (drop (nat c) xs) \<and> config p1 = config p
      \<and> length (req_blocks rid m1) = length (req_blocks rid m) \<and> sm_block_size m1 = sm_block_size m
      \<and> partial_hit_reqs m1 rid = None \<and> num_cached_block m1 = num_cached_block m \<and> int (length cow) = c \<and> set cow \<subseteq> set xs
      \<and> (\<forall>rid'. rid' \<noteq> rid \<longrightarrow> req_blocks rid' m1 = req_blocks rid' m)
      \<and> (partial_hit_reqs m rid = None \<longrightarrow> cow = [] \<and> req_blocks rid m1 = req_blocks rid m)"
  proof (cases "partial_hit_reqs m rid")
    case None
    then show ?thesis using inv c by (intro exI [of _ "[]"] exI [of _ m] exI [of _ p]) (simp add: redirect_partial_hit_def)
  next
    case (Some hit)
    then obtain i s where hs: "partial_hit_reqs m rid = Some (i, s)" by (cases hit) simp
    obtain b ys where ys: "xs = b # ys" using room c n hs by (cases xs) auto
    from redirect_spec [OF inv hs ys] obtain m1 p1 where "redirect_partial_hit rid m p = Inr ([b], m1, p1)" "st_inv ext m1 p1 ys"
        "config p1 = config p" "req_blocks rid m1 = (req_blocks rid m)[nat i := b]" "partial_hit_reqs m1 = (partial_hit_reqs m)(rid := None)"
        "sm_block_size m1 = sm_block_size m" "num_cached_block m1 = num_cached_block m"
        "\<forall>rid'. rid' \<noteq> rid \<longrightarrow> req_blocks rid' m1 = req_blocks rid' m" by blast
    then show ?thesis using ys c hs by (intro exI [of _ "[b]"] exI [of _ m1] exI [of _ p1]) simp
  qed
  then obtain cow m1 p1 where m1: "redirect_partial_hit rid m p = Inr (cow, m1, p1)" "st_inv ext m1 p1 (drop (nat c) xs)" "config p1 = config p"
      "length (req_blocks rid m1) = length (req_blocks rid m)" "sm_block_size m1 = sm_block_size m" "partial_hit_reqs m1 rid = None"
      "num_cached_block m1 = num_cached_block m" "int (length cow) = c" "set cow \<subseteq> set xs"
      "\<forall>rid'. rid' \<noteq> rid \<longrightarrow> req_blocks rid' m1 = req_blocks rid' m"
      "partial_hit_reqs m rid = None \<longrightarrow> cow = [] \<and> req_blocks rid m1 = req_blocks rid m"
    by (elim exE conjE) (rule that; assumption)
  have c0: "0 \<le> c" "0 \<le> n" using c n by auto
  show ?thesis
  proof (cases "n = 0")
    case True
    then have "base_allocate_new_blocks rid num_toks m p = Inr (cow, touch_req rid m1, p1)"
      using m1 n by (auto simp: base_allocate_new_blocks_def Let_def max_def split: if_splits)
    with True m1 touch_req_inv [OF m1(2), of rid] room c0 show ?thesis
      by (intro exI [of _ cow] exI [of _ "touch_req rid m1"] exI [of _ p1] exI [of _ "drop (nat c) xs"])
        (simp add: touch_req_def)
  next
    case False
    then have n': "n = cdiv num_toks (sm_block_size m) - int (length (req_blocks rid m))" "0 < n" using n by auto
    let ?new = "take (nat n) (drop (nat c) xs)"
    let ?m = "record_new_ids ?new (set_req_blocks rid (req_blocks rid m1 @ ?new) m1)"
    have le: "n \<le> int (length (drop (nat c) xs))" using room c0 by simp
    obtain q where q: "get_new_blocks n p1 = Inr (?new, q)" "st_inv ext ?m q (drop (nat n) (drop (nat c) xs))" "config q = config p1"
      using grow_table [OF m1(2) c0(2) le, of ?m rid] by auto
    have "base_allocate_new_blocks rid num_toks m p = Inr (cow @ ?new, ?m, q)"
      using m1 n' q(1) by (simp add: base_allocate_new_blocks_def Let_def)
    moreover have "set (cow @ ?new) \<subseteq> set xs" using m1(9) by (auto dest!: in_set_takeD in_set_dropD)
    ultimately show ?thesis using m1 q le c0 room
      by (intro exI [of _ "cow @ ?new"] exI [of _ ?m] exI [of _ q] exI [of _ "drop (nat n) (drop (nat c) xs)"]) simp
  qed
qed

text \<open>Taking over the blocks of a prefix hit: \<open>k\<close> skipped blocks become null blocks, the others are touched.\<close>

lemma count_list_replicate: "count_list (replicate k x) b = (if b = x then k else 0)"
  by (induction k) auto

lemma add_local_spec:
  assumes inv: "st_inv ext m p xs" and empty: "req_blocks rid m = []"
    and k: "k = get_num_skipped_tokens (kind m) (num_local + num_external) div sm_block_size m" "0 \<le> k"
    and new: "\<forall>b \<in> set new. b = null_block \<or> in_pool p b" and hits: "hits = drop (nat k) new"
    and off: "\<not> sm_enable_caching m \<longrightarrow> hits = []"
    and part: "has_partial_local_hit m hits num_local \<longrightarrow>
      0 \<le> num_local div sm_block_size m \<and> num_local div sm_block_size m = k + int (length hits) - 1 \<and> last hits \<noteq> null_block"
  shows "\<exists>m' q. base_add_local_computed_blocks rid new num_local num_external m p = Inr (m', q)
    \<and> st_inv ext m' q (filter (\<lambda>b. b \<notin> set hits) xs) \<and> config q = config p
    \<and> req_blocks rid m' = replicate (nat k) null_block @ hits \<and> sm_block_size m' = sm_block_size m \<and> kind m' = kind m
    \<and> (partial_hit_reqs m' rid = None \<longleftrightarrow> \<not> has_partial_local_hit m hits num_local) \<and> num_cached_block m' rid \<noteq> None
    \<and> (\<forall>rid'. rid' \<noteq> rid \<longrightarrow> req_blocks rid' m' = req_blocks rid' m)
    \<and> (\<forall>b. ref_cnt (heap q b) = ref_cnt (heap p b) + int (count_list hits b)) \<and> keys_of q = keys_of p
    \<and> (\<not> has_partial_local_hit m hits num_local \<longrightarrow> partial_hit_reqs m' = partial_hit_reqs m
        \<and> num_cached_block m' = (num_cached_block m)(rid \<mapsto> int (nat k + length hits)))"
proof -
  note d = st_invD [OF inv]
  let ?bs = "replicate (nat k) null_block @ hits" and ?idx = "num_local div sm_block_size m"
  have cn: "\<forall>b \<in> set hits. b = null_block \<or> in_pool p b" using new hits by (auto dest: in_set_dropD)
  have "\<exists>q. (if sm_enable_caching m then touch hits p else bindE (assertE (hits = [])) (\<lambda>_. Inr p)) = Inr q
      \<and> pool_wf q (filter (\<lambda>b. b \<notin> set hits) xs) \<and> config q = config p
      \<and> (\<forall>b. ref_cnt (heap q b) = ref_cnt (heap p b) + int (count_list hits b)) \<and> keys_of q = keys_of p"
    using touch_spec [OF d(1), of hits] cn off d(1) by (cases "sm_enable_caching m") (auto simp: assertE_def)
  then obtain q where q: "(if sm_enable_caching m then touch hits p else bindE (assertE (hits = [])) (\<lambda>_. Inr p)) = Inr q"
      "pool_wf q (filter (\<lambda>b. b \<notin> set hits) xs)" "config q = config p"
      "\<forall>b. ref_cnt (heap q b) = ref_cnt (heap p b) + int (count_list hits b)" "keys_of q = keys_of p" by blast
  define m' where "m' = (if has_partial_local_hit m hits num_local
      then (set_req_blocks rid ?bs m)\<lparr>num_cached_block := (num_cached_block m)(rid \<mapsto> ?idx),
             partial_hit_reqs := (partial_hit_reqs m)(rid \<mapsto> (?idx, last hits))\<rparr>
      else (set_req_blocks rid ?bs m)\<lparr>num_cached_block := (num_cached_block m)(rid \<mapsto> int (length ?bs))\<rparr>)"
  have cd: "(if k > 0 then drop (nat k) new else new) = hits" using hits k(2) by auto
  have res: "base_add_local_computed_blocks rid new num_local num_external m p = Inr (m', q)"
    unfolding base_add_local_computed_blocks_def empty Let_def k(1) [symmetric] cd q(1) by (simp add: m'_def)
  have np: "partial_hit_reqs m rid = None" using d(8) [of rid] empty by (cases "partial_hit_reqs m rid") auto
  have inv': "st_inv ext m' q (filter (\<lambda>b. b \<notin> set hits) xs)"
  proof (rule st_inv_change_table [OF inv q(2,3), where bs = ?bs and rid = rid])
    show "\<forall>b \<in> set ?bs. b = null_block \<or> in_pool p b" using cn by auto
    show "ref_cnt (heap q b) = ref_cnt (heap p b) - int (count_list (req_blocks rid m) b) + int (count_list ?bs b)"
      if "in_pool p b" for b using q(4) empty that by (auto simp: count_list_replicate)
    show "0 \<le> i \<and> i < int (length (req_blocks rid' (set_req_blocks rid ?bs m)))
        \<and> req_blocks rid' (set_req_blocks rid ?bs m) ! nat i = s \<and> s \<noteq> null_block"
      if "partial_hit_reqs m' rid' = Some (i, s)" for rid' i s
    proof (cases "rid' = rid")
      case True
      with that np have h: "has_partial_local_hit m hits num_local" "i = ?idx" "s = last hits"
        by (auto simp: m'_def split: if_splits)
      then have pl: "i = k + int (length hits) - 1" "0 \<le> i" "s \<noteq> null_block" "hits \<noteq> []"
        using part by (auto simp: has_partial_local_hit_def)
      then obtain ys y where hits_snoc: "hits = ys @ [y]" by (cases hits rule: rev_cases) auto
      then have "nat i = nat k + length ys" using pl(1) k(2) by simp
      then have "?bs ! nat i = last hits" by (simp add: hits_snoc nth_append)
      with pl h True k(2) show ?thesis by simp
    next
      case False
      with that d(8) [of rid' i s] show ?thesis by (auto simp: m'_def split: if_splits)
    qed
  qed (simp_all add: m'_def)
  moreover have "req_blocks rid' m' = (if rid' = rid then ?bs else req_blocks rid' m)" for rid'
    using req_blocks_set [of rid' rid ?bs m] by (auto simp: m'_def req_blocks_def)
  ultimately show ?thesis using res q np by (intro exI [of _ m'] exI [of _ q]) (simp add: m'_def)
qed

subsection \<open>Release\<close>

lemma holds_owned:
  assumes inv: "st_inv ext m p xs" and bs: "\<And>b. b \<noteq> null_block \<Longrightarrow> int (count_list bs b) \<le> own_count m b"
  shows "holds_refs p bs"
proof -
  note d = st_invD [OF inv]
  have "b = null_block \<or> in_pool p b" if "b \<in> set bs" for b
  proof (rule ccontr)
    assume n: "\<not> (b = null_block \<or> in_pool p b)"
    have "0 < int (count_list bs b)" using that by (simp add: count_list_0_iff zero_less_iff_neq_zero)
    also have "\<dots> \<le> own_count m b" using bs n by blast
    finally have "b \<in> set (owned m)" by (simp add: own_count_def count_list_0_iff zero_less_iff_neq_zero)
    then show False using d(7) n by blast
  qed
  moreover have "int (count_list bs b) \<le> ref_cnt (heap p b) \<or> b \<notin> set bs" if "b \<noteq> null_block" for b
  proof (cases "b \<in> set bs")
    case True
    then have "in_pool p b" using calculation that by blast
    then have "own_count m b \<le> ref_cnt (heap p b)" using d(3) [of b] d(4) [of b] by simp
    then show ?thesis using bs [OF that] by simp
  qed simp
  ultimately show ?thesis by (simp add: holds_refs_def)
qed

lemma mgr_free_spec:
  assumes inv: "st_inv ext m p xs"
  shows "\<exists>m' q ys. mgr_free rid m p = Inr (m', q) \<and> st_inv ext m' q ys \<and> config q = config p \<and> req_blocks rid m' = []
    \<and> num_cached_block m' = (num_cached_block m)(rid := None) \<and> partial_hit_reqs m' = (partial_hit_reqs m)(rid := None)
    \<and> (\<forall>rid'. rid' \<noteq> rid \<longrightarrow> req_blocks rid' m' = req_blocks rid' m)
    \<and> (\<forall>b. own_count m' b = own_count m b - int (count_list (req_blocks rid m) b)) \<and> keys_of q = keys_of p"
proof -
  note d = st_invD [OF inv]
  let ?bs = "req_blocks rid m"
  define m' where "m' = snd (pop_blocks_for_free rid m)"
  have "int (count_list (rev ?bs) b) \<le> own_count m b" for b using count_req_le_own [OF d(5), of rid b] by simp
  then have hr: "holds_refs p (rev ?bs)" using holds_owned [OF inv] by blast
  obtain q ys where q: "free_blocks (rev ?bs) p = Inr q" "config q = config p" "keys_of q = keys_of p" "pool_wf q ys"
      "\<forall>c. ref_cnt (heap q c) = ref_cnt (heap p c) - int (count_list (rev ?bs) c)"
    using free_blocks_spec [OF d(1) hr] by blast
  have ip: "in_pool q = in_pool p" using config_in_pool [OF q(2)] .
  have rb: "req_blocks rid' m' = (if rid' = rid then [] else req_blocks rid' m)" for rid'
    by (simp add: m'_def pop_blocks_for_free_def req_blocks_def delete_conv')
  have oc: "own_count m' b = own_count m b - int (count_list ?bs b)" for b
    using count_concat_delete [OF d(5), of rid b]
    by (simp add: own_count_def owned_def m'_def pop_blocks_for_free_def req_blocks_def)
  have "set (concat (map snd (AList.delete rid al))) \<subseteq> set (concat (map snd al))" for al :: "(string \<times> block_ref list) list"
    by (induction al) auto
  from this [of "req_to_blocks m"] have "set (owned m') \<subseteq> set (owned m)"
    unfolding owned_def m'_def pop_blocks_for_free_def set_append by (intro Un_mono) simp_all
  then have "\<forall>b \<in> set (owned m'). b = null_block \<or> in_pool q b" using d(7) ip by auto
  moreover have "distinct (map fst (req_to_blocks m'))" using d(5) by (simp add: m'_def pop_blocks_for_free_def distinct_delete)
  moreover have "0 \<le> i \<and> i < int (length (req_blocks rid' m')) \<and> req_blocks rid' m' ! nat i = s \<and> s \<noteq> null_block"
    if "partial_hit_reqs m' rid' = Some (i, s)" for rid' i s
  proof -
    have "rid' \<noteq> rid" "partial_hit_reqs m rid' = Some (i, s)" using that by (auto simp: m'_def pop_blocks_for_free_def split: if_splits)
    with d(8) [of rid' i s] show ?thesis unfolding rb by simp
  qed
  moreover have "0 < sm_block_size m'" using d(6) by (simp add: m'_def pop_blocks_for_free_def)
  ultimately have "tables_ok m' q" unfolding tables_ok_def by blast
  moreover have "ref_cnt (heap q b) = own_count m' b + ext b" if "in_pool q b" for b
    using that d(4) [of b] q(5) oc [of b] by (simp add: ip)
  ultimately have "st_inv ext m' q ys" using q(4) d(3) by (simp add: st_inv_def)
  moreover have "mgr_free rid m p = Inr (m', q)" using q(1) by (simp add: mgr_free_def m'_def pop_blocks_for_free_def)
  moreover have "num_cached_block m' = (num_cached_block m)(rid := None)" "partial_hit_reqs m' = (partial_hit_reqs m)(rid := None)"
    by (simp_all add: m'_def pop_blocks_for_free_def)
  ultimately show ?thesis using q rb oc by (intro exI [of _ m'] exI [of _ q] exI [of _ ys]) simp
qed

end
