(* ===== verification/Window_Release.thy ===== *)
theory Window_Release
  imports Single_Type_Inv
begin

text \<open>
  Blocks that leave the attention window: \<open>_remove_blocks_in_range\<close> and \<open>remove_skipped_blocks\<close> of
  \<open>src/vllm/v1/core/single_type_kv_cache_manager.py\<close>, and the admission cap of the sliding-window and
  chunked-local specs (\<open>src/vllm/v1/kv_cache_interface.py\<close>) that relies on them.
\<close>

lemma free_list_grows:
  assumes "pool_wf p xs" "pool_wf q ys" "config q = config p" "\<forall>b. ref_cnt (heap q b) \<le> ref_cnt (heap p b)"
  shows "length xs \<le> length ys"
proof -
  have "b \<in> set ys" if "b \<in> set xs" for b
    using that pool_wfD(5) [OF assms(1)] pool_wfD(5,6) [OF assms(2)] assms(4) config_in_pool [OF assms(3)]
    by (metis order_antisym)
  then have "card (set xs) \<le> card (set ys)" by (intro card_mono) auto
  then show ?thesis using pool_wfD(2) [OF assms(1)] pool_wfD(2) [OF assms(2)] by (simp add: distinct_card)
qed

subsection \<open>The backward loop\<close>

definition nulled :: "nat \<Rightarrow> nat \<Rightarrow> block_ref list \<Rightarrow> block_ref list" where
  "nulled a b blocks = take a blocks @ replicate (min b (length blocks) - a) null_block @ drop (max a b) blocks"

lemma nulled_nth: "k < length blocks \<Longrightarrow> nulled a b blocks ! k = (if a \<le> k \<and> k < b then null_block else blocks ! k)"
  by (auto simp: nulled_def nth_append min_def max_def)

lemma length_nulled [simp]: "length (nulled a b blocks) = length blocks"
  by (auto simp: nulled_def)

lemma nulled_empty [simp]: "b \<le> a \<Longrightarrow> nulled a b blocks = blocks"
  by (rule nth_equalityI) (auto simp: nulled_nth)

lemma nulled_step:
  assumes "a \<le> b" "b < length blocks"
  shows "nulled a b (blocks[b := null_block]) = nulled a (Suc b) blocks"
  using assms by (intro nth_equalityI) (auto simp: nulled_nth nth_list_update less_Suc_eq)

lemma remove_loop_spec:
  assumes "0 \<le> first" "i < int (length blocks)" "first \<le> i + 1"
  shows "\<exists>j. nat first \<le> j \<and> j \<le> nat (i + 1)
    \<and> remove_loop first i blocks fr = (fr @ rev (take (nat (i + 1) - j) (drop j blocks)), nulled j (nat (i + 1)) blocks)
    \<and> null_block \<notin> set (take (nat (i + 1) - j) (drop j blocks)) \<and> (j = nat first \<or> blocks ! (j - 1) = null_block)"
  using assms
proof (induction first i blocks fr rule: remove_loop.induct)
  case (1 first i blocks fr)
  show ?case
  proof (cases "i < first \<or> blocks ! nat i = null_block")
    case True
    with "1.prems" show ?thesis
      by (intro exI [of _ "nat (i + 1)"]) (auto simp: remove_loop.simps [of first i] nat_add_distrib)
  next
    case False
    let ?bs = "blocks[nat i := null_block]" and ?n = "nat i"
    have n: "nat (i + 1) = Suc ?n" "nat (i - 1 + 1) = ?n" "?n < length blocks" using False "1.prems" by auto
    from False "1.IH" "1.prems" obtain j where j: "nat first \<le> j" "j \<le> ?n"
      "remove_loop first (i - 1) ?bs (fr @ [blocks ! ?n])
         = ((fr @ [blocks ! ?n]) @ rev (take (?n - j) (drop j ?bs)), nulled j ?n ?bs)"
      "null_block \<notin> set (take (?n - j) (drop j ?bs))" "j = nat first \<or> ?bs ! (j - 1) = null_block"
      unfolding n(2) [symmetric] by auto
    have t: "take (?n - j) (drop j ?bs) = take (?n - j) (drop j blocks)"
      using j(2) n(3) by (intro nth_equalityI) auto
    have s: "take (Suc ?n - j) (drop j blocks) = take (?n - j) (drop j blocks) @ [blocks ! ?n]"
      using j(2) n(3) by (simp add: Suc_diff_le take_Suc_conv_app_nth)
    have "j = nat first \<or> blocks ! (j - 1) = null_block" using j(1,2,5) by (cases "j = 0") auto
    moreover have "remove_loop first i blocks fr = remove_loop first (i - 1) ?bs (fr @ [blocks ! ?n])"
      using False by (simp add: remove_loop.simps [of first i])
    ultimately show ?thesis unfolding n(1) using j(1-4) False nulled_step [OF j(2) n(3)]
      by (intro exI [of _ j]) (simp add: t s eq_commute [of null_block])
  qed
qed

lemma count_nulled:
  assumes "a \<le> b" "b \<le> length blocks" "x \<noteq> null_block"
  shows "count_list (nulled a b blocks) x + count_list (take (b - a) (drop a blocks)) x = count_list blocks x"
proof -
  have "blocks = take a blocks @ take (b - a) (drop a blocks) @ drop b blocks"
    using assms(1) by (metis append_take_drop_id drop_drop le_add_diff_inverse2)
  then have "count_list blocks x = count_list (take a blocks) x + count_list (take (b - a) (drop a blocks)) x + count_list (drop b blocks) x"
    by (metis add.assoc count_list_append)
  then show ?thesis using assms by (simp add: nulled_def count_list_replicate max_def)
qed

definition same_manager :: "string \<Rightarrow> st_manager \<Rightarrow> st_manager \<Rightarrow> bool" where
  "same_manager rid m m' \<longleftrightarrow> kind m' = kind m \<and> sm_block_size m' = sm_block_size m \<and> sm_enable_caching m' = sm_enable_caching m
     \<and> num_cached_block m' = num_cached_block m \<and> partial_hit_reqs m' = partial_hit_reqs m
     \<and> (\<forall>rid'. rid' \<noteq> rid \<longrightarrow> req_blocks rid' m' = req_blocks rid' m)"

lemma same_manager_set: "same_manager rid m m" "same_manager rid m (set_req_blocks rid bs m)"
  by (simp_all add: same_manager_def)

lemma remove_range_spec:
  assumes inv: "st_inv ext m p xs" and np: "partial_hit_reqs m rid = None" and first: "0 \<le> first"
  shows "\<exists>m' q ys j. remove_blocks_in_range rid first hi m p = Inr (m', q) \<and> st_inv ext m' q ys \<and> config q = config p
    \<and> keys_of q = keys_of p \<and> (\<forall>b. ref_cnt (heap q b) \<le> ref_cnt (heap p b)) \<and> same_manager rid m m' \<and> nat first \<le> j
    \<and> req_blocks rid m' = nulled j (nat (min hi (int (length (req_blocks rid m))))) (req_blocks rid m)
    \<and> (j = nat first \<or> j \<le> length (req_blocks rid m) \<and> req_blocks rid m ! (j - 1) = null_block)"
proof -
  let ?bs = "req_blocks rid m" and ?last = "min hi (int (length (req_blocks rid m)))"
  note d = st_invD [OF inv]
  show ?thesis
  proof (cases "map_of (req_to_blocks m) rid = None \<or> ?last \<le> first")
    case True
    have "st_inv ext (set_req_blocks rid ?bs m) p xs" using touch_req_inv [OF inv, of rid] by (simp add: touch_req_def)
    moreover have "nulled (nat first) (nat ?last) ?bs = ?bs"
      using True by (cases "?bs = []") (auto simp: req_blocks_def nulled_def)
    moreover have "remove_blocks_in_range rid first hi m p = Inr (m, p)
        \<or> remove_blocks_in_range rid first hi m p = Inr (set_req_blocks rid ?bs m, p)"
      using True by (auto simp: remove_blocks_in_range_def remove_loop.simps [of first "?last - 1"] Let_def)
    ultimately show ?thesis using inv same_manager_set [of rid m] by (intro exI [of _ "if remove_blocks_in_range rid first hi m p = Inr (m, p) then m else set_req_blocks rid ?bs m"] exI [of _ p] exI [of _ xs] exI [of _ "nat first"]) auto
  next
    case False
    then have l: "first < ?last" "nat ?last \<le> length ?bs" "first \<le> ?last - 1 + 1" "?last - 1 < int (length ?bs)"
      and f: "map_of (req_to_blocks m) rid \<noteq> None" "\<not> hi \<le> first" by auto
    obtain j where j: "nat first \<le> j" "j \<le> nat ?last"
      "remove_loop first (?last - 1) ?bs [] = (rev (take (nat ?last - j) (drop j ?bs)), nulled j (nat ?last) ?bs)"
      "j = nat first \<or> ?bs ! (j - 1) = null_block"
      using remove_loop_spec [OF first l(4,3), of "[]"] by auto
    let ?fr = "rev (take (nat ?last - j) (drop j ?bs))" and ?m = "set_req_blocks rid (nulled j (nat ?last) ?bs) m"
    have cnt: "count_list (nulled j (nat ?last) ?bs) x + count_list ?fr x = count_list ?bs x" if "x \<noteq> null_block" for x
      using count_nulled [OF j(2) l(2) that] by simp
    have "int (count_list ?fr b) \<le> own_count m b" if "b \<noteq> null_block" for b
      using cnt [OF that] count_req_le_own [OF d(5), of rid b] by linarith
    then have hr: "holds_refs p ?fr" using holds_owned [OF inv] by blast
    obtain q ys where q: "free_blocks ?fr p = Inr q" "config q = config p" "keys_of q = keys_of p" "pool_wf q ys"
      "\<forall>c. ref_cnt (heap q c) = ref_cnt (heap p c) - int (count_list ?fr c)"
      using free_blocks_spec [OF d(1) hr] by blast
    have inv': "st_inv ext ?m q ys"
    proof (rule st_inv_change_table [OF inv q(4,2), where bs = "nulled j (nat ?last) ?bs" and rid = rid])
      show "\<forall>b \<in> set (nulled j (nat ?last) ?bs). b = null_block \<or> in_pool p b"
        using d(7) req_blocks_owned [of rid m] by (auto simp: nulled_def dest!: in_set_takeD in_set_dropD)
      show "ref_cnt (heap q b) = ref_cnt (heap p b) - int (count_list ?bs b) + int (count_list (nulled j (nat ?last) ?bs) b)"
        if "in_pool p b" for b using q(5) cnt [of b] in_pool_not_null [OF that] by simp
      show "0 \<le> i \<and> i < int (length (req_blocks rid' ?m)) \<and> req_blocks rid' ?m ! nat i = s \<and> s \<noteq> null_block"
        if "partial_hit_reqs ?m rid' = Some (i, s)" for rid' i s
      proof -
        have "rid' \<noteq> rid" using that np by auto
        with that d(8) [of rid' i s] show ?thesis by simp
      qed
    qed simp_all
    have "\<exists>q ys. remove_blocks_in_range rid first hi m p = Inr (?m, q) \<and> st_inv ext ?m q ys \<and> config q = config p \<and> keys_of q = keys_of p
        \<and> (\<forall>b. ref_cnt (heap q b) \<le> ref_cnt (heap p b))"
    proof (cases "?fr = []")
      case True
      then have "nat ?last \<le> j" using l(2) j(2) by auto
      then have "?m = touch_req rid m" by (simp add: touch_req_def)
      moreover have "remove_blocks_in_range rid first hi m p = Inr (?m, p)"
        using True f j(3) by (auto simp: remove_blocks_in_range_def Let_def)
      ultimately show ?thesis using touch_req_inv [OF inv, of rid] by (metis order_refl)
    next
      case False
      with f j(3) q inv' show ?thesis by (auto simp: remove_blocks_in_range_def Let_def)
    qed
    moreover have "j \<le> length ?bs" using j(2) l(2) by (rule order_trans)
    ultimately show ?thesis using j(1,4) same_manager_set(2) [of rid m "nulled j (nat ?last) ?bs"]
      by (metis req_blocks_set)
  qed
qed

subsection \<open>Which tokens are still read\<close>

text \<open>
  The attention of each kind as a relation: a query at position \<open>q\<close> reads (or, for the extra tokens of
  a sliding window, retains) the key at position \<open>t\<close>. Reference sliding window reads the prompt
  and a window before the query, once the prompt length is known.
\<close>

fun reads :: "manager_kind \<Rightarrow> int option \<Rightarrow> int \<Rightarrow> int \<Rightarrow> bool" where
  "reads (SlidingWindow w e) _ q t \<longleftrightarrow> q - w - e < t \<and> t \<le> q"
| "reads (ChunkedLocal c) _ q t \<longleftrightarrow> q div c = t div c \<and> t \<le> q"
| "reads (RSWA w) (Some n) q t \<longleftrightarrow> (t < n \<or> q - w \<le> t) \<and> t \<le> q"
| "reads _ _ q t \<longleftrightarrow> t \<le> q"

fun window_ok :: "manager_kind \<Rightarrow> bool" where
  "window_ok (SlidingWindow w e) \<longleftrightarrow> 0 < w \<and> 0 \<le> e"
| "window_ok (ChunkedLocal c) \<longleftrightarrow> 0 < c"
| "window_ok (RSWA w) \<longleftrightarrow> 0 \<le> w"
| "window_ok _ \<longleftrightarrow> True"

lemma skipped_nonneg: "window_ok k \<Longrightarrow> 0 \<le> n \<Longrightarrow> 0 \<le> get_num_skipped_tokens k n"
  by (cases k) (auto intro!: mult_nonneg_nonneg pos_imp_zdiv_nonneg_iff [THEN iffD2])

lemma div_block_bounds: "0 < b \<Longrightarrow> a div b * b \<le> a \<and> a < (a div b + 1) * (b :: int)"
  using pos_mod_bound [of b a] pos_mod_sign [of b a] div_mult_mod_eq [of a b] unfolding distrib_right by linarith

lemma skipped_le: "window_ok k \<Longrightarrow> 0 \<le> n \<Longrightarrow> get_num_skipped_tokens k n \<le> n"
  using div_block_bounds [of _ n] by (cases k) auto

lemma skipped_not_read:
  assumes "window_ok k" "n \<le> q" "reads k pr q t"
  shows "get_num_skipped_tokens k n \<le> t \<or> get_num_skipped_tokens k n = 0"
proof (cases k)
  case (ChunkedLocal c)
  then have c: "0 < c" "q div c = t div c" using assms by auto
  have "n div c * c \<le> q div c * c" using c(1) assms(2) by (simp add: zdiv_mono1)
  also have "\<dots> \<le> t" using c div_block_bounds by simp
  finally show ?thesis using ChunkedLocal by simp
qed (use assms in auto)

text \<open>What a release leaves: entries \<open>a\<close> to \<open>b - 1\<close> of the table become null, and nothing there is read again.\<close>

definition window_released ::
  "(block_ref \<Rightarrow> int) \<Rightarrow> string \<Rightarrow> int \<Rightarrow> int option \<Rightarrow> st_manager \<Rightarrow> block_pool \<Rightarrow> (st_manager \<times> block_pool) result \<Rightarrow> bool" where
  "window_released ext rid n pr m p res \<longleftrightarrow> (\<exists>m' q ys a b. res = Inr (m', q) \<and> st_inv ext m' q ys \<and> config q = config p
    \<and> keys_of q = keys_of p \<and> (\<forall>b. ref_cnt (heap q b) \<le> ref_cnt (heap p b)) \<and> same_manager rid m m'
    \<and> req_blocks rid m' = nulled a b (req_blocks rid m)
    \<and> (\<forall>k t v. a \<le> k \<and> k < b \<and> t div sm_block_size m = int k \<and> n \<le> v \<longrightarrow> \<not> reads (kind m) pr v t))"

lemma window_released_same:
  assumes "st_inv ext m p xs"
  shows "window_released ext rid n pr m p (Inr (m, p))"
  unfolding window_released_def using assms same_manager_set(1) [of rid m]
  by (intro exI [of _ m] exI [of _ p] exI [of _ xs] exI [of _ 0] exI [of _ 0]) auto

lemma base_remove_range:
  assumes inv: "st_inv ext m p xs" and np: "partial_hit_reqs m rid = None"
    and hi: "hi = nat (min (get_num_skipped_tokens (kind m) n div sm_block_size m) (int (length (req_blocks rid m))))"
  shows "\<exists>m' q ys j. base_remove_skipped_blocks rid n m p = Inr (m', q) \<and> st_inv ext m' q ys \<and> config q = config p
    \<and> keys_of q = keys_of p \<and> (\<forall>b. ref_cnt (heap q b) \<le> ref_cnt (heap p b)) \<and> same_manager rid m m'
    \<and> req_blocks rid m' = nulled j hi (req_blocks rid m)
    \<and> (j = 0 \<or> j \<le> length (req_blocks rid m) \<and> req_blocks rid m ! (j - 1) = null_block)"
proof (cases "get_num_skipped_tokens (kind m) n \<le> 0")
  case True
  have "get_num_skipped_tokens (kind m) n div sm_block_size m \<le> 0"
    using True st_invD(6) [OF inv] div_block_bounds [of "sm_block_size m" "get_num_skipped_tokens (kind m) n"]
    by (metis div_nonpos_pos_le0 le_less)
  then have "hi = 0" using hi by simp
  with True inv same_manager_set(1) [of rid m] show ?thesis
    by (intro exI [of _ m] exI [of _ p] exI [of _ xs] exI [of _ 0]) (simp add: base_remove_skipped_blocks_def)
next
  case False
  let ?l = "int (length (req_blocks rid m))" and ?s = "get_num_skipped_tokens (kind m) n div sm_block_size m"
  have rb: "req_blocks rid (touch_req rid m) = req_blocks rid m" "partial_hit_reqs (touch_req rid m) = partial_hit_reqs m"
    by (simp_all add: touch_req_def)
  have h: "nat (min (min ?s ?l) ?l) = hi" using hi by simp
  obtain m' q ys j where r: "remove_blocks_in_range rid 0 (min ?s ?l) (touch_req rid m) p = Inr (m', q)"
      "st_inv ext m' q ys" "config q = config p" "keys_of q = keys_of p"
      "\<forall>b. ref_cnt (heap q b) \<le> ref_cnt (heap p b)" "same_manager rid (touch_req rid m) m'"
      "req_blocks rid m' = nulled j hi (req_blocks rid m)"
      "j = nat 0 \<or> j \<le> length (req_blocks rid m) \<and> req_blocks rid m ! (j - 1) = null_block"
    using remove_range_spec [OF touch_req_inv [OF inv, of rid], of rid 0 "min ?s ?l"] np unfolding rb h by auto
  have "base_remove_skipped_blocks rid n m p = Inr (m', q)"
    using False r(1) by (simp add: base_remove_skipped_blocks_def Let_def)
  moreover have "same_manager rid m m'" using r(6) by (simp add: same_manager_def touch_req_def)
  ultimately show ?thesis using r by auto
qed

lemma base_remove_released:
  assumes inv: "st_inv ext m p xs" and np: "partial_hit_reqs m rid = None" and w: "window_ok (kind m)"
  shows "window_released ext rid n pr m p (base_remove_skipped_blocks rid n m p)"
proof -
  let ?bs = "sm_block_size m" and ?l = "int (length (req_blocks rid m))" and ?s = "get_num_skipped_tokens (kind m) n"
  obtain m' q ys j where r: "base_remove_skipped_blocks rid n m p = Inr (m', q)" "st_inv ext m' q ys" "config q = config p"
      "keys_of q = keys_of p" "\<forall>b. ref_cnt (heap q b) \<le> ref_cnt (heap p b)" "same_manager rid m m'"
      "req_blocks rid m' = nulled j (nat (min (?s div ?bs) ?l)) (req_blocks rid m)"
    using base_remove_range [OF inv np refl, of n] by blast
  have s0: "0 < ?bs" using st_invD(6) [OF inv] .
  have "\<not> reads (kind m) pr v t" if k: "k < nat (min (?s div ?bs) ?l)" "t div ?bs = int k" "n \<le> v" for k t v
  proof
    assume "reads (kind m) pr v t"
    with skipped_not_read [OF w k(3)] k(1) have "?s \<le> t" by fastforce
    then have "?s div ?bs \<le> int k" using zdiv_mono1 [OF _ s0, of ?s t] k(2) by simp
    with k(1) show False by linarith
  qed
  with r show ?thesis unfolding window_released_def
    by (intro exI [of _ m'] exI [of _ q] exI [of _ ys] exI [of _ j] exI [of _ "nat (min (?s div ?bs) ?l)"]) blast
qed

lemma rswa_remove_released:
  assumes inv: "st_inv ext m p xs" and np: "partial_hit_reqs m rid = None" and k: "kind m = RSWA w" and l0: "0 \<le> l"
  shows "window_released ext rid n (Some l) m p (rswa_remove_skipped_blocks rid n l w m p)"
proof -
  let ?bs = "sm_block_size m" and ?l = "int (length (req_blocks rid m))"
  let ?hi = "max l (n - w) div ?bs"
  have s0: "0 < ?bs" using st_invD(6) [OF inv] .
  have f0: "0 \<le> cdiv l ?bs" using l0 s0 by (simp add: cdiv_nonneg)
  obtain m' q ys j where r: "remove_blocks_in_range rid (cdiv l ?bs) ?hi m p = Inr (m', q)"
      "st_inv ext m' q ys" "config q = config p" "keys_of q = keys_of p"
      "\<forall>b. ref_cnt (heap q b) \<le> ref_cnt (heap p b)" "same_manager rid m m'"
      "nat (cdiv l ?bs) \<le> j" "req_blocks rid m' = nulled j (nat (min ?hi ?l)) (req_blocks rid m)"
    using remove_range_spec [OF inv np f0, of ?hi] by blast
  have "rswa_remove_skipped_blocks rid n l w m p = Inr (m', q)"
    using r(1) by (simp add: rswa_remove_skipped_blocks_def Let_def)
  moreover have "\<not> reads (kind m) (Some l) v t"
    if i: "j \<le> i" "i < nat (min ?hi ?l)" "t div ?bs = int i" "n \<le> v" for i t v
  proof -
    have b: "cdiv l ?bs \<le> int i" "int i + 1 \<le> ?hi" using i r(7) by linarith+
    have "l \<le> t" using cdiv_bounds [OF s0, of l] mult_right_mono [OF b(1) less_imp_le [OF s0]] div_block_bounds [OF s0, of t] unfolding i(3) by linarith
    moreover have "t < max l (n - w)"
      using div_block_bounds [OF s0, of t] div_block_bounds [OF s0, of "max l (n - w)"] mult_right_mono [OF b(2) less_imp_le [OF s0]]
      unfolding i(3) by linarith
    ultimately show ?thesis using k i(4) by (auto simp: less_max_iff_disj)
  qed
  ultimately show ?thesis unfolding window_released_def using r
    by (intro exI [of _ m'] exI [of _ q] exI [of _ ys] exI [of _ j] exI [of _ "nat (min ?hi ?l)"]) blast
qed

lemma remove_skipped_released:
  assumes inv: "st_inv ext m p xs" "partial_hit_reqs m rid = None" "window_ok (kind m)" and pr: "\<forall>l. pr = Some l \<longrightarrow> 0 \<le> l"
  shows "window_released ext rid n pr m p (remove_skipped_blocks rid n pr m p)"
proof (cases "kind m")
  case (RSWA w)
  then show ?thesis using base_remove_released [OF inv] rswa_remove_released [OF inv(1,2) RSWA] pr
    by (cases pr) (auto simp: remove_skipped_blocks_def)
qed (use base_remove_released [OF inv] window_released_same [OF inv(1)] in \<open>auto simp: remove_skipped_blocks_def\<close>)

subsection \<open>Blocks held below the cap\<close>

text \<open>The tables of the recycling kinds: null blocks first, then the blocks in the window.\<close>

definition head_null :: "block_ref list \<Rightarrow> bool" where
  "head_null bs \<longleftrightarrow> (\<forall>i j. i < j \<and> j < length bs \<and> bs ! j = null_block \<longrightarrow> bs ! i = null_block)"

definition held :: "block_ref list \<Rightarrow> int" where
  "held bs = int (length (filter (\<lambda>b. b \<noteq> null_block) bs))"

lemma nulled_head:
  assumes "head_null bs" "j = 0 \<or> j \<le> length bs \<and> bs ! (j - 1) = null_block"
  shows "nulled j h bs = nulled 0 h bs"
proof (rule nth_equalityI)
  show "nulled j h bs ! k = nulled 0 h bs ! k" if "k < length (nulled j h bs)" for k
  proof (cases "k < j")
    case True
    then have "k = j - 1 \<or> k < j - 1" "j - 1 < length bs" using assms(2) by auto
    then have "bs ! k = null_block" using assms True by (auto simp: head_null_def)
    with that show ?thesis by (simp add: nulled_nth)
  qed (use that in \<open>simp add: nulled_nth\<close>)
qed simp

lemma held_append: "held (bs @ new) \<le> held bs + int (length new)"
  using length_filter_le [of "\<lambda>b. b \<noteq> null_block" new] by (simp add: held_def)

lemma held_nulled: "h \<le> length bs \<Longrightarrow> held (nulled 0 h bs) \<le> int (length bs) - int h"
  using length_filter_le [of "\<lambda>b. b \<noteq> null_block" "drop h bs"] by (simp add: held_def nulled_def)

lemma head_null_append:
  assumes "head_null bs" "null_block \<notin> set new"
  shows "head_null (bs @ new)"
  unfolding head_null_def
proof (intro allI impI)
  fix i j assume ij: "i < j \<and> j < length (bs @ new) \<and> (bs @ new) ! j = null_block"
  have "j < length bs"
  proof (rule ccontr)
    assume "\<not> j < length bs"
    with ij have "new ! (j - length bs) = null_block" "j - length bs < length new" by (auto simp: nth_append)
    with assms(2) nth_mem show False by metis
  qed
  with ij have "bs ! i = null_block" using assms(1) unfolding head_null_def by (metis nth_append)
  with ij \<open>j < length bs\<close> show "(bs @ new) ! i = null_block" by (simp add: nth_append)
qed

lemma head_null_nulled:
  assumes "head_null bs"
  shows "head_null (nulled 0 h bs)"
  unfolding head_null_def
proof (intro allI impI)
  fix i j assume ij: "i < j \<and> j < length (nulled 0 h bs) \<and> nulled 0 h bs ! j = null_block"
  then have "j < h \<or> bs ! j = null_block" by (auto simp: nulled_nth split: if_splits)
  then have "i < h \<or> bs ! i = null_block" using assms ij unfolding head_null_def by (metis length_nulled less_trans)
  with ij show "nulled 0 h bs ! i = null_block" by (auto simp: nulled_nth)
qed

lemma cdiv_add_blocks: "0 < b \<Longrightarrow> cdiv t b \<le> cdiv (t - u * b) b + u"
  using cdiv_bounds [of b "t - u * b"] by (simp add: cdiv_le_iff algebra_simps)

lemma window_within_cap:
  assumes b: "0 < b" and k: "window_ok k" "\<forall>c. k = ChunkedLocal c \<longrightarrow> b dvd c"
    and cap: "max_admission_blocks_per_request k b F L = Some cap" and t: "0 \<le> n" "t \<le> n + F" "t \<le> L"
  shows "cdiv t b - get_num_skipped_tokens k n div b \<le> cap"
proof (cases k)
  case (SlidingWindow w e)
  let ?s = "get_num_skipped_tokens k n"
  have s: "0 \<le> ?s" "t - ?s \<le> w - 1 + e + F" "t - ?s \<le> L" using SlidingWindow k t by auto
  have "cdiv t b \<le> cdiv (t - (?s div b + 1) * b) b + (?s div b + 1)" using cdiv_add_blocks [OF b] .
  moreover have "t - (?s div b + 1) * b \<le> min (w - 1 + e + F) L" using s div_block_bounds [OF b, of ?s] by linarith
  then have "cdiv (t - (?s div b + 1) * b) b \<le> cdiv (min (w - 1 + e + F) L) b" by (rule cdiv_mono [OF b])
  ultimately show ?thesis using cap SlidingWindow by simp
next
  case (ChunkedLocal c)
  let ?s = "n div c * c"
  have c: "0 < c" "b dvd c" using ChunkedLocal k by auto
  have "0 \<le> ?s" using c(1) t(1) by (simp add: pos_imp_zdiv_nonneg_iff)
  then have s: "t - ?s \<le> c + F" "t - ?s \<le> L" using div_block_bounds [OF c(1), of n] t
    unfolding distrib_right by linarith+
  have "cdiv t b \<le> cdiv (t - ?s div b * b) b + ?s div b" using cdiv_add_blocks [OF b] .
  moreover have "?s div b * b = ?s" using c(2) by simp
  moreover have "cdiv (t - ?s) b \<le> cdiv (min (c + F) L) b" using s by (intro cdiv_mono [OF b]) simp
  ultimately show ?thesis using cap ChunkedLocal by simp
qed (use cap in auto)

subsection \<open>A sample manager\<close>

lemma st_inv_init:
  assumes "pool_wf p xs" "\<forall>c. ref_cnt (heap p c) = 0" "0 < bs" "\<not> dcp > 1"
  shows "st_inv (\<lambda>_. 0) (init_manager k bs caching gid sbs dcp nz zs cap) p xs"
  using assms by (auto simp: st_inv_def tables_ok_def init_manager_def owned_def own_count_def)

lemma sample_window_manager:
  obtains p m xs where "st_inv (\<lambda>_. 0) m p xs" "length (req_blocks ''r'' m) = 2" "partial_hit_reqs m ''r'' = None"
    "kind m = SlidingWindow 3 0" "sm_block_size m = 2" "head_null (req_blocks ''r'' m)" "length xs = 1"
proof -
  obtain p where p: "pool_wf p [Blk 1, Blk 2, Blk 3]" "\<forall>c. ref_cnt (heap p c) = 0" by (blast intro: small_pool)
  define m0 where "m0 = init_manager (SlidingWindow 3 0) 2 True 0 2 1 False True None"
  have i: "st_inv (\<lambda>_. 0) m0 p [Blk 1, Blk 2, Blk 3]" using st_inv_init [OF p] by (simp add: m0_def)
  let ?m = "set_req_blocks ''r'' (req_blocks ''r'' m0 @ take (nat 2) [Blk 1, Blk 2, Blk 3]) m0"
  obtain q where q: "st_inv (\<lambda>_. 0) ?m q (drop (nat 2) [Blk 1, Blk 2, Blk 3])"
    using grow_table [OF i, where n = 2 and m' = ?m and rid = "''r''"] by auto
  have r: "req_blocks ''r'' ?m = [Blk 1, Blk 2]" by (simp add: m0_def init_manager_def req_blocks_def set_req_blocks_def)
  have "head_null (req_blocks ''r'' ?m)" unfolding r by (auto simp: head_null_def less_Suc_eq nth_Cons' null_block_def)
  with q r show ?thesis by (intro that [of ?m q "drop (nat 2) [Blk 1, Blk 2, Blk 3]"]) (simp_all add: m0_def init_manager_def)
qed

subsection \<open>Properties\<close>

text \<open>
  C12. Release of blocks outside the window. From every state in which the counts of the pool are the
  references held, \<open>remove_skipped_blocks\<close> succeeds, keeps that invariant and the lengths of all tables,
  and touches no other request. An entry of the table is changed only to the null block, and only when
  no query at the processed position or later reads a token of that block: neither inside the sliding
  window and its retained tail, the current chunk, nor the prompt or decode window of R-SWA.
\<close>

theorem window_release_safe:
  assumes "st_inv ext m p xs" "partial_hit_reqs m rid = None" "window_ok (kind m)" "\<forall>l. pr = Some l \<longrightarrow> 0 \<le> l"
  shows "\<exists>m' q ys. remove_skipped_blocks rid n pr m p = Inr (m', q) \<and> st_inv ext m' q ys \<and> keys_of q = keys_of p
    \<and> length (req_blocks rid m') = length (req_blocks rid m)
    \<and> (\<forall>k < length (req_blocks rid m). req_blocks rid m' ! k = req_blocks rid m ! k
        \<or> req_blocks rid m' ! k = null_block
          \<and> (\<forall>t v. t div sm_block_size m = int k \<and> n \<le> v \<longrightarrow> \<not> reads (kind m) pr v t))
    \<and> (\<forall>rid'. rid' \<noteq> rid \<longrightarrow> req_blocks rid' m' = req_blocks rid' m)"
proof -
  obtain m' q ys a b where r: "remove_skipped_blocks rid n pr m p = Inr (m', q)" "st_inv ext m' q ys" "keys_of q = keys_of p"
      "same_manager rid m m'" "req_blocks rid m' = nulled a b (req_blocks rid m)"
      "\<forall>k t v. a \<le> k \<and> k < b \<and> t div sm_block_size m = int k \<and> n \<le> v \<longrightarrow> \<not> reads (kind m) pr v t"
    using remove_skipped_released [OF assms, of n] unfolding window_released_def by blast
  then have "\<forall>k < length (req_blocks rid m). req_blocks rid m' ! k = req_blocks rid m ! k
        \<or> req_blocks rid m' ! k = null_block
          \<and> (\<forall>t v. t div sm_block_size m = int k \<and> n \<le> v \<longrightarrow> \<not> reads (kind m) pr v t)"
    by (auto simp: nulled_nth)
  with r show ?thesis by (intro exI [of _ m'] exI [of _ q] exI [of _ ys]) (simp add: same_manager_def)
qed

theorem window_release_safe_witness:
  "\<exists>m p m' q. kind m = SlidingWindow 3 0 \<and> length (req_blocks ''r'' m) = 2
    \<and> remove_skipped_blocks ''r'' 4 None m p = Inr (m', q) \<and> req_blocks ''r'' m' ! 1 = req_blocks ''r'' m ! 1"
proof -
  obtain p m xs where s: "st_inv (\<lambda>_. 0) m p xs" "length (req_blocks ''r'' m) = 2" "partial_hit_reqs m ''r'' = None"
    "kind m = SlidingWindow 3 0" "sm_block_size m = 2" by (blast intro: sample_window_manager)
  have w: "window_ok (kind m)" "\<forall>l. None = Some l \<longrightarrow> (0 :: int) \<le> l" using s(4) by simp_all
  obtain m' q where r: "remove_skipped_blocks ''r'' 4 None m p = Inr (m', q)"
    "\<forall>k < length (req_blocks ''r'' m). req_blocks ''r'' m' ! k = req_blocks ''r'' m ! k
        \<or> req_blocks ''r'' m' ! k = null_block
          \<and> (\<forall>t v. t div sm_block_size m = int k \<and> 4 \<le> v \<longrightarrow> \<not> reads (kind m) None v t)"
    using window_release_safe [OF s(1,3) w, of 4] by (elim exE conjE) (rule that; assumption)
  have "reads (kind m) None 4 3" "3 div sm_block_size m = int 1" "1 < length (req_blocks ''r'' m)" using s(2,4,5) by simp_all
  then have "req_blocks ''r'' m' ! 1 = req_blocks ''r'' m ! 1" using r(2) [THEN spec, of 1] by (metis order_refl)
  with r(1) s(2,4) show ?thesis by blast
qed

text \<open>
  C16. The admission cap. A request of a sliding-window or chunked-local group (chunk size a multiple of
  the block size) whose processed tokens have slots and that is given slots for \<open>t\<close> tokens, at most
  the tokens in flight more than those processed and at most the model length, holds after
  \<open>remove_skipped_blocks\<close> and \<open>allocate_new_blocks\<close> no more blocks than the cap of its spec; the table
  keeps its null blocks in front.
\<close>

theorem held_blocks_within_cap:
  assumes inv: "st_inv ext m p xs" and np: "partial_hit_reqs m rid = None" and k: "window_ok (kind m)"
    "\<forall>c. kind m = ChunkedLocal c \<longrightarrow> sm_block_size m dvd c"
    and cap: "max_admission_blocks_per_request (kind m) (sm_block_size m) F L = Some cap"
    and tab: "head_null (req_blocks rid m)" "0 \<le> n" "n \<le> int (length (req_blocks rid m)) * sm_block_size m"
    and t: "t \<le> n + F" "t \<le> L" "int (length (req_blocks rid m)) \<le> cdiv t (sm_block_size m)"
    and room: "cdiv t (sm_block_size m) - int (length (req_blocks rid m)) \<le> get_num_free_blocks p"
  shows "\<exists>m1 p1 new m2 p2. remove_skipped_blocks rid n pr m p = Inr (m1, p1) \<and> allocate_new_blocks rid t m1 p1 = Inr (new, m2, p2)
    \<and> int (length (req_blocks rid m2)) = cdiv t (sm_block_size m) \<and> held (req_blocks rid m2) \<le> cap \<and> head_null (req_blocks rid m2)"
proof -
  let ?bs = "sm_block_size m" and ?tab = "req_blocks rid m" and ?s = "get_num_skipped_tokens (kind m) n div sm_block_size m"
  let ?hi = "nat (min ?s (int (length ?tab)))"
  have b0: "0 < ?bs" using st_invD(6) [OF inv] .
  have kinds: "\<exists>w e. kind m = SlidingWindow w e \<or> (\<exists>c. kind m = ChunkedLocal c)" using cap by (cases "kind m") auto
  then have rs: "remove_skipped_blocks rid n pr m p = base_remove_skipped_blocks rid n m p"
    by (auto simp: remove_skipped_blocks_def)
  obtain m1 p1 ys j where r: "base_remove_skipped_blocks rid n m p = Inr (m1, p1)" "st_inv ext m1 p1 ys"
      "same_manager rid m m1" "req_blocks rid m1 = nulled j ?hi ?tab" "j = 0 \<or> j \<le> length ?tab \<and> ?tab ! (j - 1) = null_block"
      "config p1 = config p" "\<forall>b. ref_cnt (heap p1 b) \<le> ref_cnt (heap p b)"
    using base_remove_range [OF inv np refl, of n] by blast
  have tab1: "req_blocks rid m1 = nulled 0 ?hi ?tab" using nulled_head [OF tab(1) r(5)] r(4) by simp
  have same: "kind m1 = kind m" "sm_block_size m1 = ?bs" "partial_hit_reqs m1 rid = None" using r(3) np by (simp_all add: same_manager_def)
  have room1: "0 + (cdiv t ?bs - int (length ?tab)) \<le> int (length ys)"
    using room free_list_grows [OF st_invD(1) [OF inv] st_invD(1) [OF r(2)] r(6,7)] pool_wfD(3) [OF st_invD(1) [OF inv]] by simp
  have c: "(0 :: int) = (if partial_hit_reqs m1 rid = None then 0 else 1)" using same(3) by simp
  have nn: "cdiv t ?bs - int (length ?tab) = max 0 (cdiv t (sm_block_size m1) - int (length (req_blocks rid m1)))"
    using t(3) by (simp add: same(2) tab1)
  obtain new m2 p2 where a: "base_allocate_new_blocks rid t m1 p1 = Inr (new, m2, p2)" "set new \<subseteq> set ys"
      "req_blocks rid m2 = req_blocks rid m1 @ new" "int (length new) = cdiv t ?bs - int (length ?tab)"
    using allocate_new_blocks_spec [OF r(2) c nn room1] same(3) by (elim exE conjE) (rule that; simp)
  have "allocate_new_blocks rid t m1 p1 = Inr (new, m2, p2)" using a(1) same(1) kinds by (auto simp: allocate_new_blocks_def)
  moreover have "null_block \<notin> set new" using a(2) pool_wfD(5) [OF st_invD(1) [OF r(2)]] in_pool_not_null by blast
  then have "head_null (req_blocks rid m2)" unfolding a(3) tab1 using head_null_append head_null_nulled [OF tab(1)] by blast
  moreover have "?s \<le> int (length ?tab)"
    using zdiv_mono1 [OF order_trans [OF skipped_le [OF k(1) tab(2)] tab(3)] b0] b0 by simp
  then have "held (req_blocks rid m2) \<le> cap"
    unfolding a(3) tab1 using held_append [of "nulled 0 ?hi ?tab" new] held_nulled [of ?hi ?tab] a(4)
      window_within_cap [OF b0 k cap tab(2) t(1,2)] by linarith
  ultimately show ?thesis using r(1) rs a(3,4) tab1 by auto
qed

theorem held_blocks_within_cap_witness:
  "\<exists>m p m1 p1 new m2 p2. kind m = SlidingWindow 3 0 \<and> remove_skipped_blocks ''r'' 4 None m p = Inr (m1, p1)
    \<and> allocate_new_blocks ''r'' 6 m1 p1 = Inr (new, m2, p2) \<and> held (req_blocks ''r'' m2) \<le> 3"
proof -
  obtain p m xs where s: "st_inv (\<lambda>_. 0) m p xs" "length (req_blocks ''r'' m) = 2" "partial_hit_reqs m ''r'' = None"
    "kind m = SlidingWindow 3 0" "sm_block_size m = 2" "head_null (req_blocks ''r'' m)" "length xs = 1"
    by (blast intro: sample_window_manager)
  have "get_num_free_blocks p = 1" using pool_wfD(3) [OF st_invD(1) [OF s(1)]] s(7) by simp
  then have "\<exists>m1 p1 new m2 p2. remove_skipped_blocks ''r'' 4 None m p = Inr (m1, p1) \<and> allocate_new_blocks ''r'' 6 m1 p1 = Inr (new, m2, p2)
    \<and> int (length (req_blocks ''r'' m2)) = cdiv 6 (sm_block_size m) \<and> held (req_blocks ''r'' m2) \<le> 3 \<and> head_null (req_blocks ''r'' m2)"
    by (intro held_blocks_within_cap [OF s(1,3), where F = 2 and L = 100]) (use s in \<open>simp_all add: cdiv_def\<close>)
  with s(4) show ?thesis by blast
qed

end
