(* ===== verification/Cache_Hits.thy ===== *)
theory Cache_Hits
  imports Window_Release
begin

text \<open>
  The search for the longest prefix-cache hit of one group of layers: \<open>find_longest_cache_hit\<close> of the
  managers in \<open>src/vllm/v1/core/single_type_kv_cache_manager.py\<close>. A search returns one list of blocks per
  KV-cache group and the length of the hit in tokens. The lemmas give the length exactly: the greatest
  prefix whose blocks (those in the window) are cached in every group.
\<close>

subsection \<open>Lookups\<close>

text \<open>A lookup counts as a hit when it returns a non-empty list.\<close>

definition lookup_hit :: "block_hash \<Rightarrow> int list \<Rightarrow> block_pool \<Rightarrow> block_ref list option result" where
  "lookup_hit h gids p =
     bindE (get_cached_block h gids p) (\<lambda>r. Inr (case r of None \<Rightarrow> None | Some bs \<Rightarrow> if bs = [] then None else Some bs))"

definition append_each :: "block_ref list list \<Rightarrow> block_ref list \<Rightarrow> block_ref list list" where
  "append_each computed cached = map2 (\<lambda>c b. c @ [b]) computed cached"

definition first_len :: "block_ref list list \<Rightarrow> int result" where
  "first_len computed = bindE (py_index computed 0) (\<lambda>c. Inr (int (length c)))"

subsection \<open>Full attention\<close>

text \<open>Phase 1: the run of cached full blocks from the start.\<close>

fun full_run :: "block_hash list \<Rightarrow> int list \<Rightarrow> block_pool \<Rightarrow> block_ref list list \<Rightarrow> block_ref list list result" where
  "full_run [] gids p computed = Inr computed"
| "full_run (h # hs) gids p computed =
     bindE (lookup_hit h gids p) (\<lambda>r.
       case r of None \<Rightarrow> Inr computed | Some cached \<Rightarrow> full_run hs gids p (append_each computed cached))"

text \<open>Phase 2: the first hit among the interior boundaries of the next block, longest first.\<close>

fun probe_tail :: "int list \<Rightarrow> block_hash_list \<Rightarrow> int list \<Rightarrow> block_pool \<Rightarrow> (int \<times> block_ref list) option result" where
  "probe_tail [] l gids p = Inr None"
| "probe_tail (i # is') l gids p =
     bindE (bhl_get l i) (\<lambda>h.
     bindE (lookup_hit h gids p) (\<lambda>r.
       case r of None \<Rightarrow> probe_tail is' l gids p | Some cached \<Rightarrow> Inr (Some (i, cached))))"

definition extend_partial ::
  "block_hash_list \<Rightarrow> int \<Rightarrow> int \<Rightarrow> int \<Rightarrow> int list \<Rightarrow> block_pool \<Rightarrow> block_ref list list \<times> int \<Rightarrow> (block_ref list list \<times> int) result" where
  "extend_partial l alignment block_size max_length gids p st =
     (let (computed, hit_length) = st; scale_factor = block_size div alignment in
      bindE (first_len computed) (\<lambda>n.
      bindE (bhl_len l) (\<lambda>len.
        let first_partial_idx = n * scale_factor;
            max_partial_idx = min (min (first_partial_idx + scale_factor - 1) (max_length div alignment)) len in
        bindE (probe_tail (rev [first_partial_idx..max_partial_idx - 1]) l gids p) (\<lambda>r.
          Inr (case r of
                 None \<Rightarrow> (computed, hit_length)
               | Some (i, cached) \<Rightarrow> (append_each computed cached, (i + 1) * alignment))))))"

text \<open>The EAGLE drop, the rounding and the trimming of the lists.\<close>

definition trim_hit :: "bool \<Rightarrow> int \<Rightarrow> int \<Rightarrow> block_ref list list \<times> int \<Rightarrow> block_ref list list \<times> int" where
  "trim_hit drop_eagle alignment block_size st =
     (let (computed, hit_length) = st;
          h1 = (if drop_eagle \<and> hit_length > 0 then hit_length - min alignment block_size else hit_length);
          h2 = h1 - h1 mod alignment
      in (map (take (nat (cdiv h2 block_size))) computed, h2))"

definition full_find_longest_cache_hit ::
  "block_hash list \<Rightarrow> int \<Rightarrow> int list \<Rightarrow> block_pool \<Rightarrow> int \<Rightarrow> bool \<Rightarrow> int \<Rightarrow> int \<Rightarrow> (block_ref list list \<times> int) result" where
  "full_find_longest_cache_hit hashes max_length gids p spec_block_size drop_eagle alignment dcp_world_size =
     (let block_size = (if dcp_world_size > 1 then spec_block_size * dcp_world_size else spec_block_size) in
      bindE (resolve_block_hashes (RawHashes hashes) (hash_block_size p) block_size True (Some alignment)) (\<lambda>l.
      if alignment = 0 \<or> block_size = 0 then Inl ZeroDivisionError
      else
        let fine_grained = (alignment < block_size \<and> block_size mod alignment = 0) in
        bindE (if fine_grained then block_hash_list_with_block_size hashes alignment block_size else Inr l) (\<lambda>full_l.
        bindE (if max_length div block_size < 0 then Inl ValueError else bhl_from full_l 0) (\<lambda>all_hashes.
        bindE (full_run (take (nat (max_length div block_size)) all_hashes) gids p (map (\<lambda>_. []) gids)) (\<lambda>computed.
        bindE (first_len computed) (\<lambda>n.
        bindE (if fine_grained then extend_partial l alignment block_size max_length gids p (computed, n * block_size)
               else Inr (computed, n * block_size)) (\<lambda>st.
          Inr (trim_hit drop_eagle alignment block_size st))))))))"

subsection \<open>Sliding window\<close>

text \<open>
  The right-to-left search over the block indices below \<open>i\<close>, with the run of hits just found:
  whether it stopped at a long enough run, the lists and the length of the run.
\<close>

fun swa_loop ::
  "nat \<Rightarrow> block_hash_list \<Rightarrow> int list \<Rightarrow> block_pool \<Rightarrow> int \<Rightarrow> int \<Rightarrow> bool \<Rightarrow> int \<Rightarrow> block_ref list list \<Rightarrow> int
     \<Rightarrow> (bool \<times> block_ref list list \<times> int) result" where
  "swa_loop 0 l gids p block_size alignment drop_eagle need computed n = Inr (False, computed, n)"
| "swa_loop (Suc i) l gids p block_size alignment drop_eagle need computed n =
     bindE (bhl_get l (int i)) (\<lambda>h.
     bindE (lookup_hit h gids p) (\<lambda>r.
       case r of
         None \<Rightarrow> swa_loop i l gids p block_size alignment drop_eagle need computed 0
       | Some cached \<Rightarrow>
           if n = 0 \<and> block_size \<noteq> alignment
              \<and> (if drop_eagle then int i else int i + 1) * block_size mod alignment \<noteq> 0
           then swa_loop i l gids p block_size alignment drop_eagle need computed n
           else
             let computed' = map2 (\<lambda>c b. c[i := b]) computed cached; n' = n + 1 in
             if n' \<ge> need then Inr (True, map (take (i + nat n')) computed', n')
             else swa_loop i l gids p block_size alignment drop_eagle need computed' n'))"

text \<open>The loop that pops blocks until the length is aligned; all lists have the same length.\<close>

function pop_unaligned :: "int \<Rightarrow> int \<Rightarrow> block_ref list list \<Rightarrow> block_ref list list" where
  "pop_unaligned block_size alignment computed =
     (if computed \<noteq> [] \<and> block_size \<noteq> alignment \<and> int (length (hd computed)) * block_size mod alignment \<noteq> 0
      then pop_unaligned block_size alignment (map butlast computed) else computed)"
  by pat_completeness auto

termination
proof (relation "measure (\<lambda>(b, a, c). if c = [] then 0 else length (hd c))", goal_cases)
  case (2 b a c)
  then show ?case by (cases c; cases "hd c = []") auto
qed simp

declare pop_unaligned.simps [simp del]

definition swa_find_longest_cache_hit ::
  "block_hash list \<Rightarrow> int \<Rightarrow> int list \<Rightarrow> block_pool \<Rightarrow> int \<Rightarrow> int \<Rightarrow> bool \<Rightarrow> int \<Rightarrow> int \<Rightarrow> int \<Rightarrow> (block_ref list list \<times> int) result" where
  "swa_find_longest_cache_hit hashes max_length gids p block_size window drop_eagle alignment dcp_world_size pcp_world_size =
     bindE (assertE (dcp_world_size = 1)) (\<lambda>_.
     bindE (assertE (pcp_world_size = 1)) (\<lambda>_.
     bindE (resolve_block_hashes (RawHashes hashes) (hash_block_size p) block_size False (Some alignment)) (\<lambda>l.
     if block_size = 0 \<or> alignment = 0 then Inl ZeroDivisionError
     else
       let need = contiguous_blocks_for_hit window block_size drop_eagle;
           max_num_blocks = nat (max_length div block_size) in
       bindE (swa_loop max_num_blocks l gids p block_size alignment drop_eagle need
                (map (\<lambda>_. replicate max_num_blocks null_block) gids) 0) (\<lambda>(match_found, computed, n).
         let computed1 = (if match_found then computed
                          else pop_unaligned block_size alignment (map (take (nat n)) computed)) in
         bindE (first_len computed1) (\<lambda>k.
           let computed2 = (if drop_eagle \<and> k > 0 then pop_unaligned block_size alignment (map butlast computed1) else computed1) in
           bindE (first_len computed2) (\<lambda>k'. Inr (computed2, k' * block_size)))))))"

subsection \<open>Chunked local attention\<close>

fun chunk_run :: "int list \<Rightarrow> block_hash_list \<Rightarrow> int list \<Rightarrow> block_pool \<Rightarrow> block_ref list list \<Rightarrow> block_ref list list result" where
  "chunk_run [] l gids p computed = Inr computed"
| "chunk_run (i # is') l gids p computed =
     bindE (bhl_get l i) (\<lambda>h.
     bindE (lookup_hit h gids p) (\<lambda>r.
       case r of None \<Rightarrow> Inr computed | Some cached \<Rightarrow> chunk_run is' l gids p (append_each computed cached)))"

definition chunked_find_longest_cache_hit ::
  "block_hash list \<Rightarrow> int \<Rightarrow> int list \<Rightarrow> block_pool \<Rightarrow> int \<Rightarrow> int \<Rightarrow> bool \<Rightarrow> int \<Rightarrow> int \<Rightarrow> int \<Rightarrow> (block_ref list list \<times> int) result" where
  "chunked_find_longest_cache_hit hashes max_length gids p block_size chunk_size drop_eagle alignment dcp_world_size pcp_world_size =
     bindE (assertE (\<not> drop_eagle)) (\<lambda>_.
     bindE (assertE (dcp_world_size = 1)) (\<lambda>_.
     bindE (assertE (pcp_world_size = 1)) (\<lambda>_.
     bindE (assertE (block_size = alignment)) (\<lambda>_.
     bindE (resolve_block_hashes (RawHashes hashes) (hash_block_size p) block_size False (Some alignment)) (\<lambda>l.
     if block_size = 0 \<or> (max_length > 0 \<and> chunk_size = 0) then Inl ZeroDivisionError
     else
       let max_num_blocks = max_length div block_size;
           local_attention_start_idx = (if max_length > 0 then max_length div chunk_size * chunk_size else 0);
           start_block_idx = local_attention_start_idx div block_size in
       bindE (chunk_run [start_block_idx..max_num_blocks - 1] l gids p
                (map (\<lambda>_. replicate (nat start_block_idx) null_block) gids)) (\<lambda>computed.
       bindE (first_len computed) (\<lambda>n. Inr (computed, n * block_size))))))))"

text \<open>The search of each manager, at the block size of its spec.\<close>

definition find_longest_cache_hit ::
  "manager_kind \<Rightarrow> int \<Rightarrow> block_hash list \<Rightarrow> int \<Rightarrow> int list \<Rightarrow> block_pool \<Rightarrow> bool \<Rightarrow> int \<Rightarrow> int \<Rightarrow> int
     \<Rightarrow> (block_ref list list \<times> int) result" where
  "find_longest_cache_hit k block_size hashes max_length gids p drop_eagle alignment dcp_world_size pcp_world_size =
     (case k of
        FullAttention \<Rightarrow> full_find_longest_cache_hit hashes max_length gids p block_size drop_eagle alignment dcp_world_size
      | RSWA w \<Rightarrow> full_find_longest_cache_hit hashes max_length gids p block_size drop_eagle alignment dcp_world_size
      | SlidingWindow w e \<Rightarrow> swa_find_longest_cache_hit hashes max_length gids p block_size w drop_eagle alignment dcp_world_size pcp_world_size
      | ChunkedLocal c \<Rightarrow> chunked_find_longest_cache_hit hashes max_length gids p block_size c drop_eagle alignment dcp_world_size pcp_world_size
      | CircularBuffer \<Rightarrow> Inr (map (\<lambda>_. []) gids, 0)
      | CrossAttention \<Rightarrow> Inl NotImplementedError)"

subsection \<open>What a lookup finds\<close>

text \<open>A hash is cached for a list of groups; the block it is found at, per group.\<close>

definition cached_in :: "block_pool \<Rightarrow> int list \<Rightarrow> block_hash \<Rightarrow> bool" where
  "cached_in p gids h \<longleftrightarrow> (\<forall>g \<in> set gids. \<exists>b. in_pool p b \<and> pack_key h g \<in> set (keys_of p b))"

definition found_at :: "block_pool \<Rightarrow> block_hash \<Rightarrow> int \<Rightarrow> block_ref" where
  "found_at p h g = hd (entries (cached_block_hash_to_block p) (pack_key h g))"

definition groups_ok :: "int list \<Rightarrow> bool" where
  "groups_ok gids \<longleftrightarrow> gids \<noteq> [] \<and> (\<forall>g \<in> set gids. group_ok g)"

lemma lookup_hit_spec:
  assumes "index_wf p" "groups_ok gids"
  shows "lookup_hit h gids p = Inr (if cached_in p gids h then Some (map (found_at p h) gids) else None)"
  using get_cached_block_spec [OF assms(1), of gids h] assms(2)
  by (auto simp: lookup_hit_def groups_ok_def cached_in_def found_at_def fun_eq_iff)

lemma found_at_in_pool:
  assumes "index_wf p" "cached_in p gids h" "g \<in> set gids"
  shows "in_pool p (found_at p h g) \<and> pack_key h g \<in> set (keys_of p (found_at p h g))"
  using lookup_hit_in_pool [OF assms(1)] assms(2,3) by (auto simp: cached_in_def found_at_def)

text \<open>The lists of a search that found the blocks of the hashes \<open>hs\<close> in order.\<close>

definition found_lists :: "block_pool \<Rightarrow> int list \<Rightarrow> block_hash list \<Rightarrow> block_ref list list" where
  "found_lists p gids hs = map (\<lambda>g. map (\<lambda>h. found_at p h g) hs) gids"

lemma append_each_found: "append_each (map f gids) (map (found_at p h) gids) = map (\<lambda>g. f g @ [found_at p h g]) gids"
  unfolding append_each_def by (induction gids) simp_all

lemma full_run_spec:
  assumes "index_wf p" "groups_ok gids"
  shows "full_run hs gids p (map f gids) = Inr (map (\<lambda>g. f g @ map (\<lambda>h. found_at p h g) (takeWhile (cached_in p gids) hs)) gids)"
proof (induction hs arbitrary: f)
  case (Cons h hs)
  then show ?case using lookup_hit_spec [OF assms, of h] by (simp add: append_each_found)
qed simp

lemma first_len_map: "gids \<noteq> [] \<Longrightarrow> (\<And>g. g \<in> set gids \<Longrightarrow> length (f g) = n) \<Longrightarrow> first_len (map f gids) = Inr (int n)"
  by (cases gids) (auto simp: first_len_def py_index_nth)

subsection \<open>Full attention: the longest cached prefix\<close>

text \<open>
  With \<open>c\<close> hash blocks per block: the hash of block \<open>i\<close>, the hash that stands for block \<open>i\<close> of a prefix of
  \<open>u\<close> hash blocks, and when such a prefix is a hit.
\<close>

definition block_key :: "nat \<Rightarrow> block_hash list \<Rightarrow> nat \<Rightarrow> block_hash" where
  "block_key c hs i = hs ! ((i + 1) * c - 1)"

definition prefix_key :: "nat \<Rightarrow> block_hash list \<Rightarrow> nat \<Rightarrow> nat \<Rightarrow> block_hash" where
  "prefix_key c hs u i = (if (i + 1) * c \<le> u then block_key c hs i else hs ! (u - 1))"

definition num_prefix_blocks :: "nat \<Rightarrow> nat \<Rightarrow> nat" where
  "num_prefix_blocks c u = (u + c - 1) div c"

definition prefix_hit :: "block_pool \<Rightarrow> int list \<Rightarrow> nat \<Rightarrow> block_hash list \<Rightarrow> nat \<Rightarrow> bool" where
  "prefix_hit p gids c hs u \<longleftrightarrow> u \<le> length hs \<and> (\<forall>i < num_prefix_blocks c u. cached_in p gids (prefix_key c hs u i))"

definition prefix_lists :: "block_pool \<Rightarrow> int list \<Rightarrow> nat \<Rightarrow> block_hash list \<Rightarrow> nat \<Rightarrow> block_ref list list" where
  "prefix_lists p gids c hs u = map (\<lambda>g. map (\<lambda>i. found_at p (prefix_key c hs u i) g) [0..<num_prefix_blocks c u]) gids"

lemma num_prefix_mult: "c > 0 \<Longrightarrow> num_prefix_blocks c (r * c) = r"
proof -
  assume "c > 0"
  then have "(r * c + (c - 1)) div c = r" by (subst div_mult_self3) simp_all
  then show ?thesis using \<open>c > 0\<close> by (simp add: num_prefix_blocks_def)
qed

lemma num_prefix_partial:
  assumes "0 < x" "x < c"
  shows "num_prefix_blocks c (r * c + x) = Suc r"
proof -
  have "r * c + x + c - 1 = (x - 1) + Suc r * c" using assms by simp
  moreover have "((x - 1) + Suc r * c) div c = Suc r" using assms by (subst div_mult_self1) simp_all
  ultimately show ?thesis by (simp add: num_prefix_blocks_def)
qed

lemma prefix_key_mult: "i < r \<Longrightarrow> prefix_key c hs (r * c) i = block_key c hs i"
proof -
  assume "i < r"
  then have "(i + 1) * c \<le> r * c" by (intro mult_le_mono1) simp
  then show ?thesis by (simp add: prefix_key_def)
qed

lemma prefix_key_partial:
  assumes "0 < x" "x < c"
  shows "prefix_key c hs (r * c + x) i = (if i < r then block_key c hs i else hs ! (r * c + x - 1))"
proof -
  have "(i + 1) * c \<le> r * c + x \<longleftrightarrow> i < r"
  proof
    assume "i < r"
    then have "(i + 1) * c \<le> r * c" by (intro mult_le_mono1) simp
    then show "(i + 1) * c \<le> r * c + x" by simp
  next
    assume "(i + 1) * c \<le> r * c + x"
    then have "(i + 1) * c < (r + 1) * c" using assms unfolding distrib_right by linarith
    then have "i + 1 < r + 1" by (rule mult_less_cancel2 [THEN iffD1, THEN conjunct2])
    then show "i < r" by simp
  qed
  then show ?thesis by (simp add: prefix_key_def)
qed

lemma prefix_hit_mult:
  "c > 0 \<Longrightarrow> prefix_hit p gids c hs (r * c) \<longleftrightarrow> r * c \<le> length hs \<and> (\<forall>i < r. cached_in p gids (block_key c hs i))"
  by (simp add: prefix_hit_def num_prefix_mult prefix_key_mult)

lemma prefix_hit_partial:
  assumes "0 < x" "x < c"
  shows "prefix_hit p gids c hs (r * c + x) \<longleftrightarrow> r * c + x \<le> length hs \<and> (\<forall>i < r. cached_in p gids (block_key c hs i))
    \<and> cached_in p gids (hs ! (r * c + x - 1))"
  using assms by (auto simp: prefix_hit_def num_prefix_partial prefix_key_partial less_Suc_eq)

text \<open>The run of phase 1.\<close>

definition run_length :: "block_pool \<Rightarrow> int list \<Rightarrow> nat \<Rightarrow> block_hash list \<Rightarrow> nat \<Rightarrow> nat" where
  "run_length p gids c hs m = length (takeWhile (cached_in p gids) (take m (map (block_key c hs) [0..<length hs div c])))"

lemma run_length_props:
  assumes "c > 0"
  shows "run_length p gids c hs m \<le> min m (length hs div c)"
    "\<And>i. i < run_length p gids c hs m \<Longrightarrow> cached_in p gids (block_key c hs i)"
    "run_length p gids c hs m = min m (length hs div c) \<or> \<not> cached_in p gids (block_key c hs (run_length p gids c hs m))"
    "takeWhile (cached_in p gids) (take m (map (block_key c hs) [0..<length hs div c])) = map (block_key c hs) [0..<run_length p gids c hs m]"
proof -
  let ?l = "take m (map (block_key c hs) [0..<length hs div c])" and ?r = "run_length p gids c hs m"
  have l: "?l = map (block_key c hs) [0..<min m (length hs div c)]" by (simp add: take_map min_def)
  show le: "?r \<le> min m (length hs div c)" using length_takeWhile_le [of "cached_in p gids" ?l] by (simp add: run_length_def)
  show "cached_in p gids (block_key c hs i)" if "i < ?r" for i
    using that nth_mem [of i "takeWhile (cached_in p gids) ?l"] takeWhile_nth [of i "cached_in p gids" ?l] le
    by (force simp: run_length_def dest: set_takeWhileD)
  show "?r = min m (length hs div c) \<or> \<not> cached_in p gids (block_key c hs ?r)"
  proof (rule ccontr)
    assume "\<not> ?thesis"
    then have "?r < min m (length hs div c)" "cached_in p gids (block_key c hs ?r)" using le by auto
    with nth_length_takeWhile [of "cached_in p gids" ?l] show False by (simp add: run_length_def)
  qed
  have "takeWhile (cached_in p gids) ?l = take ?r ?l" unfolding run_length_def by (rule takeWhile_eq_take)
  then show "takeWhile (cached_in p gids) ?l = map (block_key c hs) [0..<?r]" using le unfolding l by (simp add: take_map)
qed

text \<open>The views of the hash list that the search reads.\<close>

lemma coarse_view:
  assumes "H > 0" "c > 0" "a > 0" "\<not> (a < int c * H \<and> int c * H mod a = 0)"
  shows "\<exists>l. resolve_block_hashes (RawHashes hs) H (int c * H) True (Some a) = Inr l
    \<and> bhl_from l 0 = Inr (map (block_key c hs) [0..<length hs div c])"
proof -
  have "resolve_block_hashes (RawHashes hs) H (int c * H) True (Some a) = resolve_block_hashes (RawHashes hs) H (int c * H) False None"
    using assms by (auto simp: resolve_block_hashes_def Let_def)
  with resolve_raw [OF assms(1,2), of hs] show ?thesis by (auto simp: block_key_def [abs_def] dest!: spec [of _ 0])
qed

lemma fine_view:
  assumes "H > 0" "c > 1"
  shows "resolve_block_hashes (RawHashes hs) H (int c * H) True (Some H) = Inr (RawHashes hs)"
    "\<exists>l. block_hash_list_with_block_size hs H (int c * H) = Inr l \<and> bhl_from l 0 = Inr (map (block_key c hs) [0..<length hs div c])"
proof -
  have ne: "int c * H \<noteq> H" using assms by simp
  show "resolve_block_hashes (RawHashes hs) H (int c * H) True (Some H) = Inr (RawHashes hs)"
    using assms ne by (simp add: resolve_block_hashes_def)
  have "resolve_block_hashes (RawHashes hs) H (int c * H) False None = block_hash_list_with_block_size hs H (int c * H)"
    using assms ne by (simp add: resolve_block_hashes_def)
  with resolve_raw [OF assms(1), of c hs] assms(2)
  show "\<exists>l. block_hash_list_with_block_size hs H (int c * H) = Inr l \<and> bhl_from l 0 = Inr (map (block_key c hs) [0..<length hs div c])"
    by (auto simp: block_key_def [abs_def] dest!: spec [of _ 0])
qed

lemma probe_tail_spec:
  assumes "index_wf p" "groups_ok gids" "\<forall>i \<in> set is'. 0 \<le> i \<and> i < int (length hs)"
  shows "probe_tail is' (RawHashes hs) gids p
    = Inr (map_option (\<lambda>i. (i, map (found_at p (hs ! nat i)) gids)) (List.find (\<lambda>i. cached_in p gids (hs ! nat i)) is'))"
  using assms(3)
proof (induction is')
  case (Cons i is')
  then show ?case using lookup_hit_spec [OF assms(1,2), of "hs ! nat i"] by (simp add: bhl_get_def py_index_nth)
qed simp

lemma find_rev_upto_None: "List.find P (rev [a..b]) = None \<longleftrightarrow> (\<forall>i. a \<le> i \<and> i \<le> b \<longrightarrow> \<not> P i)"
  by (auto simp: find_None_iff)

lemma find_rev_upto_Some:
  "List.find P (rev [a..b]) = Some i \<Longrightarrow> a \<le> i \<and> i \<le> b \<and> P i \<and> (\<forall>j. i < j \<and> j \<le> b \<longrightarrow> \<not> P j)"
proof (induction "nat (b - a + 1)" arbitrary: b)
  case 0
  then have "[a..b] = []" by simp
  with 0(2) show ?case by simp
next
  case (Suc n)
  then have "rev [a..b] = b # rev [a..b - 1]" "a \<le> b" by (simp_all add: upto_rec2)
  show ?case
  proof (cases "P b")
    case True
    with Suc(3) \<open>rev [a..b] = b # rev [a..b - 1]\<close> \<open>a \<le> b\<close> show ?thesis by auto
  next
    case False
    with Suc(3) \<open>rev [a..b] = b # rev [a..b - 1]\<close> have "List.find P (rev [a..b - 1]) = Some i" by simp
    with Suc(1) [of "b - 1"] Suc(2) have "a \<le> i \<and> i \<le> b - 1 \<and> P i" "\<And>j. i < j \<Longrightarrow> j \<le> b - 1 \<Longrightarrow> \<not> P j" by auto
    moreover have "j = b \<or> j \<le> b - 1" if "j \<le> b" for j using that by linarith
    ultimately show ?thesis using False by force
  qed
qed

text \<open>The greatest prefix of hits, in hash blocks, that a search of granularity \<open>unit\<close> may return.\<close>

definition longest_prefix :: "block_pool \<Rightarrow> int list \<Rightarrow> nat \<Rightarrow> block_hash list \<Rightarrow> nat \<Rightarrow> int \<Rightarrow> int \<Rightarrow> nat \<Rightarrow> bool" where
  "longest_prefix p gids c hs unit H max_length u \<longleftrightarrow> prefix_hit p gids c hs u \<and> unit dvd u \<and> int u * H \<le> max_length
     \<and> (\<forall>v. prefix_hit p gids c hs v \<and> unit dvd v \<and> int v * H \<le> max_length \<longrightarrow> v \<le> u)"

lemma tokens_le_div: "0 < H \<Longrightarrow> 0 < c \<Longrightarrow> int (r * c) * H \<le> m \<longleftrightarrow> int r \<le> m div (int c * H)"
  by (simp add: le_div_iff_mult_le_int mult.assoc)

lemma run_is_longest:
  assumes "H > 0" "c > 0" "0 \<le> max_length" "r = run_length p gids c hs (nat (max_length div (int c * H)))"
  shows "longest_prefix p gids c hs c H max_length (r * c)"
proof -
  let ?m = "nat (max_length div (int c * H))"
  note rp = run_length_props [OF assms(2), where p = p and gids = gids and hs = hs and m = ?m, folded assms(4)]
  have m0: "0 \<le> max_length div (int c * H)" using assms by (simp add: pos_imp_zdiv_nonneg_iff)
  have "r * c \<le> length hs" using rp(1) assms(2) by (simp add: less_eq_div_iff_mult_less_eq)
  then have "prefix_hit p gids c hs (r * c)" using rp(2) by (simp add: prefix_hit_mult assms(2))
  moreover have "int (r * c) * H \<le> max_length" using tokens_le_div [OF assms(1,2), of r max_length] rp(1) m0 by linarith
  moreover have "v \<le> r * c" if v: "prefix_hit p gids c hs v" "c dvd v" "int v * H \<le> max_length" for v
  proof -
    obtain x where x: "v = x * c" using v(2) by (metis dvd_def mult.commute)
    have "x * c \<le> length hs" "\<forall>i < x. cached_in p gids (block_key c hs i)" using v(1) assms(2) unfolding x by (simp_all add: prefix_hit_mult)
    moreover have "x \<le> ?m" using tokens_le_div [OF assms(1,2), of x max_length] v(3) unfolding x by simp
    moreover have "x \<le> length hs div c" using calculation(1) assms(2) by (simp add: less_eq_div_iff_mult_less_eq)
    ultimately have "\<not> r < x" using rp(3) by auto
    then show ?thesis unfolding x by (intro mult_le_mono1) simp
  qed
  ultimately show ?thesis by (simp add: longest_prefix_def)
qed

lemma beyond_run:
  assumes "H > 0" "c > 0" and lp: "longest_prefix p gids c hs c H max_length (r * c)"
    and v: "prefix_hit p gids c hs v" "int v * H \<le> max_length" "r * c < v"
  shows "v < r * c + c" "cached_in p gids (hs ! (v - 1))"
proof -
  define y z where yz: "y = v div c" "z = v mod c"
  have vz: "v = y * c + z" "z < c" using assms(2) by (simp_all add: yz)
  have "prefix_hit p gids c hs (y * c)"
    using v(1) vz by (cases "z = 0") (auto simp: prefix_hit_partial prefix_hit_mult assms(2))
  moreover have "int (y * c) * H \<le> int v * H" using vz assms(1) by simp
  ultimately have "y * c \<le> r * c" using lp v(2) unfolding longest_prefix_def by (meson dvd_triv_right order_trans)
  then show "v < r * c + c" using vz by linarith
  have "0 < z" using \<open>y * c \<le> r * c\<close> v(3) vz by linarith
  with v(1) vz show "cached_in p gids (hs ! (v - 1))" by (simp add: prefix_hit_partial)
qed

lemma extend_is_longest:
  assumes wf: "index_wf p" "groups_ok gids" and H: "H > 0" "c > 1" "0 \<le> max_length"
    and r: "r = run_length p gids c hs (nat (max_length div (int c * H)))"
  shows "\<exists>u. extend_partial (RawHashes hs) H (int c * H) max_length gids p (prefix_lists p gids c hs (r * c), int r * (int c * H))
      = Inr (prefix_lists p gids c hs u, int u * H) \<and> longest_prefix p gids c hs 1 H max_length u"
proof -
  have c0: "c > 0" using H by simp
  note lp = run_is_longest [OF H(1) c0 H(3) r, unfolded longest_prefix_def]
  let ?hi = "min (min (int r * int c + int c - 1) (max_length div H)) (int (length hs))"
  let ?P = "\<lambda>i. cached_in p gids (hs ! nat i)"
  let ?f = "List.find ?P (rev [int r * int c..?hi - 1])"
  have ne: "gids \<noteq> []" using wf(2) by (simp add: groups_ok_def)
  have fl: "first_len (prefix_lists p gids c hs (r * c)) = Inr (int r)"
    using first_len_map [OF ne] by (simp add: prefix_lists_def num_prefix_mult c0)
  have pt: "probe_tail (rev [int r * int c..?hi - 1]) (RawHashes hs) gids p = Inr (map_option (\<lambda>i. (i, map (found_at p (hs ! nat i)) gids)) ?f)"
    by (rule probe_tail_spec [OF wf]) (auto intro: order_trans [of 0 "int r * int c"])
  have ext: "extend_partial (RawHashes hs) H (int c * H) max_length gids p (prefix_lists p gids c hs (r * c), int r * (int c * H))
    = Inr (case ?f of None \<Rightarrow> (prefix_lists p gids c hs (r * c), int r * (int c * H))
           | Some i \<Rightarrow> (append_each (prefix_lists p gids c hs (r * c)) (map (found_at p (hs ! nat i)) gids), (i + 1) * H))"
    using pt H by (simp add: extend_partial_def fl bhl_len_def Let_def split: option.split)
  have rest: "prefix_hit p gids c hs v \<Longrightarrow> int v * H \<le> max_length \<Longrightarrow> r * c < v \<Longrightarrow> v < r * c + c \<and> ?P (int v - 1) \<and> int v \<le> ?hi" for v
    using beyond_run [OF H(1) c0 run_is_longest [OF H(1) c0 H(3) r]] H(1)
    by (force simp: le_div_iff_mult_le_int prefix_hit_def nat_diff_distrib' simp flip: of_nat_mult of_nat_add)
  show ?thesis
  proof (cases ?f)
    case None
    then have no: "\<not> ?P i" if "int r * int c \<le> i" "i < ?hi" for i using that find_rev_upto_None [of ?P "int r * int c" "?hi - 1"] by auto
    have "v \<le> r * c" if v: "prefix_hit p gids c hs v" "int v * H \<le> max_length" for v
    proof (rule ccontr)
      assume "\<not> v \<le> r * c"
      with rest [OF v] have "?P (int v - 1)" "int v \<le> ?hi" "r * c < v" by auto
      moreover have "int r * int c \<le> int v - 1" using \<open>r * c < v\<close> by (simp flip: of_nat_mult)
      ultimately show False using no [of "int v - 1"] by simp
    qed
    with None ext lp show ?thesis by (intro exI [of _ "r * c"]) (simp add: longest_prefix_def mult.assoc)
  next
    case (Some i)
    note f = find_rev_upto_Some [OF Some]
    define u where "u = nat i + 1"
    have "0 \<le> i" using f order_trans [of 0 "int r * int c" i] by simp
    then have i: "int u = i + 1" "i = int u - 1" "nat i = u - 1" by (simp_all add: u_def)
    define x where "x = u - r * c"
    have "int (r * c) \<le> i" "i < int (r * c) + int c - 1" using f by (simp_all add: min_le_iff_disj)
    then have x: "u = r * c + x" "0 < x" "x < c" using i(1) unfolding x_def by linarith+
    have "u \<le> length hs" "cached_in p gids (hs ! (u - 1))" using f i(1,3) by simp_all
    moreover have "\<forall>i < r. cached_in p gids (block_key c hs i)" using lp prefix_hit_mult [OF c0] by blast
    ultimately have "prefix_hit p gids c hs u" unfolding x(1) prefix_hit_partial [OF x(2,3)] by blast
    moreover have "int u \<le> max_length div H" using f i(1) by simp
    then have "int u * H \<le> max_length" using H(1) by (simp add: le_div_iff_mult_le_int)
    moreover have "v \<le> u" if v: "prefix_hit p gids c hs v" "int v * H \<le> max_length" for v
    proof (rule ccontr)
      assume "\<not> v \<le> u"
      then have "r * c < v" using x(1) by simp
      then have "?P (int v - 1)" "int v - 1 \<le> ?hi - 1" using rest [OF v] by auto
      moreover have "i < int v - 1" using \<open>\<not> v \<le> u\<close> i(1) by simp
      ultimately show False using f by blast
    qed
    ultimately have "longest_prefix p gids c hs 1 H max_length u" by (simp add: longest_prefix_def)
    moreover have "append_each (prefix_lists p gids c hs (r * c)) (map (found_at p (hs ! nat i)) gids) = prefix_lists p gids c hs u"
      unfolding prefix_lists_def append_each_found num_prefix_mult [OF c0]
      using i(3) x by (simp add: prefix_key_mult prefix_key_partial num_prefix_partial)
    then have "extend_partial (RawHashes hs) H (int c * H) max_length gids p (prefix_lists p gids c hs (r * c), int r * (int c * H))
      = Inr (prefix_lists p gids c hs u, int u * H)" unfolding ext Some option.case i(1) by (rule arg_cong)
    ultimately show ?thesis by blast
  qed
qed

text \<open>
  The granularity of the search: one hash block when it looks inside blocks, a whole block otherwise.
\<close>

definition hit_unit :: "int \<Rightarrow> nat \<Rightarrow> int \<Rightarrow> nat" where
  "hit_unit H c a = (if a < int c * H \<and> int c * H mod a = 0 then 1 else c)"

lemma full_find_spec:
  assumes wf: "index_wf p" "groups_ok gids" and H: "hash_block_size p = H" "H > 0" "c > 0" "0 \<le> max_length" "a > 0"
    and bs: "(if dcp > 1 then sb * dcp else sb) = int c * H" and al: "a < int c * H \<and> int c * H mod a = 0 \<longrightarrow> a = H"
  shows "\<exists>u. longest_prefix p gids c hs (hit_unit H c a) H max_length u
    \<and> full_find_longest_cache_hit hs max_length gids p sb e a dcp = Inr (trim_hit e a (int c * H) (prefix_lists p gids c hs u, int u * H))"
proof -
  let ?bs = "int c * H" and ?m = "nat (max_length div (int c * H))"
  define r where "r = run_length p gids c hs ?m"
  have b0: "?bs > 0" and m0: "(max_length div ?bs < 0) = False" using H by (simp_all add: pos_imp_zdiv_nonneg_iff not_less)
  have ne: "gids \<noteq> []" using wf(2) by (simp add: groups_ok_def)
  have lists: "map (\<lambda>g. map (\<lambda>h. found_at p h g) (map (block_key c hs) [0..<r])) gids = prefix_lists p gids c hs (r * c)"
    using H(3) by (simp add: prefix_lists_def num_prefix_mult prefix_key_mult)
  have run: "full_run (take ?m (map (block_key c hs) [0..<length hs div c])) gids p (map (\<lambda>_. []) gids) = Inr (prefix_lists p gids c hs (r * c))"
    unfolding full_run_spec [OF wf] run_length_props(4) [OF H(3)] append_Nil r_def [symmetric] lists ..
  have fl: "first_len (prefix_lists p gids c hs (r * c)) = Inr (int r)"
    using first_len_map [OF ne] by (simp add: prefix_lists_def num_prefix_mult H(3))
  have nz: "(a = 0 \<or> ?bs = 0) = False" using H by simp
  note eqs = full_find_longest_cache_hit_def Let_def bs H(1) bindE_Inr nz m0 run fl if_True if_False
  show ?thesis
  proof (cases "a < ?bs \<and> ?bs mod a = 0")
    case False
    then obtain l where l: "resolve_block_hashes (RawHashes hs) H ?bs True (Some a) = Inr l"
        "bhl_from l 0 = Inr (map (block_key c hs) [0..<length hs div c])" using coarse_view [OF H(2,3,5)] by blast
    have "full_find_longest_cache_hit hs max_length gids p sb e a dcp = Inr (trim_hit e a ?bs (prefix_lists p gids c hs (r * c), int r * ?bs))"
      using False by (simp only: eqs l simp_thms)
    moreover have "hit_unit H c a = c" unfolding hit_unit_def using False by (rule if_not_P)
    ultimately show ?thesis using run_is_longest [OF H(2,3,4) r_def] by (intro exI [of _ "r * c"]) (simp add: mult.assoc)
  next
    case True
    then have aH: "a = H" and c1: "c > 1" using al H(2,3) by (auto simp: not_less_iff_gr_or_eq intro: ccontr)
    obtain l where l: "block_hash_list_with_block_size hs H ?bs = Inr l"
        "bhl_from l 0 = Inr (map (block_key c hs) [0..<length hs div c])" using fine_view(2) [OF H(2) c1] by blast
    obtain u where u: "extend_partial (RawHashes hs) H ?bs max_length gids p (prefix_lists p gids c hs (r * c), int r * ?bs)
        = Inr (prefix_lists p gids c hs u, int u * H)" "longest_prefix p gids c hs 1 H max_length u"
      using extend_is_longest [OF wf H(2) c1 H(4) r_def] by blast
    have "full_find_longest_cache_hit hs max_length gids p sb e a dcp = Inr (trim_hit e a ?bs (prefix_lists p gids c hs u, int u * H))"
      using True by (simp only: aH eqs [unfolded aH] fine_view(1) [OF H(2) c1] l u(1) simp_thms)
    moreover have "hit_unit H c a = 1" using True by (simp add: hit_unit_def)
    ultimately show ?thesis using u(2) by auto
  qed
qed

subsection \<open>Sliding window: the longest cached window\<close>

text \<open>
  A length of \<open>e\<close> blocks is a hit when its last \<open>need\<close> blocks (all of them, if there are fewer) are cached and
  it is aligned, counting one block less under EAGLE.
\<close>

definition aligned_end :: "int \<Rightarrow> int \<Rightarrow> bool \<Rightarrow> nat \<Rightarrow> bool" where
  "aligned_end bs a drop_eagle e \<longleftrightarrow> bs = a \<or> (if drop_eagle then int e - 1 else int e) * bs mod a = 0"

definition window_hit :: "block_pool \<Rightarrow> int list \<Rightarrow> nat \<Rightarrow> block_hash list \<Rightarrow> int \<Rightarrow> int \<Rightarrow> bool \<Rightarrow> nat \<Rightarrow> nat \<Rightarrow> bool" where
  "window_hit p gids c hs bs a drop_eagle need e \<longleftrightarrow> (e = 0 \<or> aligned_end bs a drop_eagle e)
     \<and> (\<forall>i. e - need \<le> i \<and> i < e \<longrightarrow> cached_in p gids (block_key c hs i))"

definition window_lists :: "block_pool \<Rightarrow> int list \<Rightarrow> nat \<Rightarrow> block_hash list \<Rightarrow> nat \<Rightarrow> nat \<Rightarrow> block_ref list list" where
  "window_lists p gids c hs s e = map (\<lambda>g. replicate s null_block @ map (\<lambda>i. found_at p (block_key c hs i) g) [s..<e]) gids"

text \<open>The invariant of the loop at index \<open>i\<close>, with a run of \<open>n\<close> hits above it, in lists of length \<open>m\<close>.\<close>

definition swa_state :: "block_pool \<Rightarrow> int list \<Rightarrow> nat \<Rightarrow> block_hash list \<Rightarrow> int \<Rightarrow> int \<Rightarrow> bool \<Rightarrow> nat \<Rightarrow> nat \<Rightarrow> nat \<Rightarrow> nat \<Rightarrow> block_ref list list \<Rightarrow> bool" where
  "swa_state p gids c hs bs a d need m i n computed \<longleftrightarrow> n < need \<and> i + n \<le> m
     \<and> (0 < n \<longrightarrow> aligned_end bs a d (i + n)) \<and> (\<forall>x. i \<le> x \<and> x < i + n \<longrightarrow> cached_in p gids (block_key c hs x))
     \<and> (\<forall>e. i + n < e \<and> e \<le> m \<longrightarrow> \<not> window_hit p gids c hs bs a d need e)
     \<and> (\<exists>f. computed = map f gids \<and> (\<forall>g. length (f g) = m \<and> take (i + n) (f g) = replicate i null_block @ map (\<lambda>x. found_at p (block_key c hs x) g) [i..<i + n]))"

lemma swa_state_miss:
  assumes "swa_state p gids c hs bs a d need m (Suc i) n computed" "\<not> cached_in p gids (block_key c hs i)"
  shows "swa_state p gids c hs bs a d need m i 0 computed"
proof -
  obtain f where f: "computed = map f gids" "\<forall>g. length (f g) = m \<and> take (Suc i + n) (f g) = replicate (Suc i) null_block @ map (\<lambda>x. found_at p (block_key c hs x) g) [Suc i..<Suc i + n]"
    using assms(1) unfolding swa_state_def by blast
  have "take i (f g) = replicate i null_block" for g
  proof -
    have e: "take (Suc i + n) (f g) = replicate (Suc i) null_block @ map (\<lambda>x. found_at p (block_key c hs x) g) [Suc i..<Suc i + n]"
      using f(2) by blast
    have "take i (f g) = take i (take (Suc i + n) (f g))" by simp
    also have "\<dots> = replicate i null_block" unfolding e by (simp del: replicate_Suc)
    finally show ?thesis .
  qed
  moreover have "\<not> window_hit p gids c hs bs a d need e" if "i < e" "e \<le> m" for e
  proof (cases "Suc i + n < e")
    case False
    moreover have "n < need" using assms(1) by (simp add: swa_state_def)
    ultimately have "e - need \<le> i" using that by linarith
    with that(1) assms(2) show ?thesis by (auto simp: window_hit_def)
  qed (use assms(1) that in \<open>simp add: swa_state_def\<close>)
  ultimately show ?thesis using assms(1) f by (auto simp: swa_state_def)
qed

lemma swa_state_skip:
  assumes "swa_state p gids c hs bs a d need m (Suc i) 0 computed" "\<not> aligned_end bs a d (Suc i)"
  shows "swa_state p gids c hs bs a d need m i 0 computed"
proof -
  have "\<not> window_hit p gids c hs bs a d need e" if "i < e" "e \<le> m" for e
    using assms that by (cases "e = Suc i") (auto simp: swa_state_def window_hit_def)
  moreover obtain f where f: "computed = map f gids" "\<forall>g. length (f g) = m \<and> take (Suc i) (f g) = replicate (Suc i) null_block"
    using assms(1) unfolding swa_state_def by auto
  moreover have "take i (f g) = replicate i null_block" for g
    using arg_cong [OF conjunct2 [OF f(2) [rule_format, of g]], of "take i"] by (simp del: replicate_Suc take_Suc)
  ultimately show ?thesis using assms(1) by (auto simp: swa_state_def)
qed

lemma swa_hit_lists: "map2 (\<lambda>xs b. xs[i := b]) (map f gids) (map k gids) = map (\<lambda>g. (f g)[i := k g]) gids"
  by (induction gids) simp_all

lemma swa_state_hit:
  assumes st: "swa_state p gids c hs bs a d need m (Suc i) n (map f gids)" and h: "cached_in p gids (block_key c hs i)"
    and al: "n = 0 \<longrightarrow> aligned_end bs a d (Suc i)"
    and fg: "\<forall>g. length (f g) = m \<and> take (Suc i + n) (f g) = replicate (Suc i) null_block @ map (\<lambda>x. found_at p (block_key c hs x) g) [Suc i..<Suc i + n]"
    and f': "\<And>g. f' g = (f g)[i := found_at p (block_key c hs i) g]"
  shows "aligned_end bs a d (i + Suc n)" "\<forall>x. i \<le> x \<and> x < i + Suc n \<longrightarrow> cached_in p gids (block_key c hs x)"
    "\<forall>e. i + Suc n < e \<and> e \<le> m \<longrightarrow> \<not> window_hit p gids c hs bs a d need e" "i + Suc n \<le> m"
    "\<forall>g. length (f' g) = m \<and> take (i + Suc n) (f' g) = replicate i null_block @ map (\<lambda>x. found_at p (block_key c hs x) g) [i..<i + Suc n]"
proof -
  show "aligned_end bs a d (i + Suc n)" "\<forall>e. i + Suc n < e \<and> e \<le> m \<longrightarrow> \<not> window_hit p gids c hs bs a d need e" "i + Suc n \<le> m"
    using st al by (auto simp: swa_state_def)
  show "\<forall>x. i \<le> x \<and> x < i + Suc n \<longrightarrow> cached_in p gids (block_key c hs x)"
  proof (intro allI impI)
    fix x assume "i \<le> x \<and> x < i + Suc n"
    then show "cached_in p gids (block_key c hs x)" using st h by (cases "x = i") (simp_all add: swa_state_def)
  qed
  show "\<forall>g. length (f' g) = m \<and> take (i + Suc n) (f' g) = replicate i null_block @ map (\<lambda>x. found_at p (block_key c hs x) g) [i..<i + Suc n]"
  proof
    fix g
    let ?F = "\<lambda>x. found_at p (block_key c hs x) g"
    have "take (i + Suc n) (f' g) = (take (Suc i + n) (f g))[i := ?F i]" by (simp add: f' take_update_swap)
    also have "\<dots> = (replicate i null_block @ null_block # map ?F [Suc i..<Suc i + n])[i := ?F i]"
      using fg by (simp add: replicate_append_same [symmetric])
    also have "\<dots> = replicate i null_block @ map ?F [i..<i + Suc n]" by (simp add: list_update_append upt_conv_Cons del: upt_Suc)
    finally show "length (f' g) = m \<and> take (i + Suc n) (f' g) = replicate i null_block @ map ?F [i..<i + Suc n]" using fg by (simp add: f')
  qed
qed

text \<open>The loop stops at the greatest length that is a hit.\<close>

lemma swa_loop_spec:
  assumes wf: "index_wf p" "groups_ok gids" and get: "\<And>x. x < m \<Longrightarrow> bhl_get l (int x) = Inr (block_key c hs x)"
    and need: "need = nat (max 1 w)"
  shows "swa_state p gids c hs bs a d need m i n computed \<Longrightarrow>
    \<exists>found s e f. swa_loop i l gids p bs a d w computed (int n) = Inr (found, map f gids, int (e - s)) \<and> s \<le> e \<and> e \<le> m
      \<and> window_hit p gids c hs bs a d need e \<and> (\<forall>e'. e < e' \<and> e' \<le> m \<longrightarrow> \<not> window_hit p gids c hs bs a d need e')
      \<and> s = e - need \<and> (found \<longrightarrow> (\<forall>g. f g = replicate s null_block @ map (\<lambda>x. found_at p (block_key c hs x) g) [s..<e]))
      \<and> (\<not> found \<longrightarrow> s = 0 \<and> (\<forall>g. take e (f g) = map (\<lambda>x. found_at p (block_key c hs x) g) [0..<e]))"
proof (induction i arbitrary: n computed)
  case 0
  then obtain f where f: "computed = map f gids" "\<forall>g. take n (f g) = map (\<lambda>x. found_at p (block_key c hs x) g) [0..<n]"
    unfolding swa_state_def by auto
  have "window_hit p gids c hs bs a d need n" using 0 by (auto simp: swa_state_def window_hit_def)
  with 0 f show ?case by (intro exI [of _ False] exI [of _ 0] exI [of _ n] exI [of _ f]) (simp add: swa_state_def)
next
  case (Suc i)
  obtain f where f: "computed = map f gids" "\<forall>g. length (f g) = m \<and> take (Suc i + n) (f g) = replicate (Suc i) null_block @ map (\<lambda>x. found_at p (block_key c hs x) g) [Suc i..<Suc i + n]"
    using Suc.prems unfolding swa_state_def by blast
  have im: "i < m" using Suc.prems by (simp add: swa_state_def)
  note lk = get [OF im] lookup_hit_spec [OF wf, of "block_key c hs i"]
  show ?case
  proof (cases "cached_in p gids (block_key c hs i)")
    case False
    then show ?thesis using Suc.IH [OF swa_state_miss [OF Suc.prems False]] lk by simp
  next
    case True
    have ali: "aligned_end bs a d (Suc i) \<longleftrightarrow> \<not> (bs \<noteq> a \<and> (if d then int i else int i + 1) * bs mod a \<noteq> 0)"
      by (simp add: aligned_end_def add.commute)
    show ?thesis
    proof (cases "n = 0 \<and> \<not> aligned_end bs a d (Suc i)")
      case True': True
      then show ?thesis using Suc.IH [OF swa_state_skip, of computed] Suc.prems lk True ali by simp
    next
      case False
      define f' where "f' = (\<lambda>g. (f g)[i := found_at p (block_key c hs i) g])"
      have h: "aligned_end bs a d (i + Suc n)" "\<forall>x. i \<le> x \<and> x < i + Suc n \<longrightarrow> cached_in p gids (block_key c hs x)"
        "\<forall>e. i + Suc n < e \<and> e \<le> m \<longrightarrow> \<not> window_hit p gids c hs bs a d need e" "i + Suc n \<le> m"
        "\<forall>g. length (f' g) = m \<and> take (i + Suc n) (f' g) = replicate i null_block @ map (\<lambda>x. found_at p (block_key c hs x) g) [i..<i + Suc n]"
        using swa_state_hit [of p gids c hs bs a d need m i n f f'] Suc.prems f True False by (auto simp: f'_def)
      have cond: "(int n = 0 \<and> bs \<noteq> a \<and> (if d then int i else int i + 1) * bs mod a \<noteq> 0) = False" using False ali by auto
      have ns: "int n + 1 = int (Suc n)" by simp
      have loop: "swa_loop (Suc i) l gids p bs a d w computed (int n) = (if w \<le> int (Suc n) then Inr (True, map (take (i + Suc n)) (map f' gids), int (Suc n))
          else swa_loop i l gids p bs a d w (map f' gids) (int (Suc n)))"
        by (simp only: swa_loop.simps lk True if_True bindE_Inr option.case cond if_False Let_def f(1) swa_hit_lists ns nat_int f'_def)
      show ?thesis
      proof (cases "w \<le> int (Suc n)")
        case True'': True
        have ne: "need = Suc n" using Suc.prems True'' need by (auto simp: swa_state_def)
        then have "window_hit p gids c hs bs a d need (i + Suc n)" using h(1,2) by (simp add: window_hit_def)
        with h ne True'' loop show ?thesis
          by (intro exI [of _ True] exI [of _ i] exI [of _ "i + Suc n"] exI [of _ "\<lambda>g. take (i + Suc n) (f' g)"]) simp
      next
        case False'': False
        then have "Suc n < need" using need by auto
        then have "swa_state p gids c hs bs a d need m i (Suc n) (map f' gids)" using h unfolding swa_state_def by blast
        from Suc.IH [OF this] show ?thesis unfolding loop if_not_P [OF False''] .
      qed
    qed
  qed
qed

text \<open>Popping to an aligned length.\<close>

lemma butlast_map: "map butlast (map f gids) = map (\<lambda>g. take (n - 1) (f g)) gids" if "\<And>g. length (f g) = n" for f :: "int \<Rightarrow> block_ref list"
  using that by (simp add: butlast_conv_take)

lemma pop_unaligned_spec:
  assumes "gids \<noteq> []" "\<And>g :: int. length (f g) = n"
  shows "\<exists>k \<le> n. pop_unaligned bs a (map f gids) = map (\<lambda>g. take k (f g)) gids \<and> (bs = a \<or> int k * bs mod a = 0)
    \<and> ((bs = a \<or> int n * bs mod a = 0) \<longrightarrow> k = n)"
  using assms(2)
proof (induction n arbitrary: f)
  case 0
  have "length (hd (map f gids)) = 0" using assms(1) 0 by (cases gids) simp_all
  then have "pop_unaligned bs a (map f gids) = map f gids" by (subst pop_unaligned.simps) simp
  moreover have "map (\<lambda>g. take 0 (f g)) gids = map f gids" using 0 by simp
  ultimately show ?case by (intro exI [of _ 0]) simp
next
  case (Suc n)
  have hd: "length (hd (map f gids)) = Suc n" using assms(1) Suc.prems by (cases gids) simp_all
  show ?case
  proof (cases "bs = a \<or> int (Suc n) * bs mod a = 0")
    case True
    then have "pop_unaligned bs a (map f gids) = map f gids" using hd by (subst pop_unaligned.simps) (auto simp del: of_nat_Suc)
    with True Suc.prems show ?thesis by (intro exI [of _ "Suc n"]) simp
  next
    case False
    then have "pop_unaligned bs a (map f gids) = pop_unaligned bs a (map (\<lambda>g. take n (f g)) gids)"
      using hd assms(1) butlast_map [of f "Suc n" gids, OF Suc.prems]
      by (subst pop_unaligned.simps) (simp del: of_nat_Suc map_map)
    moreover have len: "\<And>g. length (take n (f g)) = n" using Suc.prems by simp
    moreover obtain k where "k \<le> n" "pop_unaligned bs a (map (\<lambda>g. take n (f g)) gids) = map (\<lambda>g. take k (take n (f g))) gids"
        "bs = a \<or> int k * bs mod a = 0"
      using Suc.IH [where f = "\<lambda>g. take n (f g)", OF len] by (elim exE conjE) (rule that; assumption)
    ultimately show ?thesis using False by (intro exI [of _ k]) (simp add: min_def)
  qed
qed

lemma window_lists_take: "s \<le> k \<Longrightarrow> k \<le> e \<Longrightarrow> map (take k) (window_lists p gids c hs s e) = window_lists p gids c hs s k"
  by (simp add: window_lists_def take_map min_def)

lemma pop_window_lists:
  assumes "gids \<noteq> []" "s = 0 \<or> bs = a \<or> int e * bs mod a = 0" "s \<le> e"
  shows "\<exists>k \<le> e. pop_unaligned bs a (window_lists p gids c hs s e) = window_lists p gids c hs s k \<and> s \<le> k
    \<and> (bs = a \<or> int k * bs mod a = 0) \<and> ((bs = a \<or> int e * bs mod a = 0) \<longrightarrow> k = e)"
proof -
  let ?f = "\<lambda>g. replicate s null_block @ map (\<lambda>i. found_at p (block_key c hs i) g) [s..<e]"
  obtain k where k: "k \<le> e" "pop_unaligned bs a (map ?f gids) = map (\<lambda>g. take k (?f g)) gids"
      "bs = a \<or> int k * bs mod a = 0" "(bs = a \<or> int e * bs mod a = 0) \<longrightarrow> k = e"
    using pop_unaligned_spec [OF assms(1), of ?f e bs a] assms(3) by auto
  then have "s \<le> k" using assms(2,3) by auto
  then show ?thesis using k window_lists_take [of s k e p gids c hs]
    by (intro exI [of _ k]) (simp add: window_lists_def comp_def)
qed

lemma first_len_window: "gids \<noteq> [] \<Longrightarrow> s \<le> e \<Longrightarrow> first_len (window_lists p gids c hs s e) = Inr (int e)"
  unfolding window_lists_def by (intro first_len_map) simp_all

lemma butlast_window: "s < e \<Longrightarrow> map butlast (window_lists p gids c hs s e) = window_lists p gids c hs s (e - 1)"
proof -
  assume "s < e"
  then obtain d where "e = Suc d" "s \<le> d" by (cases e) auto
  then show ?thesis by (simp add: window_lists_def butlast_append)
qed

lemma coarse_view_only:
  assumes "H > 0" "c > 0"
  shows "\<exists>l. resolve_block_hashes (RawHashes hs) H (int c * H) False (Some a) = Inr l
    \<and> (\<forall>i < length hs div c. bhl_get l (int i) = Inr (block_key c hs i))"
proof -
  have "resolve_block_hashes (RawHashes hs) H (int c * H) False (Some a) = resolve_block_hashes (RawHashes hs) H (int c * H) False None"
    using assms by (auto simp: resolve_block_hashes_def Let_def)
  with resolve_raw [OF assms, of hs] show ?thesis by (auto simp: block_key_def)
qed

text \<open>
  The search for a sliding window: the blocks \<open>s\<close> to \<open>k - 1\<close> are cached, and they are the whole window before the
  end of the hit or the whole prefix. Without EAGLE, or when hits are aligned to blocks, no longer hit exists.
\<close>

lemma swa_find_spec:
  assumes wf: "index_wf p" "groups_ok gids" and H: "hash_block_size p = H" "H > 0" "c > 0" "a \<noteq> 0"
    and bs: "bs = int c * H" and m: "m = nat (max_length div bs)" "m \<le> length hs div c"
    and need: "need = nat (max 1 (contiguous_blocks_for_hit w bs d))"
  shows "\<exists>e s k. swa_find_longest_cache_hit hs max_length gids p bs w d a 1 1 = Inr (window_lists p gids c hs s k, int k * bs)
    \<and> s \<le> k \<and> k \<le> e \<and> e \<le> m \<and> s = e - need \<and> window_hit p gids c hs bs a d need e
    \<and> (\<forall>e'. e < e' \<and> e' \<le> m \<longrightarrow> \<not> window_hit p gids c hs bs a d need e') \<and> (bs = a \<or> int k * bs mod a = 0)
    \<and> (\<not> d \<longrightarrow> k = e) \<and> (d \<and> (bs = a \<or> 0 < s) \<longrightarrow> k = e - 1) \<and> (0 < s \<longrightarrow> need \<le> k + 1 - s) \<and> (d \<longrightarrow> k \<le> e - 1)"
proof -
  have ne: "gids \<noteq> []" using wf(2) by (simp add: groups_ok_def)
  obtain l where l: "resolve_block_hashes (RawHashes hs) H bs False (Some a) = Inr l" "\<forall>i < length hs div c. bhl_get l (int i) = Inr (block_key c hs i)"
    using coarse_view_only [OF H(2,3)] unfolding bs by blast
  have get: "\<And>x. x < m \<Longrightarrow> bhl_get l (int x) = Inr (block_key c hs x)" using l(2) m(2) by auto
  have init: "swa_state p gids c hs bs a d need m m 0 (map (\<lambda>_. replicate m null_block) gids)"
    using need by (auto simp: swa_state_def)
  obtain found s e f where lp: "swa_loop m l gids p bs a d (contiguous_blocks_for_hit w bs d) (map (\<lambda>_. replicate m null_block) gids) (int 0)
      = Inr (found, map f gids, int (e - s))" "s \<le> e" "e \<le> m" "window_hit p gids c hs bs a d need e"
      "\<forall>e'. e < e' \<and> e' \<le> m \<longrightarrow> \<not> window_hit p gids c hs bs a d need e'" "s = e - need"
      "found \<longrightarrow> (\<forall>g. f g = replicate s null_block @ map (\<lambda>x. found_at p (block_key c hs x) g) [s..<e])"
      "\<not> found \<longrightarrow> s = 0 \<and> (\<forall>g. take e (f g) = map (\<lambda>x. found_at p (block_key c hs x) g) [0..<e])"
    using swa_loop_spec [OF wf get need init] by blast
  have al: "e = 0 \<or> bs = a \<or> (if d then int e - 1 else int e) * bs mod a = 0" using lp(4) by (simp add: window_hit_def aligned_end_def)
  have nz: "(bs = 0 \<or> a = 0) = False" using bs H by simp
  define c1 where "c1 = (if found then map f gids else pop_unaligned bs a (map (take (nat (int (e - s)))) (map f gids)))"
  have find: "swa_find_longest_cache_hit hs max_length gids p bs w d a 1 1 = bindE (first_len c1) (\<lambda>k.
      let c2 = (if d \<and> k > 0 then pop_unaligned bs a (map butlast c1) else c1) in bindE (first_len c2) (\<lambda>k'. Inr (c2, k' * bs)))"
    unfolding c1_def using lp(1) nz by (simp add: swa_find_longest_cache_hit_def assertE_def H(1) l(1) m(1) [symmetric] Let_def)
  obtain e1 where e1: "c1 = window_lists p gids c hs s e1" "s \<le> e1" "e1 \<le> e" "bs = a \<or> \<not> d \<or> 0 < s \<longrightarrow> e1 = e"
      "\<not> d \<longrightarrow> bs = a \<or> int e1 * bs mod a = 0"
  proof (cases found)
    case True
    then have "c1 = window_lists p gids c hs s e" using lp(7) by (simp add: c1_def window_lists_def)
    moreover have "\<not> d \<longrightarrow> bs = a \<or> int e * bs mod a = 0" using al by auto
    ultimately show ?thesis using lp(2) that [of e] by blast
  next
    case False
    then have "c1 = pop_unaligned bs a (window_lists p gids c hs 0 e)" "s = 0" using lp(8) by (simp_all add: c1_def window_lists_def comp_def)
    moreover obtain k where "k \<le> e" "pop_unaligned bs a (window_lists p gids c hs 0 e) = window_lists p gids c hs 0 k"
        "bs = a \<or> int k * bs mod a = 0" "(bs = a \<or> int e * bs mod a = 0) \<longrightarrow> k = e"
      using pop_window_lists [OF ne, of 0 bs a e p c hs] by auto
    moreover have "\<not> d \<longrightarrow> bs = a \<or> int e * bs mod a = 0" using al by auto
    ultimately show ?thesis using that [of k] by auto
  qed
  note fl = first_len_window [OF ne, where p = p and c = c and hs = hs]
  have final: ?thesis if "swa_find_longest_cache_hit hs max_length gids p bs w d a 1 1 = Inr (window_lists p gids c hs s k, int k * bs)"
      "s \<le> k" "k \<le> e" "bs = a \<or> int k * bs mod a = 0" "\<not> d \<longrightarrow> k = e" "d \<and> (bs = a \<or> 0 < s) \<longrightarrow> k = e - 1" "d \<longrightarrow> k \<le> e - 1" for k
  proof -
    have "0 < s \<longrightarrow> need \<le> k + 1 - s" using that(5,6) lp(6) by auto
    with that lp(3-6) show ?thesis by (intro exI [of _ e] exI [of _ s] exI [of _ k] conjI; assumption?)
  qed
  show ?thesis
  proof (cases "d \<and> 0 < e1")
    case False
    then have "swa_find_longest_cache_hit hs max_length gids p bs w d a 1 1 = Inr (window_lists p gids c hs s e1, int e1 * bs)"
      unfolding find e1(1) fl [OF e1(2)] by (auto simp: Let_def fl [OF e1(2)])
    moreover have "bs = a \<or> int e1 * bs mod a = 0" using e1(5) False by auto
    moreover have "\<not> d \<longrightarrow> e1 = e" "d \<and> (bs = a \<or> 0 < s) \<longrightarrow> e1 = e - 1" "d \<longrightarrow> e1 \<le> e - 1" using e1(4) False by auto
    ultimately show ?thesis using e1(2,3) by (intro final [of e1])
  next
    case True
    have s1: "s < e1" using True e1 lp(2,6) need by (cases "s = 0") auto
    have "s = 0 \<or> bs = a \<or> int (e1 - 1) * bs mod a = 0" using al e1(4) True by (cases "s = 0") auto
    then obtain k where k: "k \<le> e1 - 1" "pop_unaligned bs a (window_lists p gids c hs s (e1 - 1)) = window_lists p gids c hs s k" "s \<le> k"
        "bs = a \<or> int k * bs mod a = 0" "(bs = a \<or> int (e1 - 1) * bs mod a = 0) \<longrightarrow> k = e1 - 1"
      using pop_window_lists [OF ne, of s bs a "e1 - 1" p c hs] s1 by auto
    have "swa_find_longest_cache_hit hs max_length gids p bs w d a 1 1 = Inr (window_lists p gids c hs s k, int k * bs)"
      unfolding find e1(1) fl [OF e1(2)] using True by (simp add: Let_def butlast_window [OF s1] k(2) [simplified] fl [OF k(3)])
    moreover have "d \<and> (bs = a \<or> 0 < s) \<longrightarrow> k = e - 1" using k(5) e1(4) al True by auto
    moreover have "k \<le> e" using k(1) e1(3) by simp
    moreover have "\<not> d \<longrightarrow> k = e" "d \<longrightarrow> k \<le> e - 1" using True k(1) e1(3) by simp_all
    ultimately show ?thesis using k(3,4) by (intro final [of k])
  qed
qed

subsection \<open>Chunked local attention\<close>

lemma takeWhile_upt:
  "a \<le> b \<Longrightarrow> \<exists>k. takeWhile P [a..<b] = [a..<k] \<and> a \<le> k \<and> k \<le> b \<and> (\<forall>x. a \<le> x \<and> x < k \<longrightarrow> P x) \<and> (k = b \<or> \<not> P k)"
proof (induction "b - a" arbitrary: a)
  case (Suc n)
  then have ab: "a < b" by simp
  have pre: "n = b - Suc a" "Suc a \<le> b" using Suc(2) ab by simp_all
  show ?case
  proof (cases "P a")
    case True
    obtain k where k: "takeWhile P [Suc a..<b] = [Suc a..<k]" "Suc a \<le> k" "k \<le> b" "\<forall>x. Suc a \<le> x \<and> x < k \<longrightarrow> P x" "k = b \<or> \<not> P k"
      using Suc(1) [OF pre] by blast
    have "P x" if "a \<le> x \<and> x < k" for x using k(4) True that by (cases "x = a") auto
    moreover have "takeWhile P [a..<b] = [a..<k]" using True ab k(1,2) by (simp add: upt_conv_Cons)
    ultimately show ?thesis using k by (intro exI [of _ k]) simp
  qed (use ab in \<open>auto intro!: exI [of _ a] simp: upt_conv_Cons\<close>)
qed (auto intro!: exI)

lemma chunk_run_spec:
  assumes "index_wf p" "groups_ok gids" "\<And>x. x \<in> set is' \<Longrightarrow> bhl_get l (int x) = Inr (block_key c hs x)"
  shows "chunk_run (map int is') l gids p (map f gids)
    = Inr (map (\<lambda>g. f g @ map (\<lambda>x. found_at p (block_key c hs x) g) (takeWhile (\<lambda>x. cached_in p gids (block_key c hs x)) is')) gids)"
  using assms(3)
proof (induction is' arbitrary: f)
  case (Cons i is')
  then show ?case using lookup_hit_spec [OF assms(1,2), of "block_key c hs i"] by (simp add: append_each_found)
qed simp

text \<open>
  The blocks of earlier chunks are null, those from the start of the chunk that contains the position
  \<open>max_length\<close> are looked up one by one.
\<close>

lemma chunked_find_spec:
  assumes wf: "index_wf p" "groups_ok gids" and H: "hash_block_size p = H" "H > 0" "c > 0" "0 < n" "0 \<le> max_length"
    and bs: "bs = int c * H" and m: "m = nat (max_length div bs)" "m \<le> length hs div c" and s: "s = nat (max_length div n * n div bs)"
  shows "\<exists>k. chunked_find_longest_cache_hit hs max_length gids p bs n False bs 1 1 = Inr (window_lists p gids c hs s k, int k * bs)
    \<and> s \<le> k \<and> k \<le> m \<and> (\<forall>x. s \<le> x \<and> x < k \<longrightarrow> cached_in p gids (block_key c hs x)) \<and> (k = m \<or> \<not> cached_in p gids (block_key c hs k))"
proof -
  have ne: "gids \<noteq> []" using wf(2) by (simp add: groups_ok_def)
  have b0: "bs > 0" using bs H by simp
  obtain l where l: "resolve_block_hashes (RawHashes hs) H bs False (Some bs) = Inr l" "\<forall>i < length hs div c. bhl_get l (int i) = Inr (block_key c hs i)"
    using coarse_view_only [OF H(2,3)] unfolding bs by blast
  have pos: "0 \<le> max_length div n * n" "max_length div n * n \<le> max_length"
    using H(4,5) div_block_bounds [OF H(4), of max_length] by (simp_all add: pos_imp_zdiv_nonneg_iff)
  have st: "(if max_length > 0 then max_length div n * n else 0) = max_length div n * n" using H(5) by auto
  have sm: "s \<le> m" unfolding s m(1) using zdiv_mono1 [OF pos(2) b0] by (rule nat_mono)
  have ints: "max_length div n * n div bs = int s" "max_length div bs = int m"
    using pos(1) b0 H(5) unfolding s m(1) by (simp_all add: pos_imp_zdiv_nonneg_iff)
  have upto: "[int s..int m - 1] = map int [s..<m]" by (rule nth_equalityI) (auto simp: nth_upto)
  obtain k where k: "takeWhile (\<lambda>x. cached_in p gids (block_key c hs x)) [s..<m] = [s..<k]" "s \<le> k" "k \<le> m"
      "\<forall>x. s \<le> x \<and> x < k \<longrightarrow> cached_in p gids (block_key c hs x)" "k = m \<or> \<not> cached_in p gids (block_key c hs k)"
    using takeWhile_upt [OF sm] by blast
  have "chunk_run (map int [s..<m]) l gids p (map (\<lambda>_. replicate s null_block) gids) = Inr (window_lists p gids c hs s k)"
    using chunk_run_spec [OF wf, of "[s..<m]" l c hs "\<lambda>_. replicate s null_block"] l(2) m(2) by (simp add: k(1) window_lists_def)
  then have "chunked_find_longest_cache_hit hs max_length gids p bs n False bs 1 1 = Inr (window_lists p gids c hs s k, int k * bs)"
    using H(4) b0 by (simp add: chunked_find_longest_cache_hit_def assertE_def H(1) l(1) st ints upto Let_def first_len_window [OF ne k(2)])
  with k show ?thesis by blast
qed

subsection \<open>Properties\<close>

lemma num_prefix_cdiv:
  assumes "c > 0" "H > 0"
  shows "int (num_prefix_blocks c u) = cdiv (int u * H) (int c * H)"
proof -
  have "int (num_prefix_blocks c u) = (int u + int c - 1) div int c" using assms by (simp add: num_prefix_blocks_def zdiv_int of_nat_diff)
  also have "\<dots> = cdiv (int u) (int c)" using assms by (simp add: cdiv_alt)
  also have "\<dots> = cdiv (int u * H) (int c * H)"
    using assms(2) div_mult_mult2 [of H "int u" "- int c"] by (simp add: cdiv_def)
  finally show ?thesis .
qed

lemma trim_hit_spec:
  assumes c: "c > 0" "H > 0" "a > 0" and u: "hit_unit H c a dvd u" and al: "a < int c * H \<and> int c * H mod a = 0 \<longrightarrow> a = H"
    and L: "L = round_down (int u * H - (if e \<and> 0 < u then min a (int c * H) else 0)) a"
  shows "trim_hit e a (int c * H) (prefix_lists p gids c hs u, int u * H) = (map (take (nat (cdiv L (int c * H)))) (prefix_lists p gids c hs u), L)"
    and "0 \<le> L" "L \<le> int u * H" "nat (cdiv L (int c * H)) \<le> num_prefix_blocks c u"
proof -
  let ?x = "int u * H - (if e \<and> 0 < u then min a (int c * H) else 0)"
  have u0: "0 < int u * H \<longleftrightarrow> 0 < u" using c(2) by (simp add: zero_less_mult_iff)
  have x: "?x - ?x mod a = L" unfolding L round_down_def by (rule minus_mod_eq_div_mult)
  have h: "(if e \<and> 0 < int u * H then int u * H - min a (int c * H) else int u * H) = ?x" using u0 by auto
  show "trim_hit e a (int c * H) (prefix_lists p gids c hs u, int u * H) = (map (take (nat (cdiv L (int c * H)))) (prefix_lists p gids c hs u), L)"
    unfolding trim_hit_def Let_def prod.case h x ..
  have "min a (int c * H) \<le> int u * H" if "0 < u"
  proof (cases "a < int c * H \<and> int c * H mod a = 0")
    case True
    have "H * 1 \<le> H * int u" using c(2) that by (intro mult_left_mono) auto
    with True al show ?thesis by (simp add: mult.commute min_le_iff_disj)
  next
    case False
    then have "hit_unit H c a = c" unfolding hit_unit_def by (rule if_not_P)
    then have "c \<le> u" using u that by (simp add: dvd_imp_le)
    then have "int c * H \<le> int u * H" using c(2) by simp
    then show ?thesis by (simp add: min_le_iff_disj)
  qed
  then have x0: "0 \<le> ?x" using c(2) by auto
  then show "0 \<le> L" unfolding L round_down_def using c(3) by (simp add: pos_imp_zdiv_nonneg_iff)
  have "?x \<le> int u * H" using c by auto
  then show le: "L \<le> int u * H" using round_down_bounds [OF c(3), of ?x] unfolding L by linarith
  have "cdiv L (int c * H) \<le> int (num_prefix_blocks c u)"
    unfolding num_prefix_cdiv [OF c(1,2)] using le c by (intro cdiv_mono) simp_all
  then show "nat (cdiv L (int c * H)) \<le> num_prefix_blocks c u" by simp
qed

text \<open>
  C13. The longest hit under full attention. With a block size of \<open>c\<close> hash blocks (scaled by the
  context-parallel size) and hits aligned to whole blocks or, inside blocks, to hash blocks, the search
  finds the greatest prefix of at most \<open>max_length\<close> tokens whose blocks are cached in every group of the
  list, the last one possibly as a partly filled block. The length it reports is that prefix, one
  alignment unit or block less under EAGLE, rounded down to the alignment; it returns for each group one
  pool block per block of that length, carrying the key of the prefix up to it. It never raises.
\<close>

theorem full_attention_hit_longest:
  assumes p: "pool_reach p" "groups_ok gids" and H: "hash_block_size p = H" "H > 0" "c > 0" "0 \<le> max_length" "a > 0"
    and bs: "(if dcp > 1 then sb * dcp else sb) = int c * H" and al: "a < int c * H \<and> int c * H mod a = 0 \<longrightarrow> a = H"
  shows "\<exists>u computed L. full_find_longest_cache_hit hs max_length gids p sb e a dcp = Inr (computed, L)
    \<and> longest_prefix p gids c hs (hit_unit H c a) H max_length u
    \<and> L = round_down (int u * H - (if e \<and> 0 < u then min a (int c * H) else 0)) a \<and> 0 \<le> L \<and> L \<le> max_length
    \<and> length computed = length gids
    \<and> (\<forall>j < length gids. int (length (computed ! j)) = cdiv L (int c * H)
        \<and> (\<forall>i < length (computed ! j). in_pool p (computed ! j ! i) \<and> pack_key (prefix_key c hs u i) (gids ! j) \<in> set (keys_of p (computed ! j ! i))))"
proof -
  obtain xs where "pool_wf p xs" using pool_reach_wf [OF p(1)] by blast
  then have iw: "index_wf p" by (rule pool_wfD)
  obtain u where u: "longest_prefix p gids c hs (hit_unit H c a) H max_length u"
      "full_find_longest_cache_hit hs max_length gids p sb e a dcp = Inr (trim_hit e a (int c * H) (prefix_lists p gids c hs u, int u * H))"
    using full_find_spec [OF iw p(2) H bs al] by blast
  define L where "L = round_down (int u * H - (if e \<and> 0 < u then min a (int c * H) else 0)) a"
  have du: "hit_unit H c a dvd u" "int u * H \<le> max_length" and hit: "prefix_hit p gids c hs u"
    using u(1) by (simp_all add: longest_prefix_def)
  note t = trim_hit_spec [OF H(3,2,5) du(1) al L_def]
  let ?n = "nat (cdiv L (int c * H))"
  have len: "int ?n = cdiv L (int c * H)" using t(2) H by (simp add: cdiv_nonneg)
  have "in_pool p (found_at p (prefix_key c hs u i) (gids ! j)) \<and> pack_key (prefix_key c hs u i) (gids ! j) \<in> set (keys_of p (found_at p (prefix_key c hs u i) (gids ! j)))"
    if "j < length gids" "i < ?n" for i j
    using found_at_in_pool [OF iw, of gids "prefix_key c hs u i" "gids ! j"] hit that t(4) by (simp add: prefix_hit_def)
  then show ?thesis using u t(1-4) len du(2)
    by (intro exI [of _ u] exI [of _ "map (take ?n) (prefix_lists p gids c hs u)"] exI [of _ L])
      (simp add: prefix_lists_def L_def [symmetric] min_def)
qed

theorem full_attention_hit_longest_witness:
  "\<exists>q r s computed L. cache_full_blocks (\<lambda>_. []) sample_request [Blk 1, Blk 2] 0 1 2 7 None q = Inr (r, s)
    \<and> full_find_longest_cache_hit [[5]] 3 [7] s 2 False 2 1 = Inr (computed, L) \<and> L = 2"
proof -
  obtain q r s where s: "cache_full_blocks (\<lambda>_. []) sample_request [Blk 1, Blk 2] 0 1 2 7 None q = Inr (r, s)" "pool_reach s"
      "config s = (4, True, 2, False)" "\<forall>c. keys_of s c = (if c = Blk 1 then [pack_key [5] 7] else [])"
    by (blast intro: small_pool_cached)
  have h: "hash_block_size s = 2" using s(3) by (simp add: config_def)
  have c: "cached_in s [7] [5]" using s(3,4) by (auto simp: cached_in_def two_taken_in_pool intro!: exI [of _ "Blk 1"])
  obtain u computed L where u: "full_find_longest_cache_hit [[5]] 3 [7] s 2 False 2 1 = Inr (computed, L)"
      "longest_prefix s [7] 1 [[5]] (hit_unit 2 1 2) 2 3 u" "L = round_down (int u * 2 - 0) 2"
    using full_attention_hit_longest [OF s(2), of "[7]" 2 1 3 2 1 2 "[[5]]" False] h by (auto simp: groups_ok_def group_ok_def)
  have "prefix_hit s [7] 1 [[5]] 1" using c by (simp add: prefix_hit_def num_prefix_blocks_def prefix_key_def block_key_def)
  then have "1 \<le> u" using u(2) by (simp add: longest_prefix_def hit_unit_def)
  moreover have "u \<le> 1" using u(2) by (simp add: longest_prefix_def prefix_hit_def)
  ultimately have "L = 2" using u(3) by (simp add: round_down_def)
  with u(1) s(1) show ?thesis by blast
qed

text \<open>
  C14. The longest hit of a sliding window. The search returns \<open>k\<close> blocks per group, the first \<open>s\<close> of them
  null and each other a pool block with the key of the prefix up to it; the length is aligned and at
  most \<open>max_length\<close>. Nothing the window before the end of the hit contains is missing: no block is
  null, or those that are not hold the last \<open>window - 1\<close> tokens. Without EAGLE no longer aligned
  length has its window cached.
\<close>

theorem sliding_window_hit_longest:
  assumes p: "pool_reach p" "groups_ok gids" and H: "hash_block_size p = H" "H > 0" "c > 0" "a > 0" "1 \<le> w" "0 \<le> max_length"
    and bs: "bs = int c * H" and m: "max_length div bs \<le> int (length hs div c)"
    and need: "need = nat (max 1 (contiguous_blocks_for_hit w bs False))"
  shows "\<exists>computed s k. swa_find_longest_cache_hit hs max_length gids p bs w e a 1 1 = Inr (computed, int k * bs)
    \<and> s \<le> k \<and> int k * bs \<le> max_length \<and> int k * bs mod a = 0 \<and> length computed = length gids
    \<and> (\<forall>j < length gids. length (computed ! j) = k \<and> (\<forall>i < s. computed ! j ! i = null_block)
        \<and> (\<forall>i. s \<le> i \<and> i < k \<longrightarrow> in_pool p (computed ! j ! i) \<and> pack_key (block_key c hs i) (gids ! j) \<in> set (keys_of p (computed ! j ! i))))
    \<and> (s = 0 \<or> w - 1 \<le> int (k - s) * bs)
    \<and> (\<not> e \<longrightarrow> (\<forall>l. k < l \<and> int l * bs \<le> max_length \<and> int l * bs mod a = 0
        \<longrightarrow> (\<exists>i < l. l - need \<le> i \<and> \<not> cached_in p gids (block_key c hs i))))"
proof -
  obtain xs where "pool_wf p xs" using pool_reach_wf [OF p(1)] by blast
  then have iw: "index_wf p" by (rule pool_wfD)
  have b0: "0 < bs" and a0: "a \<noteq> 0" using bs H by simp_all
  define m where "m = nat (max_length div bs)"
  define nd where "nd = nat (max 1 (contiguous_blocks_for_hit w bs e))"
  have ml: "m \<le> length hs div c" using m by (simp add: m_def)
  obtain l s k where r: "swa_find_longest_cache_hit hs max_length gids p bs w e a 1 1 = Inr (window_lists p gids c hs s k, int k * bs)"
      "s \<le> k" "k \<le> l" "l \<le> m" "s = l - nd" "window_hit p gids c hs bs a e nd l"
      "\<forall>e'. l < e' \<and> e' \<le> m \<longrightarrow> \<not> window_hit p gids c hs bs a e nd e'" "bs = a \<or> int k * bs mod a = 0"
      "\<not> e \<longrightarrow> k = l" "e \<and> (bs = a \<or> 0 < s) \<longrightarrow> k = l - 1"
    using swa_find_spec [OF iw p(2) H(1-3) a0 bs m_def ml nd_def] by (elim exE conjE) (rule that; assumption)
  have tok: "int x * bs \<le> max_length \<longleftrightarrow> x \<le> m" for x
    using le_div_iff_mult_le_int [OF b0, of "int x" max_length] b0 H(6) by (auto simp: m_def nat_le_iff le_nat_iff pos_imp_zdiv_nonneg_iff)
  have key: "in_pool p (found_at p (block_key c hs i) (gids ! j)) \<and> pack_key (block_key c hs i) (gids ! j) \<in> set (keys_of p (found_at p (block_key c hs i) (gids ! j)))"
    if "s \<le> i" "i < k" "j < length gids" for i j
    using found_at_in_pool [OF iw, of gids "block_key c hs i" "gids ! j"] r(3,5,6) that by (simp add: window_hit_def)
  have cov: "s = 0 \<or> w - 1 \<le> int (k - s) * bs"
  proof (cases "s = 0")
    case False
    have "cdiv (w - 1) bs \<le> int (k - s)"
      using False r(2,5,9,10) cdiv_nonneg [OF b0, of "w - 1"] H(5)
      by (cases e) (auto simp: nd_def contiguous_blocks_for_hit_def Let_def max_def)
    then have "cdiv (w - 1) bs * bs \<le> int (k - s) * bs" using b0 by (intro mult_right_mono) auto
    with cdiv_bounds [OF b0, of "w - 1"] show ?thesis by linarith
  qed simp
  have long: "\<exists>i < l'. l' - need \<le> i \<and> \<not> cached_in p gids (block_key c hs i)"
    if "\<not> e" "k < l'" "int l' * bs \<le> max_length" "int l' * bs mod a = 0" for l'
  proof -
    have "\<not> window_hit p gids c hs bs a e nd l'" using r(7,9) that tok by blast
    then show ?thesis using that(1,2,4) need by (auto simp: window_hit_def aligned_end_def nd_def)
  qed
  have "int k * bs mod a = 0" using r(8) by auto
  moreover have "length (window_lists p gids c hs s k) = length gids" by (simp add: window_lists_def)
  moreover have "length (window_lists p gids c hs s k ! j) = k" if "j < length gids" for j
    using that r(2) by (simp add: window_lists_def)
  moreover have "window_lists p gids c hs s k ! j ! i = null_block" if "j < length gids" "i < s" for i j
    using that by (simp add: window_lists_def nth_append)
  moreover have "window_lists p gids c hs s k ! j ! i = found_at p (block_key c hs i) (gids ! j)" if "j < length gids" "s \<le> i" "i < k" for i j
    using that nth_upt [of s "i - s" k] by (simp add: window_lists_def nth_append)
  ultimately show ?thesis using r(1-4) tok key cov long
    by - (rule exI [of _ "window_lists p gids c hs s k"], rule exI [of _ s], rule exI [of _ k], simp)
qed

theorem sliding_window_hit_longest_witness:
  "\<exists>q r s computed k. cache_full_blocks (\<lambda>_. []) sample_request [Blk 1, Blk 2] 0 1 2 7 None q = Inr (r, s)
    \<and> swa_find_longest_cache_hit [[5]] 3 [7] s 2 3 False 2 1 1 = Inr (computed, int k * 2) \<and> k = 1"
proof -
  obtain q r s where s: "cache_full_blocks (\<lambda>_. []) sample_request [Blk 1, Blk 2] 0 1 2 7 None q = Inr (r, s)" "pool_reach s"
      "config s = (4, True, 2, False)" "\<forall>c. keys_of s c = (if c = Blk 1 then [pack_key [5] 7] else [])"
    by (blast intro: small_pool_cached)
  have h: "hash_block_size s = 2" using s(3) by (simp add: config_def)
  have c: "cached_in s [7] [5]" using s(3,4) by (auto simp: cached_in_def two_taken_in_pool intro!: exI [of _ "Blk 1"])
  have g: "groups_ok [7]" by (simp add: groups_ok_def group_ok_def)
  obtain computed k where k: "swa_find_longest_cache_hit [[5]] 3 [7] s 2 3 False 2 1 1 = Inr (computed, int k * 2)" "int k * 2 \<le> 3"
      "\<forall>l. k < l \<and> int l * 2 \<le> 3 \<and> int l * 2 mod 2 = 0 \<longrightarrow> (\<exists>i < l. l - nat (max 1 (contiguous_blocks_for_hit 3 2 False)) \<le> i \<and> \<not> cached_in s [7] (block_key 1 [[5]] i))"
    using sliding_window_hit_longest [OF s(2) g h, of 1 2 3 3 2 "[[5]]" _ False] by auto
  have "\<not> k < 1" using k(3) c by (auto simp: block_key_def dest!: spec [of _ 1])
  with k(1,2) s(1) show ?thesis by (intro exI [of _ q] exI [of _ r] exI [of _ s] exI [of _ computed] exI [of _ k]) simp
qed

end
