(* ===== verification/Coordinator.thy ===== *)
theory Coordinator
  imports Cache_Hits
begin

text \<open>
  The coordinator of the KV-cache groups (\<open>src/vllm/v1/core/kv_cache_coordinator.py\<close>): one manager per group over
  one shared block pool. The base class \<open>KVCacheCoordinator\<close> runs each operation on every manager in turn;
  the subclasses differ in how they search for hits, which tokens they cache and how they count common
  prefixes. \<open>HiSparse\<close> source groups with a host pool of their own are not modelled, so all managers share
  the pool of the coordinator.
\<close>

subsection \<open>State\<close>

text \<open>
  A KV-cache group: the kind and block size of its spec, a name for the remaining fields of the spec (two
  specs are equal when all three agree), and whether it is an EAGLE group.
\<close>

record kv_cache_spec =
  g_kind :: manager_kind
  g_block_size :: int
  g_spec_id :: string

record kv_cache_group =
  g_spec :: kv_cache_spec
  is_eagle_group :: bool

record spec_group =
  sg_spec :: kv_cache_spec
  group_ids :: "nat list"
  sg_use_eagle :: bool

text \<open>
  The spec is a full-attention spec (R-SWA is one); it takes part in prefix caching; the
  context-parallel size that scales its blocks.
\<close>

definition is_full :: "manager_kind \<Rightarrow> bool" where
  "is_full k = (case k of FullAttention \<Rightarrow> True | RSWA w \<Rightarrow> True | _ \<Rightarrow> False)"

definition prefix_cacheable :: "kv_cache_spec \<Rightarrow> bool" where
  "prefix_cacheable sp = (g_kind sp \<noteq> CircularBuffer)"

definition dcp_world_size_for_kv_cache_spec :: "kv_cache_spec \<Rightarrow> int \<Rightarrow> int" where
  "dcp_world_size_for_kv_cache_spec sp dcp = (if dcp \<le> 1 then 1 else if is_full (g_kind sp) then dcp else 1)"

datatype coordinator_class = NoPrefixCache | Unitary | Hybrid

record coordinator =
  coord_class :: coordinator_class
  kv_cache_groups :: "kv_cache_group list"
  scheduler_block_size :: int
  num_reprefillable_tokens :: int
  eagle_group_ids :: "nat list"
  retention_interval :: "int option"
  enable_partial_hash_hits :: bool
  coord_dcp_world_size :: int
  coord_pcp_world_size :: int
  attention_groups :: "spec_group list"
  single_type_managers :: "st_manager list"
  coord_pool :: block_pool

text \<open>Running an operation on every manager, in order, over the shared pool.\<close>

fun each_manager ::
  "(nat \<Rightarrow> st_manager \<Rightarrow> block_pool \<Rightarrow> ('a \<times> st_manager \<times> block_pool) result) \<Rightarrow> nat \<Rightarrow> st_manager list \<Rightarrow> block_pool
     \<Rightarrow> ('a list \<times> st_manager list \<times> block_pool) result" where
  "each_manager f i [] p = Inr ([], [], p)"
| "each_manager f i (m # ms) p =
     bindE (f i m p) (\<lambda>(x, m', p1).
     bindE (each_manager f (Suc i) ms p1) (\<lambda>(xs, ms', p2). Inr (x # xs, m' # ms', p2)))"

definition no_value :: "(st_manager \<times> block_pool) result \<Rightarrow> (unit \<times> st_manager \<times> block_pool) result" where
  "no_value r = bindE r (\<lambda>(m, p). Inr ((), m, p))"

definition on_managers ::
  "(nat \<Rightarrow> st_manager \<Rightarrow> block_pool \<Rightarrow> ('a \<times> st_manager \<times> block_pool) result) \<Rightarrow> coordinator \<Rightarrow> ('a list \<times> coordinator) result" where
  "on_managers f c =
     bindE (each_manager f 0 (single_type_managers c) (coord_pool c)) (\<lambda>(xs, ms, p).
       Inr (xs, c\<lparr>single_type_managers := ms, coord_pool := p\<rparr>))"

subsection \<open>Construction\<close>

text \<open>A positive or zero retention interval needs a group that acts on it and must fall on hit boundaries.\<close>

definition validate_prefix_cache_retention_interval :: "int option \<Rightarrow> int \<Rightarrow> kv_cache_group list \<Rightarrow> unit result" where
  "validate_prefix_cache_retention_interval retention sbs groups =
     (case retention of
        None \<Rightarrow> Inr ()
      | Some r \<Rightarrow>
          if \<not> (\<exists>g \<in> set groups. case g_kind (g_spec g) of SlidingWindow w e \<Rightarrow> True | _ \<Rightarrow> False)
          then if r = 0 then Inr () else Inl ValueError
          else if r < 0 then Inl ValueError
          else if sbs = 0 then Inl ZeroDivisionError
          else if r mod sbs \<noteq> 0 then Inl ValueError else Inr ())"

definition init_eagle_group_ids :: "bool \<Rightarrow> kv_cache_group list \<Rightarrow> nat list" where
  "init_eagle_group_ids eagle groups =
     (let ids = filter (\<lambda>i. is_eagle_group (groups ! i)) [0..<length groups] in
      if eagle \<and> ids = [] then [0..<length groups] else ids)"

text \<open>The test that every group block divides the scheduler block, in order.\<close>

fun all_divide :: "int \<Rightarrow> kv_cache_group list \<Rightarrow> bool result" where
  "all_divide sbs [] = Inr True"
| "all_divide sbs (g # gs) =
     (if g_block_size (g_spec g) = 0 then Inl ZeroDivisionError
      else if sbs mod g_block_size (g_spec g) \<noteq> 0 then Inr False else all_divide sbs gs)"

text \<open>\<open>KVCacheCoordinator.__init__\<close>; the metrics collector, event and medium arguments go to the pool.\<close>

definition init_coordinator ::
  "coordinator_class \<Rightarrow> kv_cache_group list \<Rightarrow> int \<Rightarrow> int \<Rightarrow> int \<Rightarrow> bool \<Rightarrow> bool \<Rightarrow> bool \<Rightarrow> int \<Rightarrow> int \<Rightarrow> int \<Rightarrow> int
     \<Rightarrow> bool \<Rightarrow> bool \<Rightarrow> int \<Rightarrow> int option \<Rightarrow> string \<Rightarrow> bool \<Rightarrow> coordinator result" where
  "init_coordinator cls groups num_blocks max_model_len max_in_flight eagle caching kv_events dcp pcp sbs hbs
       mets needs_zeroing num_prefill_lookahead retention medium ui =
     (if hbs = 0 then Inl ZeroDivisionError
      else
      bindE (assertE (sbs mod hbs = 0)) (\<lambda>_.
      bindE (bindE (all_divide sbs groups) assertE) (\<lambda>_.
      bindE (init_pool num_blocks caching hbs kv_events mets medium ui) (\<lambda>p.
        let eagle_ids = init_eagle_group_ids eagle groups in
        if caching \<and> eagle_ids \<noteq> [] \<and> sbs < num_prefill_lookahead then Inl ValueError
        else
          let ms = map (\<lambda>i. let sp = g_spec (groups ! i) in
                     get_manager_for_kv_cache_spec (g_kind sp) (g_block_size sp) max_in_flight max_model_len caching (int i) sbs
                       (dcp_world_size_for_kv_cache_spec sp dcp) needs_zeroing) [0..<length groups] in
          bindE (validate_prefix_cache_retention_interval retention sbs groups) (\<lambda>_.
            Inr \<lparr>coord_class = cls, kv_cache_groups = groups, scheduler_block_size = sbs,
                 num_reprefillable_tokens = max 0 (num_prefill_lookahead - 1), eagle_group_ids = eagle_ids,
                 retention_interval = retention, enable_partial_hash_hits = False,
                 coord_dcp_world_size = dcp, coord_pcp_world_size = pcp,
                 attention_groups = [], single_type_managers = ms, coord_pool = p\<rparr>)))))"

text \<open>The rest of \<open>UnitaryKVCacheCoordinator.__init__\<close>.\<close>

definition init_unitary :: "bool \<Rightarrow> int \<Rightarrow> coordinator \<Rightarrow> coordinator result" where
  "init_unitary caching hbs c =
     bindE (py_index (single_type_managers c) 0) (\<lambda>m.
     bindE (assertE (\<not> caching \<or> hbs = sm_block_size m)) (\<lambda>_.
     bindE (assertE (length (kv_cache_groups c) = 1)) (\<lambda>_.
       Inr (c\<lparr>single_type_managers := (single_type_managers c)[0 := m\<lparr>use_eagle := 0 \<in> set (eagle_group_ids c)\<rparr>]\<rparr>))))"

text \<open>
  \<open>verify_and_split_kv_cache_groups\<close>: the groups that take part in prefix caching, collected by spec, those
  of full attention first. All managers of equal kinds have the same class and share the pool.
\<close>

definition add_to_groups :: "nat \<Rightarrow> kv_cache_spec \<Rightarrow> bool \<Rightarrow> spec_group list \<Rightarrow> spec_group list" where
  "add_to_groups i sp eagle gs =
     (case List.find (\<lambda>k. sg_spec (gs ! k) = sp) [0..<length gs] of
        Some k \<Rightarrow> gs[k := (gs ! k)\<lparr>group_ids := group_ids (gs ! k) @ [i], sg_use_eagle := sg_use_eagle (gs ! k) \<or> eagle\<rparr>]
      | None \<Rightarrow> gs @ [\<lparr>sg_spec = sp, group_ids = [i], sg_use_eagle = eagle\<rparr>])"

definition split_groups :: "kv_cache_group list \<Rightarrow> nat list \<Rightarrow> spec_group list" where
  "split_groups groups eagle_ids =
     (let gs = fold (\<lambda>i gs. let sp = g_spec (groups ! i) in
                  if prefix_cacheable sp then add_to_groups i sp (i \<in> set eagle_ids) gs else gs) [0..<length groups] []
      in filter (\<lambda>g. is_full (g_kind (sg_spec g))) gs @ filter (\<lambda>g. \<not> is_full (g_kind (sg_spec g))) gs)"

definition set_eagle :: "spec_group list \<Rightarrow> st_manager list \<Rightarrow> st_manager list" where
  "set_eagle gs ms = fold (\<lambda>i ms. ms[i := (ms ! i)\<lparr>use_eagle := True\<rparr>])
     (concat (map group_ids (filter sg_use_eagle gs))) ms"

definition verify_and_split_kv_cache_groups :: "coordinator \<Rightarrow> coordinator result" where
  "verify_and_split_kv_cache_groups c =
     (let gs = split_groups (kv_cache_groups c) (eagle_group_ids c) in
      bindE (assertE (gs \<noteq> [])) (\<lambda>_.
        Inr (c\<lparr>attention_groups := gs, single_type_managers := set_eagle gs (single_type_managers c)\<rparr>)))"

text \<open>The rest of \<open>HybridKVCacheCoordinator.__init__\<close>: without Mamba groups hits stay aligned to the scheduler block.\<close>

definition cache_hit_alignment :: "coordinator \<Rightarrow> int" where
  "cache_hit_alignment c = (if enable_partial_hash_hits c then hash_block_size (coord_pool c) else scheduler_block_size c)"

definition init_hybrid :: "int \<Rightarrow> coordinator \<Rightarrow> coordinator result" where
  "init_hybrid hbs c =
     bindE (assertE (\<forall>(m, g) \<in> set (zip (single_type_managers c) (kv_cache_groups c)).
              prefix_cacheable (g_spec g) \<longrightarrow> sm_block_size m mod hbs = 0)) (\<lambda>_.
     bindE (assertE (coord_pcp_world_size c = 1)) (\<lambda>_.
     bindE (assertE (coord_dcp_world_size c > 1 \<longrightarrow> (\<forall>g \<in> set (kv_cache_groups c). is_full (g_kind (g_spec g))))) (\<lambda>_.
       verify_and_split_kv_cache_groups
         (c\<lparr>single_type_managers := map (\<lambda>m. m\<lparr>cache_hit_alignment_tokens := cache_hit_alignment c\<rparr>) (single_type_managers c)\<rparr>))))"

definition get_kv_cache_coordinator ::
  "kv_cache_group list \<Rightarrow> int \<Rightarrow> int \<Rightarrow> int \<Rightarrow> bool \<Rightarrow> bool \<Rightarrow> bool \<Rightarrow> int \<Rightarrow> int \<Rightarrow> int \<Rightarrow> int
     \<Rightarrow> bool \<Rightarrow> bool \<Rightarrow> int \<Rightarrow> int option \<Rightarrow> string \<Rightarrow> bool \<Rightarrow> coordinator result" where
  "get_kv_cache_coordinator groups num_blocks max_model_len max_in_flight eagle caching kv_events dcp pcp sbs hbs
       mets needs_zeroing num_prefill_lookahead retention medium ui =
     (let cls = (if \<not> caching then NoPrefixCache else if length groups = 1 then Unitary else Hybrid) in
      bindE (init_coordinator cls groups num_blocks max_model_len max_in_flight eagle caching kv_events dcp pcp sbs hbs
               mets needs_zeroing num_prefill_lookahead retention medium ui) (\<lambda>c.
        case cls of NoPrefixCache \<Rightarrow> Inr c | Unitary \<Rightarrow> init_unitary caching hbs c | Hybrid \<Rightarrow> init_hybrid hbs c))"

subsection \<open>Counting and allocating\<close>

fun blocks_to_allocate ::
  "string \<Rightarrow> int \<Rightarrow> block_ref list list \<Rightarrow> int \<Rightarrow> int \<Rightarrow> int \<Rightarrow> bool \<Rightarrow> nat \<Rightarrow> st_manager list \<Rightarrow> block_pool \<Rightarrow> int result" where
  "blocks_to_allocate rid num_toks new num_enc tot num_local cap i [] p = Inr 0"
| "blocks_to_allocate rid num_toks new num_enc tot num_local cap i (m # ms) p =
     bindE (if kind m = CrossAttention then get_num_blocks_to_allocate rid num_enc [] 0 0 cap m p
            else bindE (py_index new (int i)) (\<lambda>bs. get_num_blocks_to_allocate rid num_toks bs tot num_local cap m p)) (\<lambda>n.
     bindE (blocks_to_allocate rid num_toks new num_enc tot num_local cap (Suc i) ms p) (\<lambda>k. Inr (n + k)))"

definition coord_get_num_blocks_to_allocate ::
  "string \<Rightarrow> int \<Rightarrow> block_ref list list \<Rightarrow> int \<Rightarrow> int \<Rightarrow> int \<Rightarrow> bool \<Rightarrow> coordinator \<Rightarrow> int result" where
  "coord_get_num_blocks_to_allocate rid num_toks new num_enc tot num_local cap c =
     blocks_to_allocate rid num_toks new num_enc tot num_local cap 0 (single_type_managers c) (coord_pool c)"

definition allocate_new_computed_blocks ::
  "string \<Rightarrow> block_ref list list \<Rightarrow> int \<Rightarrow> int \<Rightarrow> coordinator \<Rightarrow> coordinator result" where
  "allocate_new_computed_blocks rid new num_local num_external c =
     (if \<exists>m \<in> set (single_type_managers c). num_cached_block m rid \<noteq> None
      then bindE (assertE (\<forall>bs \<in> set new. length bs = 0)) (\<lambda>_. Inr c)
      else
        bindE (on_managers (\<lambda>i m p. bindE (py_index new (int i)) (\<lambda>bs.
                 no_value (add_local_computed_blocks rid bs num_local num_external m p))) c) (\<lambda>(_, c1).
        if num_external > 0
        then bindE (on_managers (\<lambda>i m p. no_value (allocate_external_computed_blocks rid num_local num_external m p)) c1) (\<lambda>(_, c2). Inr c2)
        else Inr c1))"

definition coord_allocate_new_blocks ::
  "string \<Rightarrow> int \<Rightarrow> int \<Rightarrow> coordinator \<Rightarrow> (block_ref list list \<times> coordinator) result" where
  "coord_allocate_new_blocks rid num_toks num_enc c =
     on_managers (\<lambda>i m p. allocate_new_blocks rid (if kind m = CrossAttention then num_enc else num_toks) m p) c"

subsection \<open>Caching\<close>

definition get_replay_boundaries :: "request \<Rightarrow> coordinator \<Rightarrow> int list" where
  "get_replay_boundaries r c =
     (if eagle_group_ids c = [] then [num_prompt_tokens r - 1]
      else
        let block = scheduler_block_size c;
            resend = (num_prompt_tokens r - 1) div block * block;
            extension = num_prompt_tokens r div block * block;
            lo = max (resend - block) 0; hi = max (extension - block) 0
        in if lo = hi then [lo] else if lo < hi then [lo, hi] else [hi, lo])"

definition align_cacheable :: "int \<Rightarrow> coordinator \<Rightarrow> int" where
  "align_cacheable n c = (if enable_partial_hash_hits c then n else round_down n (scheduler_block_size c))"

text \<open>The tokens a manager is asked to cache, by the class of the coordinator.\<close>

definition num_tokens_to_cache :: "int \<Rightarrow> st_manager \<Rightarrow> coordinator \<Rightarrow> int" where
  "num_tokens_to_cache num_computed m c =
     (if coord_class c = Hybrid
      then
        let cached = align_cacheable num_computed c in
        if use_eagle m \<and> cached > 0
        then let finalized = max 0 (num_computed - num_reprefillable_tokens c)
             in min finalized (align_cacheable finalized c + sm_block_size m)
        else cached
      else max 0 (num_computed - num_reprefillable_tokens c))"

text \<open>The request is threaded through: hashing prompt embeddings fills its memo table.\<close>

fun cache_managers ::
  "embeds_digest \<Rightarrow> (st_manager \<Rightarrow> int) \<Rightarrow> int option \<Rightarrow> int list \<Rightarrow> request \<Rightarrow> st_manager list \<Rightarrow> block_pool
     \<Rightarrow> (request \<times> st_manager list \<times> block_pool) result" where
  "cache_managers dig n retention boundaries r [] p = Inr (r, [], p)"
| "cache_managers dig n retention boundaries r (m # ms) p =
     bindE (if sm_enable_caching m then mgr_cache_blocks dig r (n m) retention boundaries m p else Inr (r, m, p)) (\<lambda>(r1, m', p1).
     bindE (cache_managers dig n retention boundaries r1 ms p1) (\<lambda>(r2, ms', p2). Inr (r2, m' # ms', p2)))"

definition coord_cache_blocks :: "embeds_digest \<Rightarrow> request \<Rightarrow> int \<Rightarrow> coordinator \<Rightarrow> (request \<times> coordinator) result" where
  "coord_cache_blocks dig r num_computed c =
     bindE (cache_managers dig (\<lambda>m. num_tokens_to_cache num_computed m c) (retention_interval c) (get_replay_boundaries r c)
              r (single_type_managers c) (coord_pool c)) (\<lambda>(r', ms, p).
       Inr (r', c\<lparr>single_type_managers := ms, coord_pool := p\<rparr>))"

fun emit_group_events :: "embeds_digest \<Rightarrow> kv_cache_group list \<Rightarrow> nat \<Rightarrow> block_ref list list \<Rightarrow> request \<Rightarrow> block_pool
     \<Rightarrow> (request \<times> block_pool) result" where
  "emit_group_events dig groups i [] r p = Inr (r, p)"
| "emit_group_events dig groups i (bs # bss) r p =
     bindE (if bs = [] then Inr (r, p)
            else bindE (py_index groups (int i)) (\<lambda>g.
              emit_cached_block_events dig r (int (length bs)) (g_block_size (g_spec g)) (int i) p)) (\<lambda>(r1, p1).
       emit_group_events dig groups (Suc i) bss r1 p1)"

definition coord_emit_cached_block_events :: "embeds_digest \<Rightarrow> request \<Rightarrow> block_ref list list \<Rightarrow> coordinator \<Rightarrow> (request \<times> coordinator) result" where
  "coord_emit_cached_block_events dig r computed c =
     bindE (emit_group_events dig (kv_cache_groups c) 0 computed r (coord_pool c)) (\<lambda>(r', p). Inr (r', c\<lparr>coord_pool := p\<rparr>))"

text \<open>Without managers there is no pool to reset.\<close>

definition coord_reset_prefix_cache :: "coordinator \<Rightarrow> (bool \<times> coordinator) result" where
  "coord_reset_prefix_cache c =
     (if single_type_managers c = [] then Inr (True, c)
      else bindE (reset_prefix_cache (coord_pool c)) (\<lambda>(ok, p). Inr (ok, c\<lparr>coord_pool := p\<rparr>)))"

subsection \<open>Release and queries\<close>

definition coord_free :: "string \<Rightarrow> coordinator \<Rightarrow> coordinator result" where
  "coord_free rid c = bindE (on_managers (\<lambda>i m p. no_value (mgr_free rid m p)) c) (\<lambda>(_, c'). Inr c')"

definition coord_pop_blocks_for_free :: "string \<Rightarrow> coordinator \<Rightarrow> block_ref list \<times> coordinator" where
  "coord_pop_blocks_for_free rid c =
     (let popped = map (pop_blocks_for_free rid) (single_type_managers c)
      in (concat (map fst popped), c\<lparr>single_type_managers := map snd popped\<rparr>))"

definition coord_get_num_common_prefix_blocks :: "string \<Rightarrow> coordinator \<Rightarrow> int list \<times> coordinator" where
  "coord_get_num_common_prefix_blocks rid c =
     (if coord_class c = NoPrefixCache then (replicate (length (single_type_managers c)) 0, c)
      else
        let rs = map (\<lambda>m. get_num_common_prefix_blocks rid m (coord_pool c)) (single_type_managers c)
        in (map fst rs, c\<lparr>single_type_managers := map snd rs\<rparr>))"

definition coord_remove_skipped_blocks :: "string \<Rightarrow> int \<Rightarrow> int option \<Rightarrow> coordinator \<Rightarrow> coordinator result" where
  "coord_remove_skipped_blocks rid processed prompt_tokens c =
     bindE (on_managers (\<lambda>i m p. no_value (remove_skipped_blocks rid processed prompt_tokens m p)) c) (\<lambda>(_, c'). Inr c')"

definition coord_get_blocks :: "string \<Rightarrow> coordinator \<Rightarrow> block_ref list list" where
  "coord_get_blocks rid c = map (req_blocks rid) (single_type_managers c)"

end
