(* ===== verification/Hybrid_Search.thy ===== *)
theory Hybrid_Search
  imports Coordinator
begin

text \<open>
  The search for the longest common prefix-cache hit over all KV-cache groups: \<open>find_longest_cache_hit\<close> of
  the three coordinators in \<open>src/vllm/v1/core/kv_cache_coordinator.py\<close>. The hybrid coordinator runs the
  search of each attention group at the current candidate length until no group shortens it. The lemmas show
  that this loop ends, that every group can serve the length it ends with, and that without EAGLE no longer
  length can be served by all groups.
\<close>

subsection \<open>The search of the hybrid coordinator\<close>

text \<open>What the loop carries: per KV-cache group the blocks (\<open>None\<close> before the first search) and the length of its hit.\<close>

record group_hits =
  hit_blocks_by_group :: "block_ref list option list"
  hit_length_by_group :: "int list"
  longest_hit_length :: int
  eagle_verified :: "nat list"

definition supports_fine_grained_hash_lookup :: "manager_kind \<Rightarrow> bool" where
  "supports_fine_grained_hash_lookup k = is_full k"

definition eagle_margin :: "coordinator \<Rightarrow> spec_group \<Rightarrow> st_manager \<Rightarrow> int" where
  "eagle_margin c g m =
     (if enable_partial_hash_hits c \<and> supports_fine_grained_hash_lookup (g_kind (sg_spec g)) \<and> sm_block_size m > hash_block_size (coord_pool c)
      then hash_block_size (coord_pool c) else sm_block_size m)"

definition store_hits :: "nat list \<Rightarrow> block_ref list list \<Rightarrow> int \<Rightarrow> group_hits \<Rightarrow> group_hits" where
  "store_hits gids bss n st = fold (\<lambda>(g, bs) s. s\<lparr>hit_blocks_by_group := (hit_blocks_by_group s)[g := Some bs],
     hit_length_by_group := (hit_length_by_group s)[g := n]\<rparr>) (zip gids bss) st"

definition group_find ::
  "coordinator \<Rightarrow> block_hash list \<Rightarrow> spec_group \<Rightarrow> int \<Rightarrow> bool \<Rightarrow> (block_ref list list \<times> int) result" where
  "group_find c hashes g max_length drop_eagle =
     find_longest_cache_hit (g_kind (sg_spec g)) (g_block_size (sg_spec g)) hashes max_length (map int (group_ids g)) (coord_pool c)
       drop_eagle (cache_hit_alignment c) (dcp_world_size_for_kv_cache_spec (sg_spec g) (coord_dcp_world_size c)) (coord_pcp_world_size c)"

text \<open>
  One group in a pass of the loop, at index \<open>idx\<close> of \<open>attention_groups\<close>. A full-attention group that was
  searched before only caps the candidate; every other group is searched, an EAGLE group with one block of
  margin unless its drop was verified at this length.
\<close>

definition search_group ::
  "coordinator \<Rightarrow> block_hash list \<Rightarrow> int \<Rightarrow> nat \<Rightarrow> spec_group \<Rightarrow> int \<times> group_hits \<Rightarrow> (int \<times> group_hits) result" where
  "search_group c hashes max_cache_hit_length idx g cs =
     (let (cur, st) = cs in
      bindE (py_index (group_ids g) 0) (\<lambda>first_group_id.
      bindE (py_index (single_type_managers c) (int first_group_id)) (\<lambda>m.
      bindE (py_index (hit_blocks_by_group st) (int first_group_id)) (\<lambda>cached.
        if is_full (g_kind (sg_spec g)) \<and> cached \<noteq> None
        then Inr (min cur (hit_length_by_group st ! first_group_id), st)
        else
          let drop_eagle_block = (sg_use_eagle g \<and> idx \<notin> set (eagle_verified st));
              max_length = (if drop_eagle_block then min (cur + eagle_margin c g m) max_cache_hit_length else cur) in
          bindE (group_find c hashes g max_length drop_eagle_block) (\<lambda>(hit_blocks, new_hit_length).
            let verified = (if drop_eagle_block then List.insert idx (eagle_verified st)
                            else if new_hit_length < cur then [] else eagle_verified st) in
            Inr (new_hit_length, (store_hits (group_ids g) hit_blocks new_hit_length st)
              \<lparr>eagle_verified := verified, longest_hit_length := max (longest_hit_length st) new_hit_length\<rparr>))))))"

fun search_groups ::
  "coordinator \<Rightarrow> block_hash list \<Rightarrow> int \<Rightarrow> nat \<Rightarrow> spec_group list \<Rightarrow> int \<times> group_hits \<Rightarrow> (int \<times> group_hits) result" where
  "search_groups c hashes maxl idx [] cs = Inr cs"
| "search_groups c hashes maxl idx (g # gs) cs =
     bindE (search_group c hashes maxl idx g cs) (search_groups c hashes maxl (Suc idx) gs)"

definition is_simple_hybrid :: "coordinator \<Rightarrow> bool" where
  "is_simple_hybrid c = (length (attention_groups c) = 2 \<and> is_full (g_kind (sg_spec (attention_groups c ! 0))))"

text \<open>The \<open>while\<close> loop; not returning is \<open>None\<close>.\<close>

partial_function (option) search_loop ::
  "coordinator \<Rightarrow> block_hash list \<Rightarrow> int \<Rightarrow> int \<Rightarrow> group_hits \<Rightarrow> (int \<times> group_hits) result option" where
  "search_loop c hashes maxl hit_length st =
     (case search_groups c hashes maxl 0 (attention_groups c) (hit_length, st) of
        Inl e \<Rightarrow> Some (Inl e)
      | Inr (cur, st') \<Rightarrow>
          if cur \<ge> hit_length then Some (Inr (hit_length, st'))
          else if is_simple_hybrid c then Some (Inr (cur, st'))
          else search_loop c hashes maxl cur st')"

text \<open>The lists of the full-attention groups are cut to the final length.\<close>

definition cut_blocks :: "int \<Rightarrow> int \<Rightarrow> nat \<Rightarrow> group_hits \<Rightarrow> group_hits" where
  "cut_blocks num_blocks hit_length gid st =
     (case hit_blocks_by_group st ! gid of
        None \<Rightarrow> st
      | Some bs \<Rightarrow> st\<lparr>hit_blocks_by_group := (hit_blocks_by_group st)[gid := Some (take (py_bound (int (length bs)) num_blocks) bs)],
                     hit_length_by_group := (hit_length_by_group st)[gid := hit_length]\<rparr>)"

definition truncate_group :: "coordinator \<Rightarrow> int \<Rightarrow> spec_group \<Rightarrow> group_hits \<Rightarrow> group_hits result" where
  "truncate_group c hit_length g st =
     (if \<not> is_full (g_kind (sg_spec g)) then Inr st
      else
        bindE (py_index (group_ids g) 0) (\<lambda>first_group_id.
        bindE (py_index (single_type_managers c) (int first_group_id)) (\<lambda>m.
        bindE (py_cdiv hit_length (sm_block_size m)) (\<lambda>num_blocks.
          Inr (fold (cut_blocks num_blocks hit_length) (group_ids g) st)))))"

definition hybrid_find_longest_cache_hit ::
  "block_hash list \<Rightarrow> int \<Rightarrow> coordinator \<Rightarrow> (block_ref list list \<times> int \<times> int) result option" where
  "hybrid_find_longest_cache_hit hashes max_cache_hit_length c =
     (let n = length (kv_cache_groups c) in
      case search_loop c hashes max_cache_hit_length max_cache_hit_length
             \<lparr>hit_blocks_by_group = replicate n None, hit_length_by_group = replicate n 0, longest_hit_length = 0, eagle_verified = []\<rparr> of
        None \<Rightarrow> None
      | Some r \<Rightarrow> Some (bindE r (\<lambda>(hit_length, st).
          bindE (foldE (truncate_group c hit_length) (attention_groups c) st) (\<lambda>st'.
            Inr (map (\<lambda>b. case b of None \<Rightarrow> [] | Some bs \<Rightarrow> bs) (hit_blocks_by_group st'),
                 hit_length, longest_hit_length st' - hit_length)))))"

subsection \<open>The searches of the other coordinators, and per group\<close>

definition unitary_find_longest_cache_hit ::
  "block_hash list \<Rightarrow> int \<Rightarrow> coordinator \<Rightarrow> (block_ref list list \<times> int \<times> int) result" where
  "unitary_find_longest_cache_hit hashes max_cache_hit_length c =
     bindE (py_index (single_type_managers c) 0) (\<lambda>m.
     bindE (py_index (kv_cache_groups c) 0) (\<lambda>g.
     bindE (find_longest_cache_hit (kind m) (g_block_size (g_spec g)) hashes max_cache_hit_length [0] (coord_pool c)
              (0 \<in> set (eagle_group_ids c)) (sm_block_size m)
              (dcp_world_size_for_kv_cache_spec (g_spec g) (coord_dcp_world_size c)) (coord_pcp_world_size c)) (\<lambda>(hit_blocks, hit_length).
       Inr (hit_blocks, hit_length, 0))))"

definition coord_find_longest_cache_hit ::
  "block_hash list \<Rightarrow> int \<Rightarrow> coordinator \<Rightarrow> (block_ref list list \<times> int \<times> int) result option" where
  "coord_find_longest_cache_hit hashes max_cache_hit_length c =
     (case coord_class c of
        NoPrefixCache \<Rightarrow> Some (Inr (map (\<lambda>_. []) (single_type_managers c), 0, 0))
      | Unitary \<Rightarrow> Some (unitary_find_longest_cache_hit hashes max_cache_hit_length c)
      | Hybrid \<Rightarrow> hybrid_find_longest_cache_hit hashes max_cache_hit_length c)"

definition find_longest_cache_hit_per_group ::
  "block_hash list \<Rightarrow> int \<Rightarrow> coordinator \<Rightarrow> (block_ref list list \<times> int list) result" where
  "find_longest_cache_hit_per_group hashes max_cache_hit_length c =
     (let n = length (kv_cache_groups c) in
      foldE (\<lambda>g (hit_blocks, hit_lengths).
        bindE (py_index (group_ids g) 0) (\<lambda>first_group_id.
        bindE (py_index (single_type_managers c) (int first_group_id)) (\<lambda>m.
        bindE (group_find c hashes g max_cache_hit_length (sg_use_eagle g)) (\<lambda>(blocks, group_hit).
          Inr (fold (\<lambda>(gid, bs) (hb, hl). (hb[gid := bs], hl[gid := group_hit])) (zip (group_ids g) blocks) (hit_blocks, hit_lengths))))))
        (attention_groups c) (replicate n [], replicate n 0))"

subsection \<open>What one group can serve\<close>

text \<open>
  A group serves a prefix of \<open>n\<close> of its blocks when the blocks a later query reads are cached: all of them
  under full attention, the window before the end, or the blocks of the last chunk.
\<close>

definition needed_from :: "manager_kind \<Rightarrow> int \<Rightarrow> nat \<Rightarrow> nat" where
  "needed_from k bs n =
     (case k of
        SlidingWindow w e \<Rightarrow> n - nat (max 1 (contiguous_blocks_for_hit w bs False))
      | ChunkedLocal x \<Rightarrow> nat (int n * bs div x * x div bs)
      | _ \<Rightarrow> 0)"

definition servable :: "block_pool \<Rightarrow> int list \<Rightarrow> manager_kind \<Rightarrow> int \<Rightarrow> nat \<Rightarrow> block_hash list \<Rightarrow> nat \<Rightarrow> bool" where
  "servable p gids k H c hs n \<longleftrightarrow> n \<le> length hs div c
     \<and> (\<forall>i. needed_from k (int c * H) n \<le> i \<and> i < n \<longrightarrow> cached_in p gids (block_key c hs i))"

definition serves :: "block_pool \<Rightarrow> int \<Rightarrow> manager_kind \<Rightarrow> int \<Rightarrow> nat \<Rightarrow> block_hash list \<Rightarrow> nat \<Rightarrow> block_ref list \<Rightarrow> bool" where
  "serves p gid k H c hs n bs \<longleftrightarrow> length bs = n
     \<and> (\<forall>i. needed_from k (int c * H) n \<le> i \<and> i < n \<longrightarrow> in_pool p (bs ! i) \<and> pack_key (block_key c hs i) gid \<in> set (keys_of p (bs ! i)))"

text \<open>The kinds with a search, at block size \<open>bs\<close> and hit alignment \<open>a\<close>.\<close>

definition kind_ok :: "manager_kind \<Rightarrow> int \<Rightarrow> int \<Rightarrow> int \<Rightarrow> int \<Rightarrow> bool \<Rightarrow> bool" where
  "kind_ok k bs a dcp pcp d =
     (case k of
        FullAttention \<Rightarrow> True | RSWA w \<Rightarrow> True
      | SlidingWindow w e \<Rightarrow> 2 \<le> w \<and> dcp = 1 \<and> pcp = 1
      | ChunkedLocal x \<Rightarrow> 0 < x \<and> a = bs \<and> x mod bs = 0 \<and> \<not> d \<and> dcp = 1 \<and> pcp = 1
      | _ \<Rightarrow> False)"

text \<open>The outcome of a search at \<open>max_length\<close>: it returns a servable aligned prefix, without EAGLE the longest.\<close>

definition found_hit ::
  "block_pool \<Rightarrow> int list \<Rightarrow> manager_kind \<Rightarrow> int \<Rightarrow> nat \<Rightarrow> block_hash list \<Rightarrow> int \<Rightarrow> int \<Rightarrow> bool \<Rightarrow> (block_ref list list \<times> int) result \<Rightarrow> bool" where
  "found_hit p gids k H c hs a max_length d r \<longleftrightarrow> (\<exists>bl n. r = Inr (bl, int n * (int c * H)) \<and> servable p gids k H c hs n
     \<and> int n * (int c * H) mod a = 0 \<and> int n * (int c * H) \<le> max 0 (max_length - (if d then int c * H else 0))
     \<and> length bl = length gids \<and> (\<forall>j < length gids. serves p (gids ! j) k H c hs n (bl ! j))
     \<and> (\<not> d \<longrightarrow> (\<forall>n'. servable p gids k H c hs n' \<and> int n' * (int c * H) mod a = 0 \<and> int n' * (int c * H) \<le> max_length \<longrightarrow> n' \<le> n)))"

lemma multiple_ge: "0 < (a::int) \<Longrightarrow> a mod b = 0 \<Longrightarrow> b \<le> a"
  by (metis mod_0_imp_dvd zdvd_imp_le)

lemma blocks_le: "0 < (b::int) \<Longrightarrow> int m * b \<le> int n * b \<longleftrightarrow> m \<le> n"
  by simp

lemma full_found:
  assumes wf: "index_wf p" "groups_ok gids" and H: "hash_block_size p = H" "H > 0" "c > 0" "0 \<le> max_length" "a > 0"
    and a: "a mod (int c * H) = 0" and bs: "(if dcp > 1 then sb * dcp else sb) = int c * H" and k: "is_full k"
  shows "found_hit p gids k H c hs a max_length d (full_find_longest_cache_hit hs max_length gids p sb d a dcp)"
proof -
  let ?B = "int c * H"
  have B: "0 < ?B" "?B \<le> a" using H multiple_ge [OF H(5) a] by simp_all
  have nf: "needed_from k bs n = 0" for bs n using k by (auto simp: needed_from_def is_full_def split: manager_kind.splits)
  have hu: "hit_unit H c a = c" using B by (simp add: hit_unit_def)
  obtain u where u: "longest_prefix p gids c hs c H max_length u"
      "full_find_longest_cache_hit hs max_length gids p sb d a dcp = Inr (trim_hit d a ?B (prefix_lists p gids c hs u, int u * H))"
    using full_find_spec [OF wf H bs, where hs = hs and e = d] B hu by auto
  have "c dvd u" using u(1) by (simp add: longest_prefix_def)
  then obtain r where r: "u = r * c" by (metis dvdE mult.commute)
  have hit: "r * c \<le> length hs" "\<And>i. i < r \<Longrightarrow> cached_in p gids (block_key c hs i)" "int r * ?B \<le> max_length"
    using u(1) prefix_hit_mult [OF H(3), of p gids hs r] unfolding r by (auto simp: longest_prefix_def mult.assoc)
  define L where "L = round_down (int u * H - (if d \<and> 0 < u then min a ?B else 0)) a"
  note trim = trim_hit_spec [OF H(3,2,5) _ _ L_def, unfolded hu]
  have dv: "c dvd u" and imp: "a < ?B \<and> ?B mod a = 0 \<longrightarrow> a = H" using r B by simp_all
  have La: "L mod a = 0" unfolding L_def round_down_def by simp
  then have "?B dvd L" using a by (meson dvd_trans mod_0_imp_dvd)
  then obtain n where n: "L = int n * ?B" using trim(2) [OF dv imp] B
    by (metis dvd_div_mult_self nonneg_int_cases pos_imp_zdiv_nonneg_iff)
  have cd: "cdiv L ?B = int n" unfolding n by (rule cdiv_mult [OF B(1)])
  have le: "L \<le> int u * H - (if d \<and> 0 < u then ?B else 0)" using round_down_bounds [OF H(5)] B unfolding L_def by (auto simp: min_def)
  have nb: "int n * ?B \<le> int r * ?B - (if d \<and> 0 < u then ?B else 0)" using le unfolding n r by (simp add: mult.assoc)
  then have nB: "int n * ?B \<le> int r * ?B" using B(1) by (cases "d \<and> 0 < u") simp_all
  then have nr: "n \<le> r" using blocks_le [OF B(1)] by blast
  have bound: "int n * ?B \<le> max 0 (max_length - (if d then ?B else 0))"
  proof (cases "d \<and> u = 0")
    case True
    then show ?thesis using nr H(3) by (simp add: r)
  next
    case False
    then have "int n * ?B \<le> max_length - (if d then ?B else 0)" using nb hit(3) by (cases d) auto
    then show ?thesis by (simp add: le_max_iff_disj)
  qed
  have npb: "num_prefix_blocks c u = r" unfolding r by (rule num_prefix_mult [OF H(3)])
  let ?bl = "map (take n) (prefix_lists p gids c hs u)"
  have res: "full_find_longest_cache_hit hs max_length gids p sb d a dcp = Inr (?bl, int n * ?B)"
    unfolding u(2) trim(1) [OF dv imp] cd by (simp add: n)
  have entry: "?bl ! j ! i = found_at p (block_key c hs i) (gids ! j)" if "j < length gids" "i < n" for i j
    using that nr prefix_key_mult [of i r c hs] npb unfolding prefix_lists_def r by simp
  have lenj: "length (?bl ! j) = n" if "j < length gids" for j using that nr unfolding prefix_lists_def npb by simp
  have "n * c \<le> length hs" using hit(1) nr by (meson le_trans mult_le_mono1)
  then have sv: "servable p gids k H c hs n" using hit(2) nr H(3) by (auto simp: servable_def less_eq_div_iff_mult_less_eq)
  have sb: "serves p (gids ! j) k H c hs n (?bl ! j)" if "j < length gids" for j
    unfolding serves_def using lenj [OF that] entry [OF that] hit(2) nr found_at_in_pool [OF wf(1), of gids _ "gids ! j"] that by auto
  have "n' \<le> n" if "\<not> d" "servable p gids k H c hs n'" "int n' * ?B mod a = 0" "int n' * ?B \<le> max_length" for n'
  proof -
    have "n' * c \<le> length hs" "\<And>i. i < n' \<Longrightarrow> cached_in p gids (block_key c hs i)"
      using that(2) H(3) by (auto simp: servable_def nf less_eq_div_iff_mult_less_eq)
    then have "n' * c \<le> u" using u(1) that(4) prefix_hit_mult [OF H(3), of p gids hs n'] by (auto simp: longest_prefix_def mult.assoc)
    then have "int n' * ?B \<le> int u * H" using H(2) by (metis int_ops(7) mult.assoc mult_right_mono of_nat_mono less_imp_le)
    then have "int n' * ?B \<le> L" unfolding L_def using round_down_greatest [OF H(5)] that(1,3) by (simp add: mod_0_imp_dvd)
    then show ?thesis unfolding n using blocks_le [OF B(1)] by blast
  qed
  then show ?thesis unfolding found_hit_def using res sv La bound sb n
    by (intro exI [of _ ?bl] exI [of _ n]) (auto simp: prefix_lists_def)
qed

lemma window_entry:
  assumes "j < length gids" "s \<le> i" "i < n"
  shows "window_lists p gids c hs s n ! j ! i = found_at p (block_key c hs i) (gids ! j)"
  using assms nth_upt [of s "i - s" n] by (simp add: window_lists_def nth_append)

lemma window_serves:
  assumes "index_wf p" "j < length gids" "s \<le> n" "s \<le> needed_from k (int c * H) n"
    and "\<And>i. s \<le> i \<Longrightarrow> i < n \<Longrightarrow> cached_in p gids (block_key c hs i)"
  shows "serves p (gids ! j) k H c hs n (window_lists p gids c hs s n ! j)"
  unfolding serves_def
  using assms window_entry [OF assms(2)] found_at_in_pool [OF assms(1), of gids _ "gids ! j"] by (auto simp: window_lists_def)

lemma hash_blocks_cover:
  assumes "0 < H" "0 < c" "max_length div H \<le> int (length hs)"
  shows "nat (max_length div (int c * H)) \<le> length hs div c"
proof -
  have "max_length div (int c * H) = max_length div H div int c" using assms(1) by (simp add: zdiv_zmult2_eq mult.commute)
  also have "\<dots> \<le> int (length hs) div int c" using assms(2,3) by (intro zdiv_mono1) simp_all
  finally show ?thesis by (simp add: zdiv_int nat_le_iff)
qed

lemma swa_found:
  assumes wf: "index_wf p" "groups_ok gids" and H: "hash_block_size p = H" "H > 0" "c > 0" "0 \<le> max_length" "a > 0"
    and hs: "max_length div H \<le> int (length hs)" and w: "2 \<le> w"
  shows "found_hit p gids (SlidingWindow w x) H c hs a max_length d (swa_find_longest_cache_hit hs max_length gids p (int c * H) w d a 1 1)"
proof -
  let ?B = "int c * H" and ?k = "SlidingWindow w x"
  define m where "m = nat (max_length div ?B)"
  define nd where "nd = nat (max 1 (contiguous_blocks_for_hit w ?B d))"
  have B: "0 < ?B" and a0: "a \<noteq> 0" using H by simp_all
  have ml: "m \<le> length hs div c" unfolding m_def by (rule hash_blocks_cover [OF H(2,3) hs])
  obtain e s n where r: "swa_find_longest_cache_hit hs max_length gids p ?B w d a 1 1 = Inr (window_lists p gids c hs s n, int n * ?B)"
      "s \<le> n" "n \<le> e" "e \<le> m" "s = e - nd" "window_hit p gids c hs ?B a d nd e"
      "\<forall>e'. e < e' \<and> e' \<le> m \<longrightarrow> \<not> window_hit p gids c hs ?B a d nd e'" "?B = a \<or> int n * ?B mod a = 0"
      "\<not> d \<longrightarrow> n = e" "0 < s \<longrightarrow> nd \<le> n + 1 - s" "d \<and> (?B = a \<or> 0 < s) \<longrightarrow> n = e - 1" "d \<longrightarrow> n \<le> e - 1"
    using swa_find_spec [OF wf H(1-3) a0 refl m_def ml nd_def] by (elim exE conjE) (rule that; assumption)
  have tok: "int y * ?B \<le> max_length \<longleftrightarrow> y \<le> m" for y
    using le_div_iff_mult_le_int [OF B, of "int y" max_length] B H(4) by (auto simp: m_def nat_le_iff le_nat_iff pos_imp_zdiv_nonneg_iff)
  have "1 \<le> cdiv (w - 1) ?B" using less_cdiv_iff [OF B, of 0 "w - 1"] w by simp
  then have nd: "nd = nat (max 1 (contiguous_blocks_for_hit w ?B False)) + (if d then 1 else 0)"
    by (simp add: nd_def contiguous_blocks_for_hit_def Let_def max_def nat_add_distrib)
  have sn: "s \<le> needed_from ?k ?B n" using r(2,5,9,11) nd by (cases "s = 0") (auto simp: needed_from_def)
  have ca: "cached_in p gids (block_key c hs i)" if "s \<le> i" "i < n" for i using r(3,5,6) that by (simp add: window_hit_def)
  have sv: "servable p gids ?k H c hs n" unfolding servable_def using ca sn r(3,4) ml by auto
  have "n + (if d then 1 else 0) \<le> m \<or> n = 0" using r(3,4,12) by (cases "e = 0") auto
  then have bound: "int n * ?B \<le> max 0 (max_length - (if d then ?B else 0))"
    using tok [of "n + (if d then 1 else 0)"] by (auto simp: distrib_right le_max_iff_disj split: if_splits)
  have al: "int n * ?B mod a = 0" using r(8) by auto
  have greatest: "n' \<le> n" if "\<not> d" "servable p gids ?k H c hs n'" "int n' * ?B mod a = 0" "int n' * ?B \<le> max_length" for n'
  proof (rule ccontr)
    assume "\<not> n' \<le> n"
    then have "\<not> window_hit p gids c hs ?B a d nd n'" using r(7,9) that(1,4) tok by auto
    then show False using that(1-3) nd by (auto simp: window_hit_def aligned_end_def servable_def needed_from_def)
  qed
  show ?thesis unfolding found_hit_def
    using r(1) sv al bound greatest window_serves [OF wf(1) _ r(2) sn ca]
    by (intro exI [of _ "window_lists p gids c hs s n"] exI [of _ n]) (auto simp: window_lists_def)
qed

lemma chunk_start:
  assumes "0 < (b::int)" "0 < x" "x mod b = 0" "0 \<le> y"
  shows "int (nat (y div x * x div b)) * b = y div x * x"
proof -
  have "b dvd y div x * x" using assms(3) by (simp add: mod_eq_0_iff_dvd)
  then show ?thesis using assms by (simp add: pos_imp_zdiv_nonneg_iff)
qed

lemma chunked_found:
  assumes wf: "index_wf p" "groups_ok gids" and H: "hash_block_size p = H" "H > 0" "c > 0" "0 < x" "0 \<le> max_length"
    and hs: "max_length div H \<le> int (length hs)" and x: "x mod (int c * H) = 0"
  shows "found_hit p gids (ChunkedLocal x) H c hs (int c * H) max_length False
    (chunked_find_longest_cache_hit hs max_length gids p (int c * H) x False (int c * H) 1 1)"
proof -
  let ?B = "int c * H" and ?k = "ChunkedLocal x"
  define m where "m = nat (max_length div ?B)"
  define s where "s = nat (max_length div x * x div ?B)"
  have B: "0 < ?B" using H by simp
  have ml: "m \<le> length hs div c" unfolding m_def by (rule hash_blocks_cover [OF H(2,3) hs])
  obtain n where r: "chunked_find_longest_cache_hit hs max_length gids p ?B x False ?B 1 1 = Inr (window_lists p gids c hs s n, int n * ?B)"
      "s \<le> n" "n \<le> m" "\<forall>i. s \<le> i \<and> i < n \<longrightarrow> cached_in p gids (block_key c hs i)" "n = m \<or> \<not> cached_in p gids (block_key c hs n)"
    using chunked_find_spec [OF wf H refl m_def ml s_def] by (elim exE conjE) (rule that; assumption)
  have tok: "int y * ?B \<le> max_length \<longleftrightarrow> y \<le> m" for y
    using le_div_iff_mult_le_int [OF B, of "int y" max_length] B H(5) by (auto simp: m_def nat_le_iff le_nat_iff pos_imp_zdiv_nonneg_iff)
  have sB: "int s * ?B = max_length div x * x" unfolding s_def by (rule chunk_start [OF B H(4) x H(5)])
  have "max_length div x * x div x \<le> int n * ?B div x" using iffD2 [OF blocks_le [OF B] r(2)] H(4) by (intro zdiv_mono1) (simp_all only: sB)
  then have "max_length div x * x \<le> int n * ?B div x * x" using H(4) by (simp add: mult_right_mono)
  then have sn: "s \<le> needed_from ?k ?B n" unfolding s_def needed_from_def manager_kind.case
    using B by (intro nat_mono zdiv_mono1)
  have below: "needed_from ?k ?B n' \<le> s" if "int n' * ?B \<le> max_length" for n'
    unfolding s_def needed_from_def manager_kind.case using B H(4) that
    by (intro nat_mono zdiv_mono1 mult_right_mono) simp_all
  have sv: "servable p gids ?k H c hs n" unfolding servable_def using r(3,4) sn ml by auto
  have greatest: "n' \<le> n" if "servable p gids ?k H c hs n'" "int n' * ?B \<le> max_length" for n'
  proof (rule ccontr)
    assume "\<not> n' \<le> n"
    then have "needed_from ?k ?B n' \<le> n" "n < n'" "n \<noteq> m" using below [OF that(2)] r(2) tok that(2) by auto
    then show False using that(1) r(5) by (auto simp: servable_def)
  qed
  have "int n * ?B \<le> max_length" using tok r(3) by blast
  then show ?thesis unfolding found_hit_def
    using r(1,4) sv greatest window_serves [OF wf(1) _ r(2) sn]
    by (intro exI [of _ "window_lists p gids c hs s n"] exI [of _ n]) (auto simp: window_lists_def)
qed

lemma find_found:
  assumes "index_wf p" "groups_ok gids" "hash_block_size p = H" "H > 0" "c > 0" "0 \<le> max_length" "a > 0"
    and "max_length div H \<le> int (length hs)" "a mod (int c * H) = 0" "(if dcp > 1 then sb * dcp else sb) = int c * H"
    and "kind_ok k (int c * H) a dcp pcp d"
  shows "found_hit p gids k H c hs a max_length d (find_longest_cache_hit k sb hs max_length gids p d a dcp pcp)"
proof (cases k)
  case FullAttention
  then show ?thesis using full_found [OF assms(1-7,9,10), of k] by (simp add: find_longest_cache_hit_def is_full_def)
next
  case (RSWA w)
  then show ?thesis using full_found [OF assms(1-7,9,10), of k] by (simp add: find_longest_cache_hit_def is_full_def)
next
  case (SlidingWindow w x)
  then show ?thesis using swa_found [OF assms(1-8)] assms(10,11) by (simp add: find_longest_cache_hit_def kind_ok_def)
next
  case (ChunkedLocal x)
  then show ?thesis using chunked_found [OF assms(1-5) _ assms(6,8), of x] assms(10,11) by (simp add: find_longest_cache_hit_def kind_ok_def)
qed (use assms(11) in \<open>simp_all add: kind_ok_def\<close>)

subsection \<open>Coordinators the search runs on\<close>

text \<open>The block size of a group, its number of hash blocks, and the conditions the constructor checks.\<close>

definition group_block_size :: "coordinator \<Rightarrow> spec_group \<Rightarrow> int" where
  "group_block_size c g =
     (let dcp = dcp_world_size_for_kv_cache_spec (sg_spec g) (coord_dcp_world_size c)
      in if dcp > 1 then g_block_size (sg_spec g) * dcp else g_block_size (sg_spec g))"

definition group_hashes :: "coordinator \<Rightarrow> spec_group \<Rightarrow> nat" where
  "group_hashes c g = nat (group_block_size c g div hash_block_size (coord_pool c))"

definition search_ok :: "coordinator \<Rightarrow> spec_group \<Rightarrow> bool" where
  "search_ok c g \<longleftrightarrow> group_ids g \<noteq> []
     \<and> (\<forall>i \<in> set (group_ids g). i < length (single_type_managers c) \<and> i < length (kv_cache_groups c)
          \<and> sm_block_size (single_type_managers c ! i) = group_block_size c g \<and> group_ok (int i))
     \<and> 0 < group_block_size c g \<and> group_block_size c g mod hash_block_size (coord_pool c) = 0
     \<and> scheduler_block_size c mod group_block_size c g = 0
     \<and> kind_ok (g_kind (sg_spec g)) (group_block_size c g) (scheduler_block_size c)
         (dcp_world_size_for_kv_cache_spec (sg_spec g) (coord_dcp_world_size c)) (coord_pcp_world_size c) (sg_use_eagle g)"

definition coord_ok :: "coordinator \<Rightarrow> bool" where
  "coord_ok c \<longleftrightarrow> 0 < hash_block_size (coord_pool c) \<and> 0 < scheduler_block_size c \<and> \<not> enable_partial_hash_hits c
     \<and> attention_groups c \<noteq> [] \<and> distinct (concat (map group_ids (attention_groups c))) \<and> (\<forall>g \<in> set (attention_groups c). search_ok c g)"

text \<open>A group can serve a length in tokens; what the state says of a group searched at that length.\<close>

definition group_serves :: "coordinator \<Rightarrow> block_hash list \<Rightarrow> spec_group \<Rightarrow> int \<Rightarrow> bool" where
  "group_serves c hs g L \<longleftrightarrow> L mod scheduler_block_size c = 0 \<and> 0 \<le> L
     \<and> servable (coord_pool c) (map int (group_ids g)) (g_kind (sg_spec g)) (hash_block_size (coord_pool c)) (group_hashes c g) hs
         (nat (L div group_block_size c g))"

definition list_serves :: "coordinator \<Rightarrow> block_hash list \<Rightarrow> spec_group \<Rightarrow> nat \<Rightarrow> int \<Rightarrow> block_ref list \<Rightarrow> bool" where
  "list_serves c hs g i L bs \<longleftrightarrow> serves (coord_pool c) (int i) (g_kind (sg_spec g)) (hash_block_size (coord_pool c)) (group_hashes c g) hs
     (nat (L div group_block_size c g)) bs"

definition settled :: "coordinator \<Rightarrow> block_hash list \<Rightarrow> group_hits \<Rightarrow> spec_group \<Rightarrow> int \<Rightarrow> bool" where
  "settled c hs st g L \<longleftrightarrow> group_serves c hs g L
     \<and> (\<forall>i \<in> set (group_ids g). hit_length_by_group st ! i = L \<and> (\<exists>bs. hit_blocks_by_group st ! i = Some bs \<and> list_serves c hs g i L bs))"

definition unsearched :: "group_hits \<Rightarrow> spec_group \<Rightarrow> bool" where
  "unsearched st g \<longleftrightarrow> (\<forall>i \<in> set (group_ids g). hit_blocks_by_group st ! i = None)"

definition shape :: "coordinator \<Rightarrow> group_hits \<Rightarrow> bool" where
  "shape c st \<longleftrightarrow> length (hit_blocks_by_group st) = length (kv_cache_groups c) \<and> length (hit_length_by_group st) = length (kv_cache_groups c)"

definition same_at :: "group_hits \<Rightarrow> group_hits \<Rightarrow> nat set \<Rightarrow> bool" where
  "same_at st st' A \<longleftrightarrow> (\<forall>i \<in> A. hit_blocks_by_group st' ! i = hit_blocks_by_group st ! i \<and> hit_length_by_group st' ! i = hit_length_by_group st ! i)"

definition good :: "coordinator \<Rightarrow> int \<Rightarrow> group_hits \<Rightarrow> bool" where
  "good c L st \<longleftrightarrow> L mod scheduler_block_size c = 0 \<and> L \<le> longest_hit_length st"

lemma same_at_settled: "same_at st st' A \<Longrightarrow> set (group_ids g) \<subseteq> A \<Longrightarrow> settled c hs st' g L = settled c hs st g L"
  unfolding same_at_def settled_def by (metis (no_types, opaque_lifting) subsetD)

lemma same_at_unsearched: "same_at st st' A \<Longrightarrow> set (group_ids g) \<subseteq> A \<Longrightarrow> unsearched st' g = unsearched st g"
  unfolding same_at_def unsearched_def by (metis subsetD)

lemma same_at_trans: "same_at st st' A \<Longrightarrow> same_at st' st'' B \<Longrightarrow> same_at st st'' (A \<inter> B)"
  by (simp add: same_at_def)

lemma settled_unique: "settled c hs st g L \<Longrightarrow> settled c hs st g L' \<Longrightarrow> group_ids g \<noteq> [] \<Longrightarrow> L = L'"
  by (auto simp: settled_def) (metis list.set_sel(1))

lemma store_hits_spec:
  assumes "length gids = length bss" "distinct gids" "\<forall>i \<in> set gids. i < length (hit_blocks_by_group st) \<and> i < length (hit_length_by_group st)"
  shows "same_at st (store_hits gids bss n st) (- set gids)
    \<and> (\<forall>j < length gids. hit_blocks_by_group (store_hits gids bss n st) ! (gids ! j) = Some (bss ! j)
        \<and> hit_length_by_group (store_hits gids bss n st) ! (gids ! j) = n)
    \<and> length (hit_blocks_by_group (store_hits gids bss n st)) = length (hit_blocks_by_group st)
    \<and> length (hit_length_by_group (store_hits gids bss n st)) = length (hit_length_by_group st)"
  using assms
proof (induction gids bss arbitrary: st rule: list_induct2)
  case Nil
  then show ?case by (simp add: store_hits_def same_at_def)
next
  case (Cons g gs b bs)
  let ?st = "st\<lparr>hit_blocks_by_group := (hit_blocks_by_group st)[g := Some b], hit_length_by_group := (hit_length_by_group st)[g := n]\<rparr>"
  have step: "store_hits (g # gs) (b # bs) n st = store_hits gs bs n ?st" by (simp add: store_hits_def)
  have ih: "same_at ?st (store_hits gs bs n ?st) (- set gs)"
      "\<forall>j < length gs. hit_blocks_by_group (store_hits gs bs n ?st) ! (gs ! j) = Some (bs ! j) \<and> hit_length_by_group (store_hits gs bs n ?st) ! (gs ! j) = n"
      "length (hit_blocks_by_group (store_hits gs bs n ?st)) = length (hit_blocks_by_group st)"
      "length (hit_length_by_group (store_hits gs bs n ?st)) = length (hit_length_by_group st)"
    using Cons.IH [of ?st] Cons.prems by simp_all
  have 1: "same_at st (store_hits gs bs n ?st) (- set (g # gs))" using ih(1) by (simp add: same_at_def)
  have 2: "hit_blocks_by_group (store_hits gs bs n ?st) ! g = Some b \<and> hit_length_by_group (store_hits gs bs n ?st) ! g = n"
    using ih(1) Cons.prems by (simp add: same_at_def)
  show ?case unfolding step using 1 2 ih(2-4) by (auto simp: nth_Cons split: nat.splits)
qed

lemma store_hits_longest [simp]: "longest_hit_length (store_hits gids bss n st) = longest_hit_length st"
  unfolding store_hits_def by (induction gids arbitrary: bss st) (auto simp: zip_Cons1 split: list.splits)

subsection \<open>One group in a pass\<close>

lemma coord_okD:
  assumes "coord_ok c" "g \<in> set (attention_groups c)"
  shows "0 < hash_block_size (coord_pool c)" "0 < scheduler_block_size c" "search_ok c g" "distinct (group_ids g)"
    "cache_hit_alignment c = scheduler_block_size c" "groups_ok (map int (group_ids g))"
    "int (group_hashes c g) * hash_block_size (coord_pool c) = group_block_size c g" "0 < group_hashes c g" "0 < group_block_size c g"
    "eagle_margin c g m = sm_block_size m"
proof -
  let ?H = "hash_block_size (coord_pool c)"
  show H: "0 < ?H" "0 < scheduler_block_size c" and so: "search_ok c g" using assms by (auto simp: coord_ok_def)
  show "distinct (group_ids g)" using assms by (auto simp: coord_ok_def distinct_concat_iff)
  show "cache_hit_alignment c = scheduler_block_size c" "eagle_margin c g m = sm_block_size m"
    using assms(1) by (simp_all add: coord_ok_def cache_hit_alignment_def eagle_margin_def)
  show "groups_ok (map int (group_ids g))" using so by (auto simp: groups_ok_def search_ok_def)
  have b: "0 < group_block_size c g" "group_block_size c g mod ?H = 0" using so by (auto simp: search_ok_def)
  then have d: "0 < group_block_size c g div ?H" using H by (metis multiple_ge pos_imp_zdiv_pos_iff)
  then show "0 < group_hashes c g" by (simp add: group_hashes_def)
  show "int (group_hashes c g) * ?H = group_block_size c g" using d b(2) by (simp add: group_hashes_def mod_0_imp_dvd)
  show "0 < group_block_size c g" by (rule b)
qed

lemma group_find_found:
  assumes c: "coord_ok c" "g \<in> set (attention_groups c)" and p: "index_wf (coord_pool c)"
    and m: "0 \<le> max_length" "max_length div hash_block_size (coord_pool c) \<le> int (length hs)" and d: "d \<longrightarrow> sg_use_eagle g"
  shows "\<exists>bl L. group_find c hs g max_length d = Inr (bl, L) \<and> group_serves c hs g L \<and> length bl = length (group_ids g)
    \<and> (\<forall>j < length (group_ids g). list_serves c hs g (group_ids g ! j) L (bl ! j))
    \<and> L \<le> max 0 (max_length - (if d then group_block_size c g else 0))
    \<and> (\<not> d \<longrightarrow> (\<forall>T. group_serves c hs g T \<and> T \<le> max_length \<longrightarrow> T \<le> L))"
proof -
  note o = coord_okD [OF c]
  let ?H = "hash_block_size (coord_pool c)" and ?k = "g_kind (sg_spec g)" and ?B = "group_block_size c g" and ?a = "scheduler_block_size c"
    and ?dcp = "dcp_world_size_for_kv_cache_spec (sg_spec g) (coord_dcp_world_size c)" and ?sb = "g_block_size (sg_spec g)"
  have so: "?a mod ?B = 0" "kind_ok ?k ?B ?a ?dcp (coord_pcp_world_size c) (sg_use_eagle g)" using o(3) by (auto simp: search_ok_def)
  have "kind_ok ?k ?B ?a ?dcp (coord_pcp_world_size c) d" using so(2) d by (auto simp: kind_ok_def split: manager_kind.splits)
  moreover have "(if ?dcp > 1 then ?sb * ?dcp else ?sb) = ?B" by (simp add: group_block_size_def Let_def)
  ultimately have "found_hit (coord_pool c) (map int (group_ids g)) ?k ?H (group_hashes c g) hs ?a max_length d (group_find c hs g max_length d)"
    unfolding group_find_def o(5) using find_found [OF p o(6) refl o(1,8) m(1) o(2) m(2)] so(1) o(7) by metis
  then obtain bl n where r: "group_find c hs g max_length d = Inr (bl, int n * ?B)"
      "servable (coord_pool c) (map int (group_ids g)) ?k ?H (group_hashes c g) hs n" "int n * ?B mod ?a = 0"
      "int n * ?B \<le> max 0 (max_length - (if d then ?B else 0))" "length bl = length (map int (group_ids g))"
      "\<forall>j < length (map int (group_ids g)). serves (coord_pool c) (map int (group_ids g) ! j) ?k ?H (group_hashes c g) hs n (bl ! j)"
      "\<not> d \<longrightarrow> (\<forall>n'. servable (coord_pool c) (map int (group_ids g)) ?k ?H (group_hashes c g) hs n' \<and> int n' * ?B mod ?a = 0
         \<and> int n' * ?B \<le> max_length \<longrightarrow> n' \<le> n)"
    unfolding found_hit_def o(7) by (elim exE conjE) (rule that; assumption)
  have n: "nat (int n * ?B div ?B) = n" using o(9) by simp
  have "T \<le> int n * ?B" if "\<not> d" "group_serves c hs g T" "T \<le> max_length" for T
  proof -
    have T: "?B dvd T" "0 \<le> T" using that(2) so(1) by (auto simp: group_serves_def mod_eq_0_iff_dvd intro: dvd_trans)
    then have t: "int (nat (T div ?B)) * ?B = T" using o(9) by (simp add: pos_imp_zdiv_nonneg_iff)
    then have "nat (T div ?B) \<le> n" using r(7) that by (simp add: group_serves_def)
    then show ?thesis using blocks_le [OF o(9)] t by metis
  qed
  then show ?thesis using r(1-6) o(9) n by (intro exI [of _ bl] exI [of _ "int n * ?B"]) (simp add: group_serves_def list_serves_def)
qed

definition group_step ::
  "coordinator \<Rightarrow> block_hash list \<Rightarrow> spec_group \<Rightarrow> int \<Rightarrow> group_hits \<Rightarrow> int \<Rightarrow> group_hits \<Rightarrow> int \<Rightarrow> bool" where
  "group_step c hs g cur st cur' st' L \<longleftrightarrow> shape c st' \<and> 0 \<le> cur' \<and> cur' \<le> cur \<and> settled c hs st' g L \<and> cur' \<le> L
     \<and> (\<not> is_full (g_kind (sg_spec g)) \<longrightarrow> L = cur') \<and> same_at st st' (- set (group_ids g))
     \<and> (unsearched st g \<or> good c cur st \<longrightarrow> good c cur' st')
     \<and> (\<forall>T. \<not> sg_use_eagle g \<and> group_serves c hs g T \<and> T \<le> cur \<and> (\<forall>L0. settled c hs st g L0 \<longrightarrow> T \<le> L0) \<longrightarrow> T \<le> cur')"

lemma search_group_spec:
  assumes c: "coord_ok c" "g \<in> set (attention_groups c)" and p: "index_wf (coord_pool c)"
    and m: "0 \<le> cur" "cur \<le> maxl" "maxl div hash_block_size (coord_pool c) \<le> int (length hs)"
    and st: "shape c st" "unsearched st g \<or> (\<exists>L. settled c hs st g L)"
  shows "\<exists>cur' st' L. search_group c hs maxl idx g (cur, st) = Inr (cur', st') \<and> group_step c hs g cur st cur' st' L"
proof -
  note o = coord_okD [OF c]
  let ?fst = "hd (group_ids g)" and ?B = "group_block_size c g"
  have ids: "group_ids g \<noteq> []" "\<forall>i \<in> set (group_ids g). i < length (single_type_managers c) \<and> i < length (kv_cache_groups c)
      \<and> sm_block_size (single_type_managers c ! i) = ?B" using o(3) by (auto simp: search_ok_def)
  then have fi: "?fst \<in> set (group_ids g)" "py_index (group_ids g) 0 = Inr ?fst" by (simp_all add: py_index_nth hd_conv_nth)
  then have ix: "py_index (single_type_managers c) (int ?fst) = Inr (single_type_managers c ! ?fst)"
      "py_index (hit_blocks_by_group st) (int ?fst) = Inr (hit_blocks_by_group st ! ?fst)" "sm_block_size (single_type_managers c ! ?fst) = ?B"
    using ids(2) st(1) by (simp_all add: py_index_nat shape_def)
  show ?thesis
  proof (cases "is_full (g_kind (sg_spec g)) \<and> hit_blocks_by_group st ! ?fst \<noteq> None")
    case True
    then obtain L where L: "settled c hs st g L" "\<not> unsearched st g" using st(2) fi(1) by (auto simp: unsearched_def)
    then have len: "hit_length_by_group st ! ?fst = L" "0 \<le> L" "L mod scheduler_block_size c = 0" using fi(1) by (auto simp: settled_def group_serves_def)
    have "search_group c hs maxl idx g (cur, st) = Inr (min cur L, st)"
      unfolding search_group_def using True by (simp add: fi(2) ix len(1))
    moreover have "group_step c hs g cur st (min cur L) st L"
      unfolding group_step_def using L len m(1) st(1) True by (auto simp: same_at_def good_def min_def)
    ultimately show ?thesis by blast
  next
    case False
    define d where "d = (sg_use_eagle g \<and> idx \<notin> set (eagle_verified st))"
    define ml where "ml = (if d then min (cur + ?B) maxl else cur)"
    have ml0: "0 \<le> ml" "ml \<le> maxl" using m(1,2) o(9) by (auto simp: ml_def)
    then have "ml div hash_block_size (coord_pool c) \<le> int (length hs)" using zdiv_mono1 [OF ml0(2) o(1)] m(3) by linarith
    then obtain bl L where r: "group_find c hs g ml d = Inr (bl, L)" "group_serves c hs g L" "length bl = length (group_ids g)"
        "\<forall>j < length (group_ids g). list_serves c hs g (group_ids g ! j) L (bl ! j)"
        "L \<le> max 0 (ml - (if d then ?B else 0))" "\<not> d \<longrightarrow> (\<forall>T. group_serves c hs g T \<and> T \<le> ml \<longrightarrow> T \<le> L)"
      using group_find_found [OF c p ml0(1), where d = d] by (metis d_def)
    define st' where "st' = (store_hits (group_ids g) bl L st)\<lparr>eagle_verified := (if d then List.insert idx (eagle_verified st)
        else if L < cur then [] else eagle_verified st), longest_hit_length := max (longest_hit_length st) L\<rparr>"
    have "\<forall>i \<in> set (group_ids g). i < length (hit_blocks_by_group st) \<and> i < length (hit_length_by_group st)" using ids(2) st(1) by (simp add: shape_def)
    note sh = store_hits_spec [OF r(3) [symmetric] o(4) this, of L]
    have eq: "search_group c hs maxl idx g (cur, st) = Inr (L, st')"
      unfolding search_group_def Let_def prod.case fi(2) bindE_Inr ix o(10) if_not_P [OF False] d_def [symmetric] ml_def [symmetric] r(1) st'_def ..
    have Lc: "0 \<le> L" "L \<le> cur" "L mod scheduler_block_size c = 0" using r(2,5) m(1) by (auto simp: group_serves_def ml_def split: if_splits)
    have "settled c hs st' g L" unfolding settled_def using r(2,4) sh by (auto simp: st'_def in_set_conv_nth)
    moreover have "shape c st'" "same_at st st' (- set (group_ids g))" using sh st(1) by (simp_all add: st'_def shape_def same_at_def)
    moreover have "good c L st'" using Lc by (simp add: good_def st'_def)
    moreover have "T \<le> L" if "\<not> sg_use_eagle g" "group_serves c hs g T" "T \<le> cur" for T using r(6) that by (simp add: d_def ml_def)
    ultimately have "group_step c hs g cur st L st' L" unfolding group_step_def using Lc by blast
    then show ?thesis using eq by blast
  qed
qed

subsection \<open>A pass over the groups\<close>

definition ids_of :: "spec_group list \<Rightarrow> nat set" where
  "ids_of gs = set (concat (map group_ids gs))"

definition pass_done ::
  "coordinator \<Rightarrow> block_hash list \<Rightarrow> spec_group list \<Rightarrow> int \<Rightarrow> group_hits \<Rightarrow> int \<Rightarrow> group_hits \<Rightarrow> bool" where
  "pass_done c hs gs cur st cur' st' \<longleftrightarrow> shape c st' \<and> 0 \<le> cur' \<and> cur' \<le> cur \<and> same_at st st' (- ids_of gs)
     \<and> (\<forall>g \<in> set gs. \<exists>L. settled c hs st' g L \<and> cur' \<le> L \<and> (\<not> is_full (g_kind (sg_spec g)) \<longrightarrow> L \<le> cur))
     \<and> (gs \<noteq> [] \<and> (unsearched st (hd gs) \<or> good c cur st) \<longrightarrow> good c cur' st')
     \<and> (gs \<noteq> [] \<and> \<not> is_full (g_kind (sg_spec (last gs))) \<longrightarrow> settled c hs st' (last gs) cur')
     \<and> (\<forall>T \<le> cur. (\<forall>g \<in> set gs. \<not> sg_use_eagle g \<and> group_serves c hs g T \<and> (\<forall>L0. settled c hs st g L0 \<longrightarrow> T \<le> L0)) \<longrightarrow> T \<le> cur')"

lemma search_groups_spec:
  assumes c: "coord_ok c" "index_wf (coord_pool c)" "maxl div hash_block_size (coord_pool c) \<le> int (length hs)"
    and gs: "set gs \<subseteq> set (attention_groups c)" "distinct (concat (map group_ids gs))"
    and st: "0 \<le> cur" "cur \<le> maxl" "shape c st" "\<forall>g \<in> set gs. unsearched st g \<or> (\<exists>L. settled c hs st g L)"
  shows "\<exists>cur' st'. search_groups c hs maxl idx gs (cur, st) = Inr (cur', st') \<and> pass_done c hs gs cur st cur' st'"
  using gs st
proof (induction gs arbitrary: idx cur st)
  case Nil
  then show ?case by (simp add: pass_done_def same_at_def)
next
  case (Cons g gs)
  have g: "g \<in> set (attention_groups c)" and dj: "set (group_ids g) \<inter> ids_of gs = {}" using Cons.prems(1,2) by (auto simp: ids_of_def)
  obtain cur1 st1 L where s1: "search_group c hs maxl idx g (cur, st) = Inr (cur1, st1)" "group_step c hs g cur st cur1 st1 L"
    using search_group_spec [OF c(1) g c(2) Cons.prems(3,4) c(3) Cons.prems(5), of idx] Cons.prems(6) by (meson list.set_intros(1))
  note gd = s1(2) [unfolded group_step_def]
  have sub: "set (group_ids h) \<subseteq> ids_of gs" if "h \<in> set gs" for h using that by (auto simp: ids_of_def)
  then have rest: "settled c hs st1 h T = settled c hs st h T" "unsearched st1 h = unsearched st h" if "h \<in> set gs" for h T
    using that dj gd same_at_settled [of st st1 "- set (group_ids g)" h c hs T] same_at_unsearched [of st st1 "- set (group_ids g)" h] by blast+
  obtain cur2 st2 where s2: "search_groups c hs maxl (Suc idx) gs (cur1, st1) = Inr (cur2, st2)" "pass_done c hs gs cur1 st1 cur2 st2"
    using Cons.IH [of cur1 st1 "Suc idx"] Cons.prems gd rest by auto
  note pd = s2(2) [unfolded pass_done_def]
  have keep: "settled c hs st2 g L" using gd pd dj same_at_settled [of st1 st2 "- ids_of gs" g c hs L] by blast
  have "pass_done c hs (g # gs) cur st cur2 st2"
    unfolding pass_done_def
  proof (intro conjI)
    show "shape c st2" "0 \<le> cur2" "cur2 \<le> cur" using gd pd by linarith+
    show "same_at st st2 (- ids_of (g # gs))" using gd pd same_at_trans [of st st1 "- set (group_ids g)" st2 "- ids_of gs"] by (simp add: ids_of_def)
    show "\<forall>h \<in> set (g # gs). \<exists>L. settled c hs st2 h L \<and> cur2 \<le> L \<and> (\<not> is_full (g_kind (sg_spec h)) \<longrightarrow> L \<le> cur)"
    proof
      fix h assume "h \<in> set (g # gs)"
      then consider "h = g" | "h \<in> set gs" by auto
      then show "\<exists>L. settled c hs st2 h L \<and> cur2 \<le> L \<and> (\<not> is_full (g_kind (sg_spec h)) \<longrightarrow> L \<le> cur)"
      proof cases
        case 1
        then show ?thesis using keep gd pd by (intro exI [of _ L]) auto
      next
        case 2
        then show ?thesis using pd gd by (meson order_trans)
      qed
    qed
    show "g # gs \<noteq> [] \<and> (unsearched st (hd (g # gs)) \<or> good c cur st) \<longrightarrow> good c cur2 st2"
    proof (cases gs)
      case Nil
      then show ?thesis using s2(1) gd by auto
    next
      case (Cons h hs')
      then show ?thesis using pd gd by (metis list.distinct(1) list.sel(1))
    qed
    show "g # gs \<noteq> [] \<and> \<not> is_full (g_kind (sg_spec (last (g # gs)))) \<longrightarrow> settled c hs st2 (last (g # gs)) cur2"
    proof (cases gs)
      case Nil
      then show ?thesis using s2(1) gd by auto
    next
      case (Cons h hs')
      then show ?thesis using pd by auto
    qed
    show "\<forall>T \<le> cur. (\<forall>h \<in> set (g # gs). \<not> sg_use_eagle h \<and> group_serves c hs h T \<and> (\<forall>L0. settled c hs st h L0 \<longrightarrow> T \<le> L0)) \<longrightarrow> T \<le> cur2"
      using gd pd rest(1) by (meson list.set_intros(1,2))
  qed
  then show ?case using s1(1) s2(1) by simp
qed

subsection \<open>The loop\<close>

definition loop_done :: "coordinator \<Rightarrow> block_hash list \<Rightarrow> int \<Rightarrow> group_hits \<Rightarrow> int \<Rightarrow> group_hits \<Rightarrow> bool" where
  "loop_done c hs hit st L st' \<longleftrightarrow> 0 \<le> L \<and> L \<le> hit \<and> good c L st' \<and> shape c st' \<and> same_at st st' (- ids_of (attention_groups c))
     \<and> (\<forall>g \<in> set (attention_groups c). \<exists>Lg. settled c hs st' g Lg \<and> L \<le> Lg \<and> (\<not> is_full (g_kind (sg_spec g)) \<longrightarrow> Lg = L))
     \<and> (\<forall>T \<le> hit. (\<forall>g \<in> set (attention_groups c). \<not> sg_use_eagle g \<and> group_serves c hs g T \<and> (\<forall>L0. settled c hs st g L0 \<longrightarrow> T \<le> L0)) \<longrightarrow> T \<le> L)"

text \<open>The exits of the loop: no group shortened the candidate, or full attention and one other group agree.\<close>

lemma stable_exit:
  assumes "pass_done c hs (attention_groups c) hit st hit st'" "attention_groups c \<noteq> []"
    and "unsearched st (hd (attention_groups c)) \<or> good c hit st"
  shows "loop_done c hs hit st hit st'"
  using assms unfolding pass_done_def loop_done_def by (metis order_antisym order_refl)

lemma simple_exit:
  assumes pd: "pass_done c hs (attention_groups c) hit st cur st'" and s: "is_simple_hybrid c"
    and "unsearched st (hd (attention_groups c)) \<or> good c hit st"
  shows "loop_done c hs hit st cur st'"
proof -
  obtain f g where fg: "attention_groups c = [f, g]" "is_full (g_kind (sg_spec f))"
    using s by (auto simp: is_simple_hybrid_def length_Suc_conv numeral_2_eq_2)
  have "\<exists>L. settled c hs st' h L \<and> cur \<le> L \<and> (\<not> is_full (g_kind (sg_spec h)) \<longrightarrow> L = cur)" if "h \<in> set (attention_groups c)" for h
  proof (cases "is_full (g_kind (sg_spec h))")
    case True
    then show ?thesis using pd that unfolding pass_done_def by blast
  next
    case False
    then have "h = last (attention_groups c)" using that fg by auto
    then show ?thesis using pd that False unfolding pass_done_def by auto
  qed
  moreover have "attention_groups c \<noteq> []" using fg(1) by simp
  then have "good c cur st'" using pd assms(3) unfolding pass_done_def by blast
  ultimately show ?thesis using pd unfolding pass_done_def loop_done_def by blast
qed

lemma loop_continue:
  assumes pd: "pass_done c hs (attention_groups c) hit st cur st'" and ld: "loop_done c hs cur st' L st''"
    and ok: "coord_ok c"
  shows "loop_done c hs hit st L st''"
proof -
  note p = pd [unfolded pass_done_def] and l = ld [unfolded loop_done_def]
  have "T \<le> L" if T: "T \<le> hit" "\<forall>g \<in> set (attention_groups c). \<not> sg_use_eagle g \<and> group_serves c hs g T \<and> (\<forall>L0. settled c hs st g L0 \<longrightarrow> T \<le> L0)" for T
  proof -
    have Tc: "T \<le> cur" using p T by blast
    have "T \<le> L0" if g: "g \<in> set (attention_groups c)" "settled c hs st' g L0" for g L0
    proof -
      obtain L1 where "settled c hs st' g L1" "cur \<le> L1" using p g(1) by blast
      moreover have "group_ids g \<noteq> []" using coord_okD(3) [OF ok g(1)] by (simp add: search_ok_def)
      ultimately show ?thesis using settled_unique [OF g(2)] Tc by force
    qed
    then show ?thesis using l T(2) Tc by blast
  qed
  moreover have "same_at st st'' (- ids_of (attention_groups c))" using p l by (simp add: same_at_def)
  ultimately show ?thesis using p l unfolding loop_done_def by (meson order_trans)
qed

lemma search_loop_spec:
  assumes c: "coord_ok c" "index_wf (coord_pool c)" "maxl div hash_block_size (coord_pool c) \<le> int (length hs)"
    and st: "0 \<le> hit" "hit \<le> maxl" "shape c st" "\<forall>g \<in> set (attention_groups c). unsearched st g \<or> (\<exists>L. settled c hs st g L)"
    and g: "unsearched st (hd (attention_groups c)) \<or> good c hit st"
  shows "\<exists>L st'. search_loop c hs maxl hit st = Some (Inr (L, st')) \<and> loop_done c hs hit st L st'"
  using st g
proof (induction "nat hit" arbitrary: hit st rule: less_induct)
  case less
  have ag: "attention_groups c \<noteq> []" "distinct (concat (map group_ids (attention_groups c)))" using c(1) by (simp_all add: coord_ok_def)
  obtain cur st1 where s1: "search_groups c hs maxl 0 (attention_groups c) (hit, st) = Inr (cur, st1)"
      "pass_done c hs (attention_groups c) hit st cur st1"
    using search_groups_spec [OF c order_refl ag(2) less.prems(1-4)] by blast
  note pd = s1(2) [unfolded pass_done_def]
  have eq: "search_loop c hs maxl hit st = (if cur \<ge> hit then Some (Inr (hit, st1))
      else if is_simple_hybrid c then Some (Inr (cur, st1)) else search_loop c hs maxl cur st1)"
    by (subst search_loop.simps) (simp add: s1(1))
  show ?case
  proof (cases "cur \<ge> hit")
    case True
    then have "cur = hit" using pd by simp
    then show ?thesis using eq stable_exit [OF _ ag(1) less.prems(5)] s1(2) by auto
  next
    case False
    show ?thesis
    proof (cases "is_simple_hybrid c")
      case True
      then show ?thesis using False eq simple_exit [OF s1(2) True less.prems(5)] by auto
    next
      case not_simple: False
      have "nat cur < nat hit" "0 \<le> cur" "cur \<le> maxl" using False pd less.prems(2) by auto
      moreover have "good c cur st1" using pd ag(1) less.prems(5) by blast
      moreover have "\<forall>g \<in> set (attention_groups c). unsearched st1 g \<or> (\<exists>L. settled c hs st1 g L)" using pd by blast
      ultimately obtain L st2 where "search_loop c hs maxl cur st1 = Some (Inr (L, st2))" "loop_done c hs cur st1 L st2"
        using less.hyps [of cur st1] pd by blast
      then show ?thesis using eq False not_simple loop_continue [OF s1(2) _ c(1)] by auto
    qed
  qed
qed

subsection \<open>The final cut\<close>

lemma fold_cut_blocks:
  assumes "distinct gids" "\<forall>i \<in> set gids. i < length (hit_blocks_by_group st) \<and> i < length (hit_length_by_group st)
    \<and> (\<exists>bs. hit_blocks_by_group st ! i = Some bs \<and> n \<le> length bs)"
  shows "same_at st (fold (cut_blocks (int n) L) gids st) (- set gids)
    \<and> (\<forall>i \<in> set gids. hit_blocks_by_group (fold (cut_blocks (int n) L) gids st) ! i = map_option (take n) (hit_blocks_by_group st ! i)
        \<and> hit_length_by_group (fold (cut_blocks (int n) L) gids st) ! i = L)
    \<and> length (hit_blocks_by_group (fold (cut_blocks (int n) L) gids st)) = length (hit_blocks_by_group st)
    \<and> length (hit_length_by_group (fold (cut_blocks (int n) L) gids st)) = length (hit_length_by_group st)
    \<and> longest_hit_length (fold (cut_blocks (int n) L) gids st) = longest_hit_length st"
  using assms
proof (induction gids arbitrary: st)
  case Nil
  then show ?case by (simp add: same_at_def)
next
  case (Cons g gs)
  obtain bs where bs: "hit_blocks_by_group st ! g = Some bs" "n \<le> length bs" using Cons.prems(2) by auto
  let ?st = "st\<lparr>hit_blocks_by_group := (hit_blocks_by_group st)[g := Some (take n bs)], hit_length_by_group := (hit_length_by_group st)[g := L]\<rparr>"
  have st: "cut_blocks (int n) L g st = ?st" using bs by (simp add: cut_blocks_def py_bound_def)
  have pre: "\<forall>i \<in> set gs. i < length (hit_blocks_by_group ?st) \<and> i < length (hit_length_by_group ?st) \<and> (\<exists>b. hit_blocks_by_group ?st ! i = Some b \<and> n \<le> length b)"
    using Cons.prems by (auto simp: nth_list_update)
  let ?r = "fold (cut_blocks (int n) L) gs ?st"
  note ih = Cons.IH [OF _ pre]
  have ih1: "same_at ?st ?r (- set gs)"
      "\<forall>i \<in> set gs. hit_blocks_by_group ?r ! i = map_option (take n) (hit_blocks_by_group ?st ! i) \<and> hit_length_by_group ?r ! i = L"
      "length (hit_blocks_by_group ?r) = length (hit_blocks_by_group st)" "length (hit_length_by_group ?r) = length (hit_length_by_group st)"
      "longest_hit_length ?r = longest_hit_length st"
    using ih Cons.prems(1) by simp_all
  have "same_at st ?r (- set (g # gs))" using ih1(1) by (simp add: same_at_def)
  moreover have "hit_blocks_by_group ?r ! g = map_option (take n) (hit_blocks_by_group st ! g) \<and> hit_length_by_group ?r ! g = L"
    using ih1(1) Cons.prems bs by (simp add: same_at_def)
  moreover have "\<forall>i \<in> set gs. hit_blocks_by_group ?r ! i = map_option (take n) (hit_blocks_by_group st ! i)"
  proof
    fix i assume "i \<in> set gs"
    then show "hit_blocks_by_group ?r ! i = map_option (take n) (hit_blocks_by_group st ! i)"
      using ih1(2) Cons.prems(1) by (cases "i = g") auto
  qed
  ultimately show ?case using ih1(2-5) by (simp add: st)
qed

lemma serves_take:
  assumes "serves p gid k H c hs n bs" "is_full k" "m \<le> n"
  shows "serves p gid k H c hs m (take m bs)"
proof -
  have "needed_from k b x = 0" for b x using assms(2) by (auto simp: needed_from_def is_full_def split: manager_kind.splits)
  with assms(1,3) show ?thesis by (simp add: serves_def)
qed

lemma servable_less:
  assumes "servable p gids k H c hs n" "is_full k" "m \<le> n"
  shows "servable p gids k H c hs m"
proof -
  have "needed_from k b x = 0" for b x using assms(2) by (auto simp: needed_from_def is_full_def split: manager_kind.splits)
  with assms(1,3) show ?thesis by (simp add: servable_def)
qed

lemma truncate_group_spec:
  assumes c: "coord_ok c" "g \<in> set (attention_groups c)" and st: "shape c st" "settled c hs st g Lg" "L \<le> Lg" "0 \<le> L" "L mod scheduler_block_size c = 0"
    and nf: "\<not> is_full (g_kind (sg_spec g)) \<longrightarrow> Lg = L"
  shows "\<exists>st'. truncate_group c L g st = Inr st' \<and> shape c st' \<and> settled c hs st' g L \<and> same_at st st' (- set (group_ids g))
    \<and> longest_hit_length st' = longest_hit_length st"
proof (cases "is_full (g_kind (sg_spec g))")
  case False
  then show ?thesis using st nf by (simp add: truncate_group_def same_at_def)
next
  case True
  note o = coord_okD [OF c]
  let ?fst = "hd (group_ids g)" and ?B = "group_block_size c g"
  define n where "n = nat (L div ?B)"
  have ids: "group_ids g \<noteq> []" "\<forall>i \<in> set (group_ids g). i < length (single_type_managers c) \<and> i < length (kv_cache_groups c)
      \<and> sm_block_size (single_type_managers c ! i) = ?B" "scheduler_block_size c mod ?B = 0" using o(3) by (auto simp: search_ok_def)
  have fi: "?fst \<in> set (group_ids g)" "py_index (group_ids g) 0 = Inr ?fst" using ids(1) by (simp_all add: py_index_nth hd_conv_nth)
  have "?B dvd L" using ids(3) st(5) by (meson dvd_trans mod_0_imp_dvd)
  then have nB: "int n * ?B = L" using o(9) st(4) by (simp add: n_def pos_imp_zdiv_nonneg_iff)
  then have cd: "py_cdiv L ?B = Inr (int n)" using cdiv_mult [OF o(9), of "int n"] o(9) by (simp add: py_cdiv_def)
  have le: "n \<le> nat (Lg div ?B)" unfolding n_def using zdiv_mono1 [OF st(3) o(9)] by (rule nat_mono)
  have old: "\<exists>bs. hit_blocks_by_group st ! i = Some bs \<and> list_serves c hs g i Lg bs \<and> n \<le> length bs" if "i \<in> set (group_ids g)" for i
    using st(2) that le unfolding settled_def list_serves_def serves_def by fastforce
  let ?r = "fold (cut_blocks (int n) L) (group_ids g) st"
  have eq: "truncate_group c L g st = Inr ?r" using True fi ids(2) cd by (simp add: truncate_group_def py_index_nat)
  have "\<forall>i \<in> set (group_ids g). i < length (hit_blocks_by_group st) \<and> i < length (hit_length_by_group st) \<and> (\<exists>bs. hit_blocks_by_group st ! i = Some bs \<and> n \<le> length bs)"
    using old ids(2) st(1) by (auto simp: shape_def)
  note r = fold_cut_blocks [OF o(4) this, of L]
  have gs: "group_serves c hs g L" unfolding group_serves_def n_def [symmetric]
    using st(2,4,5) servable_less [OF _ True le] by (auto simp: settled_def group_serves_def)
  have "\<exists>bs. hit_blocks_by_group ?r ! i = Some bs \<and> list_serves c hs g i L bs" if i: "i \<in> set (group_ids g)" for i
  proof -
    obtain bs where "hit_blocks_by_group st ! i = Some bs" "list_serves c hs g i Lg bs" using old [OF i] by blast
    then show ?thesis using r i serves_take [OF _ True le] by (simp add: list_serves_def n_def [symmetric])
  qed
  then have "settled c hs ?r g L" unfolding settled_def using gs r by simp
  then show ?thesis using eq r st(1) by (simp add: shape_def)
qed

lemma truncate_all:
  assumes c: "coord_ok c" and gs: "set gs \<subseteq> set (attention_groups c)" "distinct (concat (map group_ids gs))"
    and L: "0 \<le> L" "L mod scheduler_block_size c = 0" and st: "shape c st"
    and g: "\<forall>g \<in> set gs. \<exists>Lg. settled c hs st g Lg \<and> L \<le> Lg \<and> (\<not> is_full (g_kind (sg_spec g)) \<longrightarrow> Lg = L)"
  shows "\<exists>st'. foldE (truncate_group c L) gs st = Inr st' \<and> shape c st' \<and> (\<forall>g \<in> set gs. settled c hs st' g L)
    \<and> same_at st st' (- ids_of gs) \<and> longest_hit_length st' = longest_hit_length st"
  using gs st g
proof (induction gs arbitrary: st)
  case Nil
  then show ?case by (simp add: same_at_def)
next
  case (Cons g gs)
  have g: "g \<in> set (attention_groups c)" and dj: "set (group_ids g) \<inter> ids_of gs = {}" using Cons.prems(1,2) by (auto simp: ids_of_def)
  obtain Lg where "settled c hs st g Lg" "L \<le> Lg" "\<not> is_full (g_kind (sg_spec g)) \<longrightarrow> Lg = L" using Cons.prems(4) by auto
  then obtain st1 where s1: "truncate_group c L g st = Inr st1" "shape c st1" "settled c hs st1 g L" "same_at st st1 (- set (group_ids g))"
      "longest_hit_length st1 = longest_hit_length st"
    using truncate_group_spec [OF c g Cons.prems(3) _ _ L] by blast
  have sub: "set (group_ids h) \<subseteq> ids_of gs" if "h \<in> set gs" for h using that by (auto simp: ids_of_def)
  have rest: "settled c hs st1 h T = settled c hs st h T" if "h \<in> set gs" for h T
    using that dj sub s1(4) same_at_settled [of st st1 "- set (group_ids g)" h c hs T] by blast
  obtain st2 where s2: "foldE (truncate_group c L) gs st1 = Inr st2" "shape c st2" "\<forall>g \<in> set gs. settled c hs st2 g L" "same_at st1 st2 (- ids_of gs)"
      "longest_hit_length st2 = longest_hit_length st1"
    using Cons.IH [OF _ _ s1(2)] Cons.prems rest by auto
  have "settled c hs st2 g L" using s1(3) s2(4) dj same_at_settled [of st1 st2 "- ids_of gs" g c hs L] by blast
  moreover have "same_at st st2 (- ids_of (g # gs))" using same_at_trans [OF s1(4) s2(4)] by (simp add: ids_of_def)
  ultimately show ?case using s1(1,5) s2 by simp
qed

lemma hybrid_find_spec:
  assumes c: "coord_ok c" "index_wf (coord_pool c)" "maxl div hash_block_size (coord_pool c) \<le> int (length hs)" "0 \<le> maxl"
  shows "\<exists>bls L u. hybrid_find_longest_cache_hit hs maxl c = Some (Inr (bls, L, u)) \<and> 0 \<le> L \<and> L \<le> maxl \<and> 0 \<le> u
    \<and> length bls = length (kv_cache_groups c) \<and> (\<forall>i < length bls. i \<notin> ids_of (attention_groups c) \<longrightarrow> bls ! i = [])
    \<and> (\<forall>g \<in> set (attention_groups c). group_serves c hs g L \<and> (\<forall>i \<in> set (group_ids g). list_serves c hs g i L (bls ! i)))
    \<and> ((\<forall>g \<in> set (attention_groups c). \<not> sg_use_eagle g) \<longrightarrow>
        (\<forall>T \<le> maxl. (\<forall>g \<in> set (attention_groups c). group_serves c hs g T) \<longrightarrow> T \<le> L))"
proof -
  let ?n = "length (kv_cache_groups c)" and ?ag = "attention_groups c"
  let ?st = "\<lparr>hit_blocks_by_group = replicate ?n None, hit_length_by_group = replicate ?n 0, longest_hit_length = 0, eagle_verified = []\<rparr>"
  have ag: "?ag \<noteq> []" "distinct (concat (map group_ids ?ag))" using c(1) by (simp_all add: coord_ok_def)
  have ids: "\<forall>i \<in> set (group_ids g). i < ?n" "group_ids g \<noteq> []" if "g \<in> set ?ag" for g
    using coord_okD(3) [OF c(1) that] by (auto simp: search_ok_def)
  then have un: "unsearched ?st g" and ns: "\<not> settled c hs ?st g L0" if "g \<in> set ?ag" for g L0
    using that by (auto simp: unsearched_def settled_def)
  have "shape c ?st" by (simp add: shape_def)
  then obtain L st1 where s1: "search_loop c hs maxl maxl ?st = Some (Inr (L, st1))" "loop_done c hs maxl ?st L st1"
    using search_loop_spec [OF c(1-3) c(4) order_refl, of ?st] un ag(1) hd_in_set by blast
  note ld = s1(2) [unfolded loop_done_def good_def]
  have l: "0 \<le> L" "L \<le> maxl" "L \<le> longest_hit_length st1" and fr: "same_at ?st st1 (- ids_of ?ag)" using ld by blast+
  obtain st2 where s2: "foldE (truncate_group c L) ?ag st1 = Inr st2" "shape c st2" "\<forall>g \<in> set ?ag. settled c hs st2 g L"
      "same_at st1 st2 (- ids_of ?ag)" "longest_hit_length st2 = longest_hit_length st1"
    using truncate_all [OF c(1) order_refl ag(2), of L st1 hs] ld by blast
  let ?bls = "map (\<lambda>b. case b of None \<Rightarrow> [] | Some bs \<Rightarrow> bs) (hit_blocks_by_group st2)"
  have eq: "hybrid_find_longest_cache_hit hs maxl c = Some (Inr (?bls, L, longest_hit_length st2 - L))"
    unfolding hybrid_find_longest_cache_hit_def Let_def s1(1) by (simp add: s2(1))
  have len: "length ?bls = ?n" using s2(2) by (simp add: shape_def)
  have empty: "?bls ! i = []" if "i < length ?bls" "i \<notin> ids_of ?ag" for i
  proof -
    have i: "i < length (hit_blocks_by_group st2)" "i < ?n" using that(1) len by simp_all
    have "hit_blocks_by_group st2 ! i = hit_blocks_by_group st1 ! i" using s2(4) that(2) unfolding same_at_def by blast
    also have "\<dots> = hit_blocks_by_group ?st ! i" using fr that(2) unfolding same_at_def by blast
    also have "\<dots> = None" using i(2) by simp
    finally show ?thesis using i(1) by simp
  qed
  have ls: "list_serves c hs g i L (?bls ! i)" if gi: "g \<in> set ?ag" "i \<in> set (group_ids g)" for g i
  proof -
    have "settled c hs st2 g L" using s2(3) gi(1) by (rule bspec)
    then obtain bs where bs: "hit_blocks_by_group st2 ! i = Some bs" "list_serves c hs g i L bs"
      using gi(2) unfolding settled_def by blast
    have "i < length (hit_blocks_by_group st2)" using ids(1) [OF gi(1)] gi(2) len by simp
    then have "?bls ! i = bs" by (simp add: bs(1))
    then show ?thesis using bs(2) by (simp only:)
  qed
  have gs: "group_serves c hs g L" if "g \<in> set ?ag" for g using s2(3) [THEN bspec, OF that] by (simp add: settled_def)
  have u: "0 \<le> longest_hit_length st2 - L" using l(3) s2(5) by simp
  have gr: "T \<le> L" if "\<forall>g \<in> set ?ag. \<not> sg_use_eagle g" "T \<le> maxl" "\<forall>g \<in> set ?ag. group_serves c hs g T" for T
  proof -
    have "\<forall>g \<in> set ?ag. \<not> sg_use_eagle g \<and> group_serves c hs g T \<and> (\<forall>L0. settled c hs ?st g L0 \<longrightarrow> T \<le> L0)" using ns that(1,3) by blast
    then show ?thesis using ld that(2) by blast
  qed
  show ?thesis
  proof (intro exI conjI)
    show "hybrid_find_longest_cache_hit hs maxl c = Some (Inr (?bls, L, longest_hit_length st2 - L))" by (rule eq)
    show "0 \<le> L" "L \<le> maxl" "0 \<le> longest_hit_length st2 - L" "length ?bls = ?n" by (fact l(1) l(2) u len)+
    show "\<forall>i < length ?bls. i \<notin> ids_of ?ag \<longrightarrow> ?bls ! i = []" using empty by (intro allI impI)
    show "\<forall>g \<in> set ?ag. group_serves c hs g L \<and> (\<forall>i \<in> set (group_ids g). list_serves c hs g i L (?bls ! i))"
      using gs ls by (intro ballI conjI)
    show "(\<forall>g \<in> set ?ag. \<not> sg_use_eagle g) \<longrightarrow> (\<forall>T \<le> maxl. (\<forall>g \<in> set ?ag. group_serves c hs g T) \<longrightarrow> T \<le> L)"
      using gr by (intro allI impI)
  qed
qed

end
