(* ===== verification/KV_Manager.thy ===== *)
theory KV_Manager
  imports Hybrid_Search
begin

text \<open>
  The KV-cache manager (\<open>src/vllm/v1/core/kv_cache_manager.py\<close>), the interface between the scheduler and the
  block tables: it looks up prefix hits, decides whether a request fits and allocates its slots. Its block
  pool is that of the coordinator. Without Mamba and HiSparse groups no group retains a longer hit, no
  boundary states are handed to a connector and a new step resets nothing.
\<close>

subsection \<open>The result of an allocation\<close>

text \<open>
  \<open>KVCacheBlocks\<close>. The manager compares block lists with those of its pre-built empty object by identity:
  \<open>EmptyBlocks\<close> is that object, with the number of groups; everything else is \<open>KVBlocks\<close>, even without a block.
\<close>

datatype kv_cache_blocks = EmptyBlocks nat | KVBlocks "block_ref list list"

fun blocks_of :: "kv_cache_blocks \<Rightarrow> block_ref list list" where
  "blocks_of (EmptyBlocks n) = replicate n []"
| "blocks_of (KVBlocks bss) = bss"

definition add_kv_cache_blocks :: "kv_cache_blocks \<Rightarrow> kv_cache_blocks \<Rightarrow> kv_cache_blocks" where
  "add_kv_cache_blocks a b = KVBlocks (map (\<lambda>(xs, ys). xs @ ys) (zip (blocks_of a) (blocks_of b)))"

definition kvb_get_block_ids :: "bool \<Rightarrow> int list option \<Rightarrow> kv_cache_blocks \<Rightarrow> int list list option result" where
  "kvb_get_block_ids allow_none ids b =
     bindE (case ids of None \<Rightarrow> Inr (blocks_of b) | Some gs \<Rightarrow> mapE (py_index (blocks_of b)) gs) (\<lambda>groups.
       if allow_none \<and> (\<forall>g \<in> set groups. length g = 0) then Inr None
       else Inr (Some (map (map block_id) groups)))"

definition get_unhashed_block_ids :: "store \<Rightarrow> kv_cache_blocks \<Rightarrow> int list result" where
  "get_unhashed_block_ids h b =
     bindE (assertE (length (blocks_of b) = 1)) (\<lambda>_.
       Inr (map block_id (filter (\<lambda>x. block_hash (h x) = None) (blocks_of b ! 0))))"

definition get_unhashed_block_ids_all_groups :: "store \<Rightarrow> kv_cache_blocks \<Rightarrow> int list list" where
  "get_unhashed_block_ids_all_groups h b =
     map (\<lambda>g. map block_id (filter (\<lambda>x. block_hash (h x) = None \<and> \<not> is_null (h x)) g)) (blocks_of b)"

definition new_empty :: "kv_cache_blocks \<Rightarrow> kv_cache_blocks" where
  "new_empty b = KVBlocks (map (\<lambda>_. []) (blocks_of b))"

subsection \<open>Statistics\<close>

record prefix_cache_stats =
  stats_reset :: bool
  stats_requests :: int
  stats_queries :: int
  stats_hits :: int
  preempted_requests :: int
  preempted_queries :: int
  preempted_hits :: int

definition new_prefix_cache_stats :: prefix_cache_stats where
  "new_prefix_cache_stats = \<lparr>stats_reset = False, stats_requests = 0, stats_queries = 0, stats_hits = 0,
     preempted_requests = 0, preempted_queries = 0, preempted_hits = 0\<rparr>"

definition stats_record :: "int \<Rightarrow> int \<Rightarrow> bool \<Rightarrow> prefix_cache_stats \<Rightarrow> prefix_cache_stats" where
  "stats_record num_toks num_hits preempted s =
     (if preempted
      then s\<lparr>preempted_requests := preempted_requests s + 1, preempted_queries := preempted_queries s + num_toks,
             preempted_hits := preempted_hits s + num_hits\<rparr>
      else s\<lparr>stats_requests := stats_requests s + 1, stats_queries := stats_queries s + num_toks, stats_hits := stats_hits s + num_hits\<rparr>)"

subsection \<open>State\<close>

text \<open>
  The event metadata is the kind and the sliding window of each group's spec, as \<open>get_kv_cache_spec_kind\<close> and
  \<open>get_kv_cache_spec_sliding_window\<close> name them.
\<close>

record kv_manager =
  kv_max_model_len :: int
  kv_enable_caching :: bool
  kv_enable_events :: bool
  log_stats :: bool
  prefix_cache_stats :: "prefix_cache_stats option"
  kv_coordinator :: coordinator
  watermark_blocks :: int
  kv_cache_event_metadata :: "(string \<times> int option) list"

definition num_kv_cache_groups :: "kv_manager \<Rightarrow> nat" where
  "num_kv_cache_groups k = length (kv_cache_groups (kv_coordinator k))"

definition empty_kv_cache_blocks :: "kv_manager \<Rightarrow> kv_cache_blocks" where
  "empty_kv_cache_blocks k = EmptyBlocks (num_kv_cache_groups k)"

abbreviation kv_pool :: "kv_manager \<Rightarrow> block_pool" where
  "kv_pool k \<equiv> coord_pool (kv_coordinator k)"

definition set_kv_pool :: "block_pool \<Rightarrow> kv_manager \<Rightarrow> kv_manager" where
  "set_kv_pool p k = k\<lparr>kv_coordinator := (kv_coordinator k)\<lparr>coord_pool := p\<rparr>\<rparr>"

text \<open>The constructor; the watermark is a fraction of the blocks, here a rational, rounded down.\<close>

definition init_kv_manager ::
  "kv_cache_group list \<Rightarrow> int \<Rightarrow> int \<Rightarrow> int \<Rightarrow> int \<Rightarrow> int option \<Rightarrow> bool \<Rightarrow> bool \<Rightarrow> int \<Rightarrow> bool \<Rightarrow> bool \<Rightarrow> int \<Rightarrow> int
     \<Rightarrow> bool \<Rightarrow> rat \<Rightarrow> bool \<Rightarrow> int option \<Rightarrow> string \<Rightarrow> bool \<Rightarrow> (string \<times> int option) list \<Rightarrow> kv_manager result" where
  "init_kv_manager groups num_blocks max_model_len sbs hbs max_in_flight caching eagle num_prefill_lookahead logs kv_events dcp pcp
       mets watermark needs_zeroing retention medium ui metadata =
     (let in_flight = (case max_in_flight of None \<Rightarrow> max_model_len | Some n \<Rightarrow> n) in
      bindE (get_kv_cache_coordinator groups num_blocks max_model_len in_flight eagle caching kv_events dcp pcp sbs hbs
               mets needs_zeroing num_prefill_lookahead retention medium ui) (\<lambda>c.
      bindE (assertE (watermark \<ge> 0)) (\<lambda>_.
        Inr \<lparr>kv_max_model_len = max_model_len, kv_enable_caching = caching, kv_enable_events = kv_events, log_stats = logs,
             prefix_cache_stats = (if logs then Some new_prefix_cache_stats else None), kv_coordinator = c,
             watermark_blocks = \<lfloor>watermark * of_int num_blocks\<rfloor>, kv_cache_event_metadata = metadata\<rparr>)))"

definition kv_usage :: "kv_manager \<Rightarrow> rat" where
  "kv_usage k = get_usage (kv_pool k)"

definition make_prefix_cache_stats :: "kv_manager \<Rightarrow> prefix_cache_stats option \<times> kv_manager" where
  "make_prefix_cache_stats k =
     (if \<not> log_stats k then (None, k)
      else (prefix_cache_stats k, k\<lparr>prefix_cache_stats := Some new_prefix_cache_stats\<rparr>))"

definition prefix_cache_lookup_enabled :: "request \<Rightarrow> kv_manager \<Rightarrow> bool" where
  "prefix_cache_lookup_enabled r k \<longleftrightarrow> kv_enable_caching k \<and> \<not> skip_reading_prefix_cache r"

definition record_prefix_cache_stats :: "request \<Rightarrow> int \<Rightarrow> kv_manager \<Rightarrow> kv_manager result" where
  "record_prefix_cache_stats r num_hits k =
     (if \<not> log_stats k \<or> \<not> prefix_cache_lookup_enabled r k then Inr k
      else case prefix_cache_stats k of
             None \<Rightarrow> Inl AssertionError
           | Some s \<Rightarrow> Inr (k\<lparr>prefix_cache_stats := Some (stats_record (num_tokens r) num_hits (num_preemptions r > 0) s)\<rparr>))"

definition create_kv_cache_blocks :: "block_ref list list \<Rightarrow> kv_manager \<Rightarrow> kv_cache_blocks" where
  "create_kv_cache_blocks bss k = (if \<exists>bs \<in> set bss. bs \<noteq> [] then KVBlocks bss else empty_kv_cache_blocks k)"

subsection \<open>Looking up a prefix\<close>

text \<open>
  \<open>get_computed_blocks\<close>: one token is always left to compute. The boundary returned last is where a group that
  retains little stopped short of a shared prefix. Emitting events may fill the request's hash memo.
\<close>

definition get_computed_blocks ::
  "embeds_digest \<Rightarrow> request \<Rightarrow> kv_manager \<Rightarrow> (kv_cache_blocks \<times> int \<times> int \<times> request \<times> kv_manager) result option" where
  "get_computed_blocks dig r k =
     (if \<not> prefix_cache_lookup_enabled r k then Some (Inr (empty_kv_cache_blocks k, 0, 0, r, k))
      else
        map_option (\<lambda>found. bindE found (\<lambda>(computed, num_new_computed, num_uncached).
          bindE (if num_new_computed > 0 \<and> kv_enable_events k \<and> kv_cache_report_mode r = Some ''full''
                 then coord_emit_cached_block_events dig r computed (kv_coordinator k)
                 else Inr (r, kv_coordinator k)) (\<lambda>(r', c).
            Inr (create_kv_cache_blocks computed k, num_new_computed,
                 if num_uncached \<noteq> 0 then num_new_computed + num_uncached else 0, r', k\<lparr>kv_coordinator := c\<rparr>))))
          (coord_find_longest_cache_hit (block_hashes r) (num_tokens r - 1) (kv_coordinator k)))"

text \<open>Without Mamba layers the hits of all groups agree and the local lookup is the plain one.\<close>

definition get_computed_blocks_for_connector ::
  "embeds_digest \<Rightarrow> request \<Rightarrow> kv_manager \<Rightarrow> (kv_cache_blocks \<times> int \<times> int \<times> bool \<times> request \<times> kv_manager) result option" where
  "get_computed_blocks_for_connector dig r k =
     map_option (\<lambda>found. bindE found (\<lambda>(bs, n, boundary, r', k'). Inr (bs, n, boundary, False, r', k'))) (get_computed_blocks dig r k)"

subsection \<open>Allocating slots\<close>

definition admission_watermark :: "request \<Rightarrow> bool \<Rightarrow> kv_manager \<Rightarrow> int" where
  "admission_watermark r has_scheduled_reqs k =
     (if has_scheduled_reqs \<and> status r \<in> {WAITING, PREEMPTED} then watermark_blocks k else 0)"

text \<open>The admission gate: the whole sequence must fit, counted with the cap of groups that recycle blocks.\<close>

definition full_sequence_blocked ::
  "request \<Rightarrow> block_ref list list \<Rightarrow> int \<Rightarrow> int \<Rightarrow> int \<Rightarrow> int \<Rightarrow> bool \<Rightarrow> kv_manager \<Rightarrow> bool result" where
  "full_sequence_blocked r new num_enc tot num_local watermark must_fit k =
     (if must_fit
      then bindE (coord_get_num_blocks_to_allocate (request_id r) (min (num_tokens r) (kv_max_model_len k)) new num_enc tot num_local True
                    (kv_coordinator k)) (\<lambda>n.
             Inr (n + watermark > get_num_free_blocks (kv_pool k)))
      else Inr False)"

text \<open>The three stages after the check: the computed blocks, the new blocks, the cache.\<close>

definition take_slots ::
  "embeds_digest \<Rightarrow> request \<Rightarrow> kv_cache_blocks \<Rightarrow> int \<Rightarrow> int \<Rightarrow> int \<Rightarrow> int \<Rightarrow> int \<Rightarrow> bool \<Rightarrow> coordinator \<Rightarrow> kv_manager
     \<Rightarrow> (kv_cache_blocks option \<times> request \<times> kv_manager) result" where
  "take_slots dig r computed num_local num_external num_slots num_enc num_to_cache delay_cache c1 k =
     bindE (if computed \<noteq> empty_kv_cache_blocks k \<or> num_external > 0
            then allocate_new_computed_blocks (request_id r) (blocks_of computed) num_local num_external c1 else Inr c1) (\<lambda>c2.
     bindE (coord_allocate_new_blocks (request_id r) num_slots num_enc c2) (\<lambda>(new_blocks, c3).
     let result = create_kv_cache_blocks new_blocks k in
     if delay_cache then Inr (Some result, r, k\<lparr>kv_coordinator := c3\<rparr>)
     else
       bindE (coord_cache_blocks dig r (min num_to_cache (num_tokens r)) c3) (\<lambda>(r', c4).
         Inr (Some result, r', k\<lparr>kv_coordinator := c4\<rparr>))))"

definition allocate_slots ::
  "embeds_digest \<Rightarrow> request \<Rightarrow> int \<Rightarrow> int \<Rightarrow> kv_cache_blocks option \<Rightarrow> int \<Rightarrow> int \<Rightarrow> bool \<Rightarrow> int \<Rightarrow> bool \<Rightarrow> int \<Rightarrow> bool \<Rightarrow> kv_manager
     \<Rightarrow> (kv_cache_blocks option \<times> request \<times> kv_manager) result" where
  "allocate_slots dig r num_new num_new_computed new_computed num_lookahead num_external delay_cache num_enc must_fit reserved
       has_scheduled_reqs k =
     (if num_new = 0 \<and> num_external = 0 then Inl ValueError
      else
        let rid = request_id r;
            computed = (case new_computed of None \<Rightarrow> empty_kv_cache_blocks k | Some b \<Rightarrow> b);
            num_local = num_computed_tokens r + num_new_computed;
            tot = min (num_local + num_external) (kv_max_model_len k);
            watermark = admission_watermark r has_scheduled_reqs k in
        bindE (full_sequence_blocked r (blocks_of computed) num_enc tot num_local watermark must_fit k) (\<lambda>blocked.
        if blocked then Inr (None, r, k)
        else
          let num_slots = min (tot + num_new + num_lookahead) (kv_max_model_len k) in
          bindE (coord_remove_skipped_blocks rid (max 0 (tot - num_in_flight_tokens r)) (Some (num_prompt_tokens r)) (kv_coordinator k)) (\<lambda>c1.
          bindE (coord_get_num_blocks_to_allocate rid num_slots (blocks_of computed) num_enc (num_local + num_external) num_local False c1) (\<lambda>n.
          if n + watermark > get_num_free_blocks (coord_pool c1) - reserved then Inr (None, r, k\<lparr>kv_coordinator := c1\<rparr>)
          else take_slots dig r computed num_local num_external num_slots num_enc (tot + num_new) delay_cache c1 k))))"

subsection \<open>Release\<close>

definition kv_free :: "request \<Rightarrow> kv_manager \<Rightarrow> kv_manager result" where
  "kv_free r k = bindE (coord_free (request_id r) (kv_coordinator k)) (\<lambda>c. Inr (k\<lparr>kv_coordinator := c\<rparr>))"

definition kv_remove_skipped_blocks :: "string \<Rightarrow> int \<Rightarrow> int option \<Rightarrow> kv_manager \<Rightarrow> kv_manager result" where
  "kv_remove_skipped_blocks rid processed prompt_tokens k =
     bindE (coord_remove_skipped_blocks rid processed prompt_tokens (kv_coordinator k)) (\<lambda>c. Inr (k\<lparr>kv_coordinator := c\<rparr>))"

definition kv_pop_blocks_for_free :: "request \<Rightarrow> kv_manager \<Rightarrow> block_ref list \<times> kv_manager" where
  "kv_pop_blocks_for_free r k =
     (let (bs, c) = coord_pop_blocks_for_free (request_id r) (kv_coordinator k) in (bs, k\<lparr>kv_coordinator := c\<rparr>))"

definition kv_evict_blocks :: "int list \<Rightarrow> kv_manager \<Rightarrow> kv_manager result" where
  "kv_evict_blocks ids k = bindE (evict_blocks ids (kv_pool k)) (\<lambda>p. Inr (set_kv_pool p k))"

definition kv_reset_prefix_cache :: "kv_manager \<Rightarrow> (bool \<times> kv_manager) result" where
  "kv_reset_prefix_cache k =
     bindE (coord_reset_prefix_cache (kv_coordinator k)) (\<lambda>(ok, c).
       let k' = k\<lparr>kv_coordinator := c\<rparr> in
       if \<not> ok then Inr (False, k')
       else if log_stats k
       then (case prefix_cache_stats k of
               None \<Rightarrow> Inl AssertionError
             | Some s \<Rightarrow> Inr (True, k'\<lparr>prefix_cache_stats := Some (s\<lparr>stats_reset := True\<rparr>)\<rparr>))
       else Inr (True, k'))"

subsection \<open>Queries\<close>

definition kv_get_num_common_prefix_blocks :: "string \<Rightarrow> kv_manager \<Rightarrow> int list \<times> kv_manager" where
  "kv_get_num_common_prefix_blocks rid k =
     (let (ns, c) = coord_get_num_common_prefix_blocks rid (kv_coordinator k) in (ns, k\<lparr>kv_coordinator := c\<rparr>))"

text \<open>Drained events; a stored block gets the metadata of its group.\<close>

definition annotate_event :: "(string \<times> int option) list \<Rightarrow> kv_event \<Rightarrow> kv_event \<times> (string \<times> int option) option" where
  "annotate_event metadata ev =
     (ev, case ev of
            BlockStored s \<Rightarrow>
              if bs_group_idx s < 0 \<or> bs_group_idx s \<ge> int (length metadata) then None
              else Some (metadata ! nat (bs_group_idx s))
          | _ \<Rightarrow> None)"

definition kv_take_events :: "kv_manager \<Rightarrow> (kv_event \<times> (string \<times> int option) option) list \<times> kv_manager" where
  "kv_take_events k =
     (let (evs, p) = take_events (kv_pool k) in (map (annotate_event (kv_cache_event_metadata k)) evs, set_kv_pool p k))"

definition kv_get_blocks :: "string \<Rightarrow> kv_manager \<Rightarrow> kv_cache_blocks" where
  "kv_get_blocks rid k = create_kv_cache_blocks (coord_get_blocks rid (kv_coordinator k)) k"

definition kv_get_block_ids :: "string \<Rightarrow> kv_manager \<Rightarrow> int list list" where
  "kv_get_block_ids rid k = map (map block_id) (blocks_of (kv_get_blocks rid k))"

definition get_block_ids_for_computed_tokens :: "string \<Rightarrow> int \<Rightarrow> kv_manager \<Rightarrow> int list list result" where
  "get_block_ids_for_computed_tokens rid num_computed k =
     mapE (\<lambda>(g, ids).
         if g_kind (g_spec g) = CrossAttention then Inr ids
         else bindE (py_cdiv num_computed (g_block_size (g_spec g))) (\<lambda>n. Inr (py_slice 0 n ids)))
       (zip (kv_cache_groups (kv_coordinator k)) (kv_get_block_ids rid k))"

definition group_cached_tokens :: "store \<Rightarrow> block_ref list \<Rightarrow> int" where
  "group_cached_tokens h bs = fold (\<lambda>b acc. max acc (case block_hash_num_tokens (h b) of None \<Rightarrow> 0 | Some n \<Rightarrow> n)) bs 0"

definition estimate_cached_tokens :: "request \<Rightarrow> kv_manager \<Rightarrow> int" where
  "estimate_cached_tokens r k =
     (case fold (\<lambda>(g, bs) acc.
                   if \<not> prefix_cacheable (g_spec g) \<or> g_kind (g_spec g) = CrossAttention then acc
                   else let n = group_cached_tokens (heap (kv_pool k)) bs
                        in Some (case acc of None \<Rightarrow> n | Some a \<Rightarrow> min a n))
                 (zip (kv_cache_groups (kv_coordinator k)) (blocks_of (kv_get_blocks (request_id r) k))) None of
        None \<Rightarrow> 0 | Some n \<Rightarrow> n)"

definition kv_cache_blocks_op :: "embeds_digest \<Rightarrow> request \<Rightarrow> int \<Rightarrow> kv_manager \<Rightarrow> (request \<times> kv_manager) result" where
  "kv_cache_blocks_op dig r num_computed k =
     (if kv_enable_caching k
      then bindE (coord_cache_blocks dig r num_computed (kv_coordinator k)) (\<lambda>(r', c). Inr (r', k\<lparr>kv_coordinator := c\<rparr>))
      else Inr (r, k))"

text \<open>The three sequences are zipped strictly.\<close>

fun truncate_groups :: "int \<Rightarrow> block_ref list list \<Rightarrow> st_manager list \<Rightarrow> kv_cache_group list \<Rightarrow> block_ref list list result" where
  "truncate_groups n [] [] [] = Inr []"
| "truncate_groups n (bs # bss) (m # ms) (g # gs) =
     bindE (if \<not> prefix_cacheable (g_spec g) then bindE (assertE (bs = [])) (\<lambda>_. Inr [])
            else if sm_block_size m = 0 then Inl ZeroDivisionError
            else bindE (assertE (n mod sm_block_size m = 0)) (\<lambda>_.
                 bindE (assertE (n div sm_block_size m \<le> int (length bs))) (\<lambda>_.
                   Inr (py_slice 0 (n div sm_block_size m) bs)))) (\<lambda>t.
     bindE (truncate_groups n bss ms gs) (\<lambda>ts. Inr (t # ts)))"
| "truncate_groups n _ _ _ = Inl ValueError"

definition truncate_computed_blocks :: "kv_cache_blocks \<Rightarrow> int \<Rightarrow> kv_manager \<Rightarrow> kv_cache_blocks result" where
  "truncate_computed_blocks bs num_computed k =
     bindE (truncate_groups num_computed (blocks_of bs) (single_type_managers (kv_coordinator k)) (kv_cache_groups (kv_coordinator k))) (\<lambda>ts.
       Inr (create_kv_cache_blocks ts k))"

subsection \<open>What the worker has to do\<close>

definition set_managers :: "st_manager list \<Rightarrow> kv_manager \<Rightarrow> kv_manager" where
  "set_managers ms k = k\<lparr>kv_coordinator := (kv_coordinator k)\<lparr>single_type_managers := ms\<rparr>\<rparr>"

definition kv_take_new_block_ids :: "kv_manager \<Rightarrow> int list \<times> kv_manager" where
  "kv_take_new_block_ids k =
     (let taken = map take_new_block_ids (single_type_managers (kv_coordinator k))
      in (concat (map fst taken), set_managers (map snd taken) k))"

text \<open>Reading a table inserts the request.\<close>

definition get_zeroing_block_ids_in_range :: "string \<Rightarrow> int \<Rightarrow> int \<Rightarrow> kv_manager \<Rightarrow> (int list \<times> kv_manager) result" where
  "get_zeroing_block_ids_in_range rid start_token end_token k =
     bindE (mapE (\<lambda>m.
         if record_new_block_ids m
         then if sm_block_size m = 0 then Inl ZeroDivisionError
              else Inr (map block_id (py_slice (start_token div sm_block_size m) (cdiv end_token (sm_block_size m)) (req_blocks rid m)), touch_req rid m)
         else Inr ([], m)) (single_type_managers (kv_coordinator k))) (\<lambda>rs.
       Inr (concat (map fst rs), set_managers (map snd rs) k))"

definition record_blocks_for_zeroing :: "string \<Rightarrow> int \<Rightarrow> kv_manager \<Rightarrow> kv_manager result" where
  "record_blocks_for_zeroing rid start_token k =
     bindE (mapE (\<lambda>m.
         if record_new_block_ids m
         then if sm_block_size m = 0 then Inl ZeroDivisionError
              else bindE (assertE (start_token mod sm_block_size m = 0)) (\<lambda>_.
                let bs = req_blocks rid m in
                Inr ((touch_req rid m)\<lparr>new_block_ids := new_block_ids m
                       @ map block_id (py_slice (start_token div sm_block_size m) (int (length bs)) bs)\<rparr>))
         else Inr m) (single_type_managers (kv_coordinator k))) (\<lambda>ms.
       Inr (set_managers ms k))"

definition take_kv_cache_block_copies :: "kv_manager \<Rightarrow> (int \<times> int) list \<times> block_ref list \<times> kv_manager" where
  "take_kv_cache_block_copies k =
     (let taken = map take_pending_cow_copies (single_type_managers (kv_coordinator k));
          pending = concat (map fst taken)
      in (map (\<lambda>(src, dst). (block_id src, block_id dst)) pending, concat (map (\<lambda>(src, dst). [src, dst]) pending),
          set_managers (map snd taken) k))"

end
