(* ===== verification/Coordinator_Inv.thy ===== *)
theory Coordinator_Inv
  imports Coordinator
begin

text \<open>
  The invariant of a coordinator: the references of all managers together account for the counts of the
  shared pool, and a block that a request has not cached yet (the tail of its table) appears in no other tail and
  carries no key. The lemmas lift the steps of one manager to the loop over all of them.
\<close>

subsection \<open>Uncached tails\<close>

definition cached_blocks_of :: "st_manager \<Rightarrow> string \<Rightarrow> nat" where
  "cached_blocks_of m rid = (case num_cached_block m rid of None \<Rightarrow> 0 | Some n \<Rightarrow> nat n)"

definition tail_at :: "st_manager \<Rightarrow> string \<Rightarrow> nat \<Rightarrow> block_ref \<Rightarrow> bool" where
  "tail_at m rid i b \<longleftrightarrow> cached_blocks_of m rid \<le> i \<and> i < length (req_blocks rid m) \<and> req_blocks rid m ! i = b \<and> b \<noteq> null_block"

definition tail_set :: "st_manager \<Rightarrow> block_ref set" where
  "tail_set m = {b. \<exists>rid i. tail_at m rid i b}"

definition tails_unique :: "st_manager \<Rightarrow> bool" where
  "tails_unique m \<longleftrightarrow> (\<forall>b rid i rid' i'. tail_at m rid i b \<and> tail_at m rid' i' b \<longrightarrow> rid = rid' \<and> i = i')"

definition keyless :: "block_pool \<Rightarrow> block_ref set \<Rightarrow> bool" where
  "keyless p B \<longleftrightarrow> (enable_caching p \<longrightarrow> (\<forall>b \<in> B. keys_of p b = []))"

text \<open>
  The invariant of a manager among others: \<open>ext\<close> counts the references held elsewhere, \<open>T\<close> are the uncached
  blocks of the others.
\<close>

definition minv :: "(block_ref \<Rightarrow> int) \<Rightarrow> block_ref set \<Rightarrow> st_manager \<Rightarrow> block_pool \<Rightarrow> block_ref list \<Rightarrow> bool" where
  "minv ext T m p xs \<longleftrightarrow> st_inv ext m p xs \<and> partial_hit_reqs m = Map.empty \<and> (\<forall>rid n. num_cached_block m rid = Some n \<longrightarrow> 0 \<le> n)
     \<and> (\<forall>b \<in> T. 0 < ext b) \<and> keyless p T \<and> tails_unique m \<and> keyless p (tail_set m) \<and> tail_set m \<inter> T = {}"

lemma minvD:
  assumes "minv ext T m p xs"
  shows "st_inv ext m p xs" "partial_hit_reqs m = Map.empty" "\<And>rid n. num_cached_block m rid = Some n \<Longrightarrow> 0 \<le> n"
    "\<And>b. b \<in> T \<Longrightarrow> 0 < ext b" "keyless p T" "tails_unique m" "keyless p (tail_set m)" "tail_set m \<inter> T = {}"
  using assms by (auto simp: minv_def)

lemma tail_in_owned: "tail_at m rid i b \<Longrightarrow> b \<in> set (owned m)"
  using req_blocks_owned [of rid m] by (auto simp: tail_at_def)

lemma free_not_owned:
  assumes "st_inv ext m p xs" "b \<in> set xs"
  shows "b \<notin> set (owned m)" "ext b = 0" "b \<noteq> null_block"
proof -
  note d = st_invD [OF assms(1)]
  have b: "in_pool p b" "ref_cnt (heap p b) = 0" using pool_wfD(5) [OF d(1)] assms(2) by auto
  then have "own_count m b + ext b = 0" using d(4) by simp
  then have "own_count m b = 0" "ext b = 0" using d(3) [of b] by (auto simp: own_count_def)
  then show "b \<notin> set (owned m)" "ext b = 0" by (simp_all add: own_count_def count_list_0_iff)
  show "b \<noteq> null_block" using b(1) in_pool_not_null by blast
qed

text \<open>
  One request changes its table: what was a tail stays where it is, and everything new in the tail comes
  from the free list.
\<close>

lemma minv_change:
  assumes inv: "minv ext T m p xs" and st: "st_inv ext m' q ys" and cf: "config q = config p"
    and fr: "partial_hit_reqs m' = Map.empty" "\<And>rid'. rid' \<noteq> rid \<Longrightarrow> req_blocks rid' m' = req_blocks rid' m"
      "\<And>rid'. rid' \<noteq> rid \<Longrightarrow> num_cached_block m' rid' = num_cached_block m rid'" "\<And>n. num_cached_block m' rid = Some n \<Longrightarrow> 0 \<le> n"
    and tail: "\<And>i b. tail_at m' rid i b \<Longrightarrow> tail_at m rid i b \<or> b \<in> set xs \<and> (\<forall>i'. tail_at m' rid i' b \<longrightarrow> i' = i)"
    and keys: "\<And>b. keys_of q b = keys_of p b \<or> keys_of q b = []" "\<And>b. enable_caching p \<Longrightarrow> b \<in> set xs \<Longrightarrow> b \<in> tail_set m' \<Longrightarrow> keys_of q b = []"
  shows "minv ext T m' q ys" "keyless q T"
proof -
  note d = minvD [OF inv]
  have ec: "enable_caching q = enable_caching p" using cf by (simp add: config_def)
  have old: "tail_at m' rid' i b \<longleftrightarrow> tail_at m rid' i b" if "rid' \<noteq> rid" for rid' i b
    using fr(2,3) [OF that] by (simp add: tail_at_def cached_blocks_of_def)
  have src: "tail_at m rid' i b \<or> b \<in> set xs \<and> rid' = rid \<and> (\<forall>i'. tail_at m' rid i' b \<longrightarrow> i' = i)" if "tail_at m' rid' i b" for rid' i b
    using that tail old by (cases "rid' = rid") auto
  have nf: "\<not> tail_at m rid' i b" if "b \<in> set xs" for rid' i b using free_not_owned(1) [OF d(1) that] tail_in_owned by blast
  have "rid1 = rid2 \<and> i1 = i2" if t: "tail_at m' rid1 i1 b" "tail_at m' rid2 i2 b" for b rid1 i1 rid2 i2
  proof (cases "b \<in> set xs")
    case True
    then show ?thesis using src [OF t(1)] src [OF t(2)] nf t by blast
  next
    case False
    then have "tail_at m rid1 i1 b" "tail_at m rid2 i2 b" using src [OF t(1)] src [OF t(2)] by auto
    then show ?thesis using d(6) by (auto simp: tails_unique_def)
  qed
  then have uq: "tails_unique m'" unfolding tails_unique_def by blast
  have ts: "b \<in> tail_set m \<or> b \<in> set xs" if "b \<in> tail_set m'" for b using that src unfolding tail_set_def by blast
  have "b \<notin> T" if "b \<in> tail_set m'" for b
    using ts [OF that] d(8) d(4) [of b] free_not_owned(2) [OF d(1), of b] by auto
  moreover show kt: "keyless q T" using d(5) keys(1) unfolding keyless_def ec by metis
  moreover have "keyless q (tail_set m')" unfolding keyless_def ec
  proof (intro impI ballI)
    fix b assume e: "enable_caching p" and b: "b \<in> tail_set m'"
    show "keys_of q b = []"
    proof (cases "b \<in> set xs")
      case False
      then have "keys_of p b = []" using ts [OF b] d(7) e by (auto simp: keyless_def)
      then show ?thesis using keys(1) [of b] by simp
    qed (use keys(2) e b in blast)
  qed
  moreover have "0 \<le> n" if "num_cached_block m' rid' = Some n" for rid' n using that fr(3,4) d(3) by (cases "rid' = rid") auto
  ultimately show "minv ext T m' q ys" using st fr(1) d(4) uq by (auto simp: minv_def)
qed

definition others_same :: "string \<Rightarrow> st_manager \<Rightarrow> st_manager \<Rightarrow> bool" where
  "others_same rid m m' \<longleftrightarrow> (\<forall>rid'. rid' \<noteq> rid \<longrightarrow> req_blocks rid' m' = req_blocks rid' m \<and> num_cached_block m' rid' = num_cached_block m rid')"

text \<open>A step that adds nothing to the tails and leaves the keys alone.\<close>

lemma minv_shrink:
  assumes inv: "minv ext T m p xs" and st: "st_inv ext m' q ys" and cf: "config q = config p" "keys_of q = keys_of p"
    and fr: "partial_hit_reqs m' = Map.empty" "others_same rid m m'" "\<And>n. num_cached_block m' rid = Some n \<Longrightarrow> 0 \<le> n"
    and tail: "\<And>i b. tail_at m' rid i b \<Longrightarrow> tail_at m rid i b"
  shows "minv ext T m' q ys" "keyless q T"
proof -
  note d = minvD [OF inv]
  have all: "tail_at m rid' i b" if t: "tail_at m' rid' i b" for rid' i b
  proof (cases "rid' = rid")
    case True
    then show ?thesis using t tail by simp
  next
    case False
    then have "req_blocks rid' m' = req_blocks rid' m" "num_cached_block m' rid' = num_cached_block m rid'" using fr(2) by (simp_all add: others_same_def)
    then show ?thesis using t by (simp add: tail_at_def cached_blocks_of_def)
  qed
  have sub: "tail_set m' \<subseteq> tail_set m" using all unfolding tail_set_def by blast
  have ec: "enable_caching q = enable_caching p" using cf(1) by (simp add: config_def)
  have kl: "keyless q B = keyless p B" for B unfolding keyless_def ec cf(2) ..
  show "keyless q T" unfolding kl by (rule d(5))
  have "tails_unique m'" using d(6) all unfolding tails_unique_def by blast
  moreover have "keyless q (tail_set m')" unfolding kl using d(7) sub unfolding keyless_def by blast
  moreover have "tail_set m' \<inter> T = {}" using d(8) sub by blast
  moreover have "0 \<le> n" if "num_cached_block m' rid' = Some n" for rid' n
    using that fr(2,3) d(3) unfolding others_same_def by (cases "rid' = rid") metis+
  ultimately show "minv ext T m' q ys" unfolding minv_def kl using st fr(1) d(4,5) by blast
qed

subsection \<open>Steps of one manager\<close>

text \<open>
  What a step promises: the invariant for the same surroundings, the configuration of the pool, and at most
  \<open>n\<close> blocks fewer in the free list.
\<close>

definition stepped ::
  "(block_ref \<Rightarrow> int) \<Rightarrow> block_ref set \<Rightarrow> block_pool \<Rightarrow> block_ref list \<Rightarrow> int \<Rightarrow> st_manager \<Rightarrow> block_pool \<Rightarrow> block_ref list \<Rightarrow> bool" where
  "stepped ext T p xs n m' q ys \<longleftrightarrow> minv ext T m' q ys \<and> keyless q T \<and> config q = config p \<and> int (length xs) - n \<le> int (length ys)"

lemma grow_step:
  assumes inv: "minv ext T m p xs" and n: "0 \<le> n" "n \<le> int (length xs)"
    and m': "req_to_blocks m' = req_to_blocks (set_req_blocks rid (req_blocks rid m @ take (nat n) xs) m)"
      "pending_cow_copies m' = pending_cow_copies m" "sm_block_size m' = sm_block_size m" "partial_hit_reqs m' = partial_hit_reqs m"
      "num_cached_block m' = num_cached_block m"
  shows "\<exists>q. get_new_blocks n p = Inr (take (nat n) xs, q) \<and> stepped ext T p xs n m' q (drop (nat n) xs)"
proof -
  note d = minvD [OF inv]
  let ?new = "take (nat n) xs"
  obtain q where q: "get_new_blocks n p = Inr (?new, q)" "st_inv ext m' q (drop (nat n) xs)" "config q = config p"
    using grow_table [OF d(1) n m'(1-4)] by blast
  have k: "keys_of q = (\<lambda>c. if enable_caching p \<and> c \<in> set ?new then [] else keys_of p c)"
    using get_new_blocks_spec [OF st_invD(1) [OF d(1)] n(1)] n(2) q(1) by auto
  have rb: "req_blocks rid' m' = (if rid' = rid then req_blocks rid m @ ?new else req_blocks rid' m)" for rid'
    using m'(1) req_blocks_set [of rid' rid "req_blocks rid m @ ?new" m] by (simp add: req_blocks_def)
  have ta: "tail_at m rid i b \<or> b \<in> set ?new \<and> length (req_blocks rid m) \<le> i \<and> ?new ! (i - length (req_blocks rid m)) = b \<and> i - length (req_blocks rid m) < length ?new"
    if "tail_at m' rid i b" for i b
  proof (cases "i < length (req_blocks rid m)")
    case True
    then show ?thesis using that m'(5) by (simp add: tail_at_def cached_blocks_of_def rb nth_append)
  next
    case False
    have e: "(req_blocks rid m @ ?new) ! i = b" "i < length (req_blocks rid m @ ?new)" using that by (simp_all add: tail_at_def rb)
    have n1: "?new ! (i - length (req_blocks rid m)) = b" using e(1) False by (simp only: nth_append if_False)
    have n2: "i - length (req_blocks rid m) < length ?new" using e(2) False unfolding length_append by linarith
    have "b \<in> set ?new" using nth_mem [OF n2] unfolding n1 .
    then show ?thesis using False n1 n2 by (intro disjI2 conjI) (simp_all only: not_less)
  qed
  have "i' = i" if t: "tail_at m' rid i b" "tail_at m' rid i' b" "b \<in> set xs" for i i' b
  proof -
    have "\<not> tail_at m rid j b" for j using free_not_owned(1) [OF d(1) t(3)] tail_in_owned by blast
    then have "?new ! (i - length (req_blocks rid m)) = ?new ! (i' - length (req_blocks rid m))" "length (req_blocks rid m) \<le> i"
      "i - length (req_blocks rid m) < length ?new" "i' - length (req_blocks rid m) < length ?new" "length (req_blocks rid m) \<le> i'"
      using ta [OF t(1)] ta [OF t(2)] by auto
    moreover have "distinct ?new" using pool_wfD(2) [OF st_invD(1) [OF d(1)]] by simp
    ultimately show ?thesis using nth_eq_iff_index_eq [of ?new] by fastforce
  qed
  then have tail: "tail_at m rid i b \<or> b \<in> set xs \<and> (\<forall>i'. tail_at m' rid i' b \<longrightarrow> i' = i)" if "tail_at m' rid i b" for i b
    using ta [OF that] that by (metis in_set_takeD)
  have kn: "keys_of q b = []" if b: "enable_caching p" "b \<in> set xs" "b \<in> tail_set m'" for b
  proof -
    obtain rid' i where t: "tail_at m' rid' i b" using b(3) by (auto simp: tail_set_def)
    have nt: "\<not> tail_at m rid'' j b" for rid'' j using free_not_owned(1) [OF d(1) b(2)] tail_in_owned by blast
    have "rid' = rid" using t nt [of rid' i] m'(5) by (auto simp: tail_at_def cached_blocks_of_def rb split: if_splits)
    then have "b \<in> set ?new" using ta t nt by blast
    then show ?thesis using k b(1) by simp
  qed
  have "minv ext T m' q (drop (nat n) xs)" "keyless q T"
    using minv_change [OF inv q(2,3) _ _ _ _ tail _ kn] k rb m'(4,5) d(2,3) by auto
  then show ?thesis using q n by (auto simp: stepped_def)
qed

text \<open>The fields no operation writes.\<close>

definition same_config :: "st_manager \<Rightarrow> st_manager \<Rightarrow> bool" where
  "same_config m m' \<longleftrightarrow> kind m' = kind m \<and> sm_block_size m' = sm_block_size m \<and> sm_enable_caching m' = sm_enable_caching m
     \<and> kv_cache_group_id m' = kv_cache_group_id m \<and> cache_hit_alignment_tokens m' = cache_hit_alignment_tokens m
     \<and> use_eagle m' = use_eagle m \<and> max_admission_blocks m' = max_admission_blocks m \<and> record_new_block_ids m' = record_new_block_ids m"

lemma same_config_refl [simp]: "same_config m m"
  by (simp add: same_config_def)

lemma same_config_trans: "same_config m m' \<Longrightarrow> same_config m' m'' \<Longrightarrow> same_config m m''"
  by (simp add: same_config_def)

lemma same_config_set [simp]: "same_config m (set_req_blocks rid bs m)" "same_config m (touch_req rid m)"
  "same_config m (record_new_ids bs' (set_req_blocks rid bs m))"
  by (simp_all add: same_config_def set_req_blocks_def touch_req_def record_new_ids_def)

lemma remove_range_config: "remove_blocks_in_range rid a b m p = Inr (m', q) \<Longrightarrow> same_config m m'"
  by (auto simp: remove_blocks_in_range_def err_simps Let_def split: if_splits prod.splits)

lemma remove_skipped_config: "remove_skipped_blocks rid n pr m p = Inr (m', q) \<Longrightarrow> same_config m m'"
  by (auto simp: remove_skipped_blocks_def base_remove_skipped_blocks_def rswa_remove_skipped_blocks_def Let_def
      split: manager_kind.splits option.splits if_splits dest!: remove_range_config intro: same_config_trans [OF same_config_set(2)])

lemma remove_skipped_step:
  assumes inv: "minv ext T m p xs" and w: "window_ok (kind m)" "\<forall>l. pr = Some l \<longrightarrow> 0 \<le> l"
  shows "\<exists>m' q ys. remove_skipped_blocks rid n pr m p = Inr (m', q) \<and> stepped ext T p xs 0 m' q ys \<and> same_config m m'
    \<and> length (req_blocks rid m') = length (req_blocks rid m) \<and> num_cached_block m' = num_cached_block m \<and> others_same rid m m'"
proof -
  note d = minvD [OF inv]
  have np: "partial_hit_reqs m rid = None" using d(2) by simp
  obtain m' q ys a b where r: "remove_skipped_blocks rid n pr m p = Inr (m', q)" "st_inv ext m' q ys" "config q = config p"
      "keys_of q = keys_of p" "\<forall>b. ref_cnt (heap q b) \<le> ref_cnt (heap p b)" "same_manager rid m m'"
      "req_blocks rid m' = nulled a b (req_blocks rid m)"
    using remove_skipped_released [OF d(1) np w, of n] unfolding window_released_def by (elim exE conjE) (rule that; assumption)
  have tl: "tail_at m rid i x" if "tail_at m' rid i x" for i x
    using that r(6) by (auto simp: tail_at_def r(7) nulled_nth cached_blocks_of_def same_manager_def split: if_splits)
  have os: "others_same rid m m'" using r(6) by (simp add: same_manager_def others_same_def)
  have ph: "partial_hit_reqs m' = Map.empty" and nc: "\<And>n. num_cached_block m' rid = Some n \<Longrightarrow> 0 \<le> n" using r(6) d(2,3) by (simp_all add: same_manager_def)
  have "minv ext T m' q ys" "keyless q T" using minv_shrink [OF inv r(2,3,4) ph os nc tl] by blast+
  moreover have "length xs \<le> length ys" using free_list_grows [OF st_invD(1) [OF d(1)] st_invD(1) [OF r(2)] r(3,5)] .
  ultimately have "stepped ext T p xs 0 m' q ys" using r(3) by (simp add: stepped_def)
  then show ?thesis using r(1,6,7) remove_skipped_config [OF r(1)]
    by (intro exI [of _ m'] exI [of _ q] exI [of _ ys]) (simp add: same_manager_def others_same_def)
qed

text \<open>The blocks a request still needs for a table of \<open>target\<close> blocks; a ring is one block.\<close>

definition need :: "string \<Rightarrow> int \<Rightarrow> st_manager \<Rightarrow> int" where
  "need rid target m = (if kind m = CircularBuffer then if req_blocks rid m = [] then 1 else 0
     else max 0 (target - int (length (req_blocks rid m))))"

definition grown :: "string \<Rightarrow> block_ref list \<Rightarrow> st_manager \<Rightarrow> st_manager \<Rightarrow> bool" where
  "grown rid bs m m' \<longleftrightarrow> req_blocks rid m' = req_blocks rid m @ bs \<and> same_config m m' \<and> num_cached_block m' = num_cached_block m \<and> others_same rid m m'"

lemma touch_req_step:
  assumes "minv ext T m p xs"
  shows "minv ext T (touch_req rid m) p xs"
proof -
  have "tail_at (touch_req rid m) = tail_at m" by (simp add: fun_eq_iff tail_at_def cached_blocks_of_def touch_req_def)
  then have "tail_set (touch_req rid m) = tail_set m" "tails_unique (touch_req rid m) = tails_unique m" by (simp_all add: tail_set_def tails_unique_def)
  then show ?thesis using assms touch_req_inv [of ext m p xs rid] by (simp add: minv_def touch_req_def)
qed

lemma grown_touch: "grown rid [] m (touch_req rid m)"
  by (simp add: grown_def others_same_def) (simp add: touch_req_def)

lemma take_grow_step:
  assumes inv: "minv ext T m p xs" and n: "0 \<le> n" "n \<le> int (length xs)"
  shows "\<exists>q. get_new_blocks n p = Inr (take (nat n) xs, q)
    \<and> stepped ext T p xs n (record_new_ids (take (nat n) xs) (set_req_blocks rid (req_blocks rid m @ take (nat n) xs) m)) q (drop (nat n) xs)
    \<and> grown rid (take (nat n) xs) m (record_new_ids (take (nat n) xs) (set_req_blocks rid (req_blocks rid m @ take (nat n) xs) m))"
  using grow_step [OF inv n, of "record_new_ids (take (nat n) xs) (set_req_blocks rid (req_blocks rid m @ take (nat n) xs) m)" rid]
  by (auto simp: grown_def others_same_def)

lemma claim_ring_step:
  assumes inv: "minv ext T m p xs" and k: "kind m = CircularBuffer" and n: "need rid target m \<le> int (length xs)"
  shows "\<exists>bs m' q ys. claim_ring_block rid m p = Inr (bs, m', q) \<and> stepped ext T p xs (need rid target m) m' q ys \<and> grown rid bs m m'
    \<and> int (length bs) = need rid target m \<and> set bs \<subseteq> set xs \<and> set ys \<subseteq> set xs"
proof (cases "req_blocks rid m = []")
  case True
  then have n1: "need rid target m = 1" using k by (simp add: need_def)
  obtain q where q: "get_new_blocks 1 p = Inr (take (nat 1) xs, q)"
      "stepped ext T p xs 1 (record_new_ids (take (nat 1) xs) (set_req_blocks rid (req_blocks rid m @ take (nat 1) xs) m)) q (drop (nat 1) xs)"
      "grown rid (take (nat 1) xs) m (record_new_ids (take (nat 1) xs) (set_req_blocks rid (req_blocks rid m @ take (nat 1) xs) m))"
    using take_grow_step [OF inv, of 1 rid] n n1 by auto
  then show ?thesis using True n unfolding n1
    by (intro exI [of _ "take (nat 1) xs"] exI [of _ "record_new_ids (take (nat 1) xs) (set_req_blocks rid (req_blocks rid m @ take (nat 1) xs) m)"]
        exI [of _ q] exI [of _ "drop (nat 1) xs"])
      (auto simp: claim_ring_block_def dest: in_set_takeD in_set_dropD)
next
  case False
  then have "need rid target m = 0" using k by (simp add: need_def)
  moreover have "stepped ext T p xs 0 (touch_req rid m) p xs"
    using touch_req_step [OF inv] minvD(5) [OF inv] by (simp add: stepped_def)
  ultimately show ?thesis using False grown_touch [of rid m]
    by (intro exI [of _ "[]"] exI [of _ "touch_req rid m"] exI [of _ p] exI [of _ xs]) (simp add: claim_ring_block_def)
qed

lemma allocate_new_step:
  assumes inv: "minv ext T m p xs" and n: "need rid (cdiv num_toks (sm_block_size m)) m \<le> int (length xs)"
  shows "\<exists>bs m' q ys. allocate_new_blocks rid num_toks m p = Inr (bs, m', q) \<and> stepped ext T p xs (need rid (cdiv num_toks (sm_block_size m)) m) m' q ys
    \<and> grown rid bs m m' \<and> int (length bs) = need rid (cdiv num_toks (sm_block_size m)) m \<and> set bs \<subseteq> set xs \<and> set ys \<subseteq> set xs"
proof (cases "kind m = CircularBuffer")
  case True
  then show ?thesis using claim_ring_step [OF inv True n] by (simp add: allocate_new_blocks_def)
next
  case False
  let ?n = "cdiv num_toks (sm_block_size m) - int (length (req_blocks rid m))"
  have red: "redirect_partial_hit rid m p = Inr ([], m, p)" using minvD(2) [OF inv] by (simp add: redirect_partial_hit_def)
  show ?thesis
  proof (cases "?n \<le> 0")
    case True
    then have "need rid (cdiv num_toks (sm_block_size m)) m = 0" using False by (simp add: need_def)
    moreover have "stepped ext T p xs 0 (touch_req rid m) p xs"
      using touch_req_step [OF inv] minvD(5) [OF inv] by (simp add: stepped_def)
    ultimately show ?thesis using True False red grown_touch [of rid m]
      by (intro exI [of _ "[]"] exI [of _ "touch_req rid m"] exI [of _ p] exI [of _ xs]) (simp add: allocate_new_blocks_def base_allocate_new_blocks_def)
  next
    case pos: False
    then have nd: "need rid (cdiv num_toks (sm_block_size m)) m = ?n" using False by (simp add: need_def)
    obtain q where "get_new_blocks ?n p = Inr (take (nat ?n) xs, q)"
        "stepped ext T p xs ?n (record_new_ids (take (nat ?n) xs) (set_req_blocks rid (req_blocks rid m @ take (nat ?n) xs) m)) q (drop (nat ?n) xs)"
        "grown rid (take (nat ?n) xs) m (record_new_ids (take (nat ?n) xs) (set_req_blocks rid (req_blocks rid m @ take (nat ?n) xs) m))"
      using take_grow_step [OF inv, of ?n rid] n pos nd by auto
    then show ?thesis using red pos False n nd
      by (intro exI [of _ "take (nat ?n) xs"] exI [of _ "record_new_ids (take (nat ?n) xs) (set_req_blocks rid (req_blocks rid m @ take (nat ?n) xs) m)"]
          exI [of _ q] exI [of _ "drop (nat ?n) xs"])
        (auto simp: allocate_new_blocks_def base_allocate_new_blocks_def Let_def dest: in_set_takeD in_set_dropD)
  qed
qed

definition ext_need :: "string \<Rightarrow> int \<Rightarrow> int \<Rightarrow> st_manager \<Rightarrow> int" where
  "ext_need rid num_local num_external m =
     (case kind m of
        CircularBuffer \<Rightarrow> need rid 0 m
      | CrossAttention \<Rightarrow> 0
      | _ \<Rightarrow>
          let s = get_num_skipped_tokens (kind m) (num_local + num_external);
              e = (if s > 0 then min (num_local + num_external - s) num_external else num_external)
          in if e \<le> 0 then 0 else max 0 (cdiv (num_local + num_external) (sm_block_size m) - int (length (req_blocks rid m))))"

lemma allocate_external_step:
  assumes inv: "minv ext T m p xs" and n: "ext_need rid l e m \<le> int (length xs)"
  shows "\<exists>bs m' q ys. allocate_external_computed_blocks rid l e m p = Inr (m', q) \<and> stepped ext T p xs (ext_need rid l e m) m' q ys
    \<and> grown rid bs m m' \<and> int (length bs) = ext_need rid l e m \<and> set bs \<subseteq> set xs \<and> set ys \<subseteq> set xs"
proof -
  have same: "stepped ext T p xs 0 m p xs \<and> grown rid [] m m" using inv minvD(5) [OF inv] by (simp add: stepped_def grown_def others_same_def)
  have base: "\<exists>bs m' q ys. base_allocate_external_computed_blocks rid l e m p = Inr (m', q) \<and> stepped ext T p xs (ext_need rid l e m) m' q ys
    \<and> grown rid bs m m' \<and> int (length bs) = ext_need rid l e m \<and> set bs \<subseteq> set xs \<and> set ys \<subseteq> set xs"
    if k: "kind m \<noteq> CircularBuffer" "kind m \<noteq> CrossAttention"
  proof -
    let ?s = "get_num_skipped_tokens (kind m) (l + e)"
    let ?e = "if ?s > 0 then min (l + e - ?s) e else e"
    let ?n = "max 0 (cdiv (l + e) (sm_block_size m) - int (length (req_blocks rid m)))"
    have en: "ext_need rid l e m = (if ?e \<le> 0 then 0 else ?n)" using k by (cases "kind m") (simp_all add: ext_need_def Let_def)
    show ?thesis
    proof (cases "?e \<le> 0")
      case True
      then have "base_allocate_external_computed_blocks rid l e m p = Inr (m, p)" unfolding base_allocate_external_computed_blocks_def Let_def by simp
      then show ?thesis using same en True by (intro exI [of _ "[]"] exI [of _ m] exI [of _ p] exI [of _ xs]) simp
    next
      case False
      then have en': "ext_need rid l e m = ?n" using en by simp
      obtain q where "get_new_blocks ?n p = Inr (take (nat ?n) xs, q)"
          "stepped ext T p xs ?n (record_new_ids (take (nat ?n) xs) (set_req_blocks rid (req_blocks rid m @ take (nat ?n) xs) m)) q (drop (nat ?n) xs)"
          "grown rid (take (nat ?n) xs) m (record_new_ids (take (nat ?n) xs) (set_req_blocks rid (req_blocks rid m @ take (nat ?n) xs) m))"
        using take_grow_step [OF inv, of ?n rid] n en' by auto
      moreover from this have "base_allocate_external_computed_blocks rid l e m p
          = Inr (record_new_ids (take (nat ?n) xs) (set_req_blocks rid (req_blocks rid m @ take (nat ?n) xs) m), q)"
        using False unfolding base_allocate_external_computed_blocks_def Let_def by simp
      ultimately show ?thesis using n unfolding en'
        by (intro exI [of _ "take (nat ?n) xs"] exI [of _ "record_new_ids (take (nat ?n) xs) (set_req_blocks rid (req_blocks rid m @ take (nat ?n) xs) m)"]
            exI [of _ q] exI [of _ "drop (nat ?n) xs"]) (auto dest: in_set_takeD in_set_dropD)
    qed
  qed
  show ?thesis
  proof (cases "kind m")
    case CircularBuffer
    then have en: "ext_need rid l e m = need rid 0 m" by (simp add: ext_need_def)
    obtain bs m' q ys where "claim_ring_block rid m p = Inr (bs, m', q)" "stepped ext T p xs (need rid 0 m) m' q ys" "grown rid bs m m'"
        "int (length bs) = need rid 0 m" "set bs \<subseteq> set xs" "set ys \<subseteq> set xs"
      using claim_ring_step [OF inv CircularBuffer] n en by metis
    then show ?thesis unfolding en allocate_external_computed_blocks_def CircularBuffer
      by (intro exI [of _ bs] exI [of _ m'] exI [of _ q] exI [of _ ys]) simp
  next
    case CrossAttention
    then have "ext_need rid l e m = 0" by (simp add: ext_need_def)
    then show ?thesis using same CrossAttention unfolding allocate_external_computed_blocks_def
      by (intro exI [of _ "[]"] exI [of _ m] exI [of _ p] exI [of _ xs]) simp
  qed (use base in \<open>simp_all add: allocate_external_computed_blocks_def\<close>)
qed

text \<open>Taking over a prefix hit: the table is the skipped part and the blocks that were found.\<close>

definition skipped_blocks :: "int \<Rightarrow> st_manager \<Rightarrow> nat" where
  "skipped_blocks n m = nat (get_num_skipped_tokens (kind m) n div sm_block_size m)"

definition takes_hits :: "st_manager \<Rightarrow> bool" where
  "takes_hits m \<longleftrightarrow> kind m \<noteq> CircularBuffer \<and> kind m \<noteq> CrossAttention"

definition hit_cost :: "int \<Rightarrow> block_ref list \<Rightarrow> block_pool \<Rightarrow> st_manager \<Rightarrow> int" where
  "hit_cost n new p m = (if takes_hits m then get_num_evictable_blocks (drop (skipped_blocks n m) new) p else 0)"

definition hits_added :: "string \<Rightarrow> int \<Rightarrow> block_ref list \<Rightarrow> st_manager \<Rightarrow> st_manager \<Rightarrow> bool" where
  "hits_added rid n new m m' \<longleftrightarrow> same_config m m' \<and> others_same rid m m'
     \<and> (if takes_hits m
        then req_blocks rid m' = replicate (skipped_blocks n m) null_block @ drop (skipped_blocks n m) new \<and> num_cached_block m' rid \<noteq> None
        else req_blocks rid m' = req_blocks rid m)"

definition hits_ok :: "string \<Rightarrow> int \<Rightarrow> block_ref list \<Rightarrow> block_pool \<Rightarrow> st_manager \<Rightarrow> bool" where
  "hits_ok rid num_local new p m \<longleftrightarrow> window_ok (kind m) \<and> (\<not> takes_hits m \<longrightarrow> new = [])
     \<and> (takes_hits m \<longrightarrow> req_blocks rid m = [] \<and> (\<forall>b \<in> set new. b = null_block \<or> in_pool p b)
          \<and> (\<not> sm_enable_caching m \<longrightarrow> new = []) \<and> \<not> has_partial_local_hit m new num_local)"

lemma filter_free_count:
  assumes "distinct xs"
  shows "int (length xs) - int (card (set hits \<inter> set xs)) \<le> int (length (filter (\<lambda>b. b \<notin> set hits) xs))"
proof -
  have "length xs = length (filter (\<lambda>b. b \<notin> set hits) xs) + length (filter (\<lambda>b. b \<in> set hits) xs)"
    using sum_length_filter_compl [of "\<lambda>b. b \<notin> set hits" xs] by simp
  moreover have "set (filter (\<lambda>b. b \<in> set hits) xs) = set hits \<inter> set xs" by auto
  then have "length (filter (\<lambda>b. b \<in> set hits) xs) = card (set hits \<inter> set xs)"
    using distinct_card [of "filter (\<lambda>b. b \<in> set hits) xs"] assms by simp
  ultimately show ?thesis by simp
qed

lemma evictable_bound:
  assumes "pool_wf p0 xs0" "set xs \<subseteq> set xs0"
  shows "int (card (set hits \<inter> set xs)) \<le> get_num_evictable_blocks hits p0"
proof -
  have "set hits \<inter> set xs \<subseteq> set (filter (\<lambda>b. ref_cnt (heap p0 b) = 0 \<and> \<not> is_null (heap p0 b)) hits)"
    using assms pool_wfD(5) [OF assms(1)] by (auto simp: pool_wf_def pending_wf_def)
  then have "card (set hits \<inter> set xs) \<le> card (set (filter (\<lambda>b. ref_cnt (heap p0 b) = 0 \<and> \<not> is_null (heap p0 b)) hits))" by (intro card_mono) simp_all
  also have "\<dots> \<le> length (filter (\<lambda>b. ref_cnt (heap p0 b) = 0 \<and> \<not> is_null (heap p0 b)) hits)" by (rule card_length)
  finally show ?thesis by (simp add: get_num_evictable_blocks_def)
qed

lemma same_config_upd [simp]: "same_config m (m1\<lparr>num_cached_block := v\<rparr>) = same_config m m1"
  "same_config m (m1\<lparr>partial_hit_reqs := w\<rparr>) = same_config m m1"
  by (simp_all add: same_config_def)

lemma if_InrE: "(if c then Inr (a, x) else Inr (b, y)) = Inr (m, q) \<Longrightarrow> (m = a \<Longrightarrow> P) \<Longrightarrow> (m = b \<Longrightarrow> P) \<Longrightarrow> P"
  by (simp split: if_splits)

lemma base_add_local_config:
  assumes "base_add_local_computed_blocks rid new l e m p = Inr (m', q)"
  shows "same_config m m'"
  using assms unfolding base_add_local_computed_blocks_def Let_def
  by (elim bindE_InrE if_InrE) (simp_all only: same_config_upd same_config_set)

lemma add_local_config: "add_local_computed_blocks rid new l e m p = Inr (m', q) \<Longrightarrow> same_config m m'"
  using base_add_local_config by (cases "kind m") (auto simp: add_local_computed_blocks_def err_simps)

lemma add_local_step:
  assumes inv: "minv ext T m p xs" and ok: "hits_ok rid l new p m" and n: "0 \<le> l + e"
    and p0: "pool_wf p0 xs0" "set xs \<subseteq> set xs0"
  shows "\<exists>m' q ys. add_local_computed_blocks rid new l e m p = Inr (m', q) \<and> stepped ext T p xs (hit_cost (l + e) new p0 m) m' q ys
    \<and> hits_added rid (l + e) new m m' \<and> set ys \<subseteq> set xs"
proof (cases "takes_hits m")
  case False
  then have "add_local_computed_blocks rid new l e m p = Inr (m, p)"
    using ok by (auto simp: hits_ok_def takes_hits_def add_local_computed_blocks_def)
  then show ?thesis using False inv minvD(5) [OF inv]
    by (intro exI [of _ m] exI [of _ p] exI [of _ xs]) (simp add: stepped_def hits_added_def hit_cost_def others_same_def)
next
  case True
  note d = minvD [OF inv] and o = ok [unfolded hits_ok_def]
  let ?k = "get_num_skipped_tokens (kind m) (l + e) div sm_block_size m" and ?s = "skipped_blocks (l + e) m"
  have k0: "0 \<le> ?k" using skipped_nonneg [OF _ n, of "kind m"] o st_invD(6) [OF d(1)] by (simp add: pos_imp_zdiv_nonneg_iff)
  let ?hits = "drop (nat ?k) new"
  have nh: "\<not> has_partial_local_hit m ?hits l" using o True by (auto simp: has_partial_local_hit_def)
  have em: "req_blocks rid m = []" and np: "\<forall>b \<in> set new. b = null_block \<or> in_pool p b" and off: "\<not> sm_enable_caching m \<longrightarrow> ?hits = []"
    using o True by auto
  obtain m' q where r: "base_add_local_computed_blocks rid new l e m p = Inr (m', q)"
      "st_inv ext m' q (filter (\<lambda>b. b \<notin> set ?hits) xs)" "config q = config p"
      "req_blocks rid m' = replicate (nat ?k) null_block @ ?hits" "\<forall>rid'. rid' \<noteq> rid \<longrightarrow> req_blocks rid' m' = req_blocks rid' m"
      "keys_of q = keys_of p" "partial_hit_reqs m' = partial_hit_reqs m"
      "num_cached_block m' = (num_cached_block m)(rid \<mapsto> int (nat ?k + length ?hits))"
    using add_local_spec [OF d(1) em refl k0 np refl off] nh by blast
  have eq: "add_local_computed_blocks rid new l e m p = Inr (m', q)"
    using r(1) True by (cases "kind m") (simp_all add: takes_hits_def add_local_computed_blocks_def)
  have nt: "\<not> tail_at m' rid i b" for i b unfolding tail_at_def cached_blocks_of_def r(4,8) by auto
  have os: "others_same rid m m'" using r(5,8) by (simp add: others_same_def)
  have ph: "partial_hit_reqs m' = Map.empty" using r(7) d(2) by simp
  have nc: "0 \<le> n" if "num_cached_block m' rid = Some n" for n using that r(8) by auto
  have "minv ext T m' q (filter (\<lambda>b. b \<notin> set ?hits) xs)" "keyless q T"
    using minv_shrink [OF inv r(2,3,6) ph os nc] nt by blast+
  moreover have "int (length xs) - hit_cost (l + e) new p0 m \<le> int (length (filter (\<lambda>b. b \<notin> set ?hits) xs))"
    using filter_free_count [OF pool_wfD(2) [OF st_invD(1) [OF d(1)]], of ?hits] evictable_bound [OF p0, of ?hits] True
    by (simp add: hit_cost_def skipped_blocks_def)
  ultimately have "stepped ext T p xs (hit_cost (l + e) new p0 m) m' q (filter (\<lambda>b. b \<notin> set ?hits) xs)" using r(3) by (simp add: stepped_def)
  moreover have "hits_added rid (l + e) new m m'" unfolding hits_added_def
    using True r(4,8) os add_local_config [OF eq] by (simp add: skipped_blocks_def)
  ultimately show ?thesis using eq by (intro exI [of _ m'] exI [of _ q] exI [of _ "filter (\<lambda>b. b \<notin> set ?hits) xs"]) auto
qed

lemma mgr_free_config: "mgr_free rid m p = Inr (m', q) \<Longrightarrow> same_config m m'"
  by (auto simp: mgr_free_def pop_blocks_for_free_def err_simps same_config_def)

lemma mgr_free_step:
  assumes inv: "minv ext T m p xs"
  shows "\<exists>m' q ys. mgr_free rid m p = Inr (m', q) \<and> stepped ext T p xs 0 m' q ys \<and> same_config m m' \<and> req_blocks rid m' = []
    \<and> num_cached_block m' rid = None \<and> others_same rid m m'"
proof -
  note d = minvD [OF inv]
  obtain m' q ys where r: "mgr_free rid m p = Inr (m', q)" "st_inv ext m' q ys" "config q = config p" "req_blocks rid m' = []"
      "num_cached_block m' = (num_cached_block m)(rid := None)" "partial_hit_reqs m' = (partial_hit_reqs m)(rid := None)"
      "\<forall>rid'. rid' \<noteq> rid \<longrightarrow> req_blocks rid' m' = req_blocks rid' m"
      "\<forall>b. own_count m' b = own_count m b - int (count_list (req_blocks rid m) b)" "keys_of q = keys_of p"
    using mgr_free_spec [OF d(1), of rid] by (elim exE conjE) (rule that; assumption)
  have nt: "\<not> tail_at m' rid i b" for i b by (simp add: tail_at_def r(4))
  have os: "others_same rid m m'" using r(5,7) by (simp add: others_same_def)
  have ph: "partial_hit_reqs m' = Map.empty" using r(6) d(2) by simp
  have nc: "0 \<le> n" if "num_cached_block m' rid = Some n" for n using that r(5) by simp
  have "minv ext T m' q ys" "keyless q T" using minv_shrink [OF inv r(2,3,9) ph os nc] nt by blast+
  moreover have le: "ref_cnt (heap q b) \<le> ref_cnt (heap p b)" if "in_pool p b" for b
    using that st_invD(4) [OF r(2), of b] st_invD(4) [OF d(1), of b] r(8) config_in_pool [OF r(3)] by simp
  then have "b \<in> set ys" if "b \<in> set xs" for b
    using that pool_wfD(5) [OF st_invD(1) [OF d(1)]] pool_wfD(5,6) [OF st_invD(1) [OF r(2)]] config_in_pool [OF r(3)] by (metis order_antisym)
  then have "card (set xs) \<le> card (set ys)" by (intro card_mono) auto
  then have "length xs \<le> length ys"
    using pool_wfD(2) [OF st_invD(1) [OF d(1)]] pool_wfD(2) [OF st_invD(1) [OF r(2)]] by (simp add: distinct_card)
  ultimately have "stepped ext T p xs 0 m' q ys" using r(3) by (simp add: stepped_def)
  then show ?thesis using r(1,4,5,7) mgr_free_config [OF r(1)]
    by (intro exI [of _ m'] exI [of _ q] exI [of _ ys]) (simp add: others_same_def)
qed

subsection \<open>The invariant of all managers\<close>

definition total_own :: "st_manager list \<Rightarrow> block_ref \<Rightarrow> int" where
  "total_own ms b = sum_list (map (\<lambda>m. own_count m b) ms)"

definition tails :: "st_manager list \<Rightarrow> block_ref set" where
  "tails ms = (\<Union>m \<in> set ms. tail_set m)"

fun disjoint_tails :: "st_manager list \<Rightarrow> bool" where
  "disjoint_tails [] = True"
| "disjoint_tails (m # ms) \<longleftrightarrow> tail_set m \<inter> tails ms = {} \<and> disjoint_tails ms"

definition plain :: "st_manager \<Rightarrow> block_pool \<Rightarrow> bool" where
  "plain m p \<longleftrightarrow> tables_ok m p \<and> partial_hit_reqs m = Map.empty \<and> (\<forall>rid n. num_cached_block m rid = Some n \<longrightarrow> 0 \<le> n) \<and> tails_unique m"

definition cinv :: "(block_ref \<Rightarrow> int) \<Rightarrow> block_ref set \<Rightarrow> st_manager list \<Rightarrow> block_pool \<Rightarrow> block_ref list \<Rightarrow> bool" where
  "cinv ext T ms p xs \<longleftrightarrow> pool_wf p xs \<and> (\<forall>b. 0 \<le> ext b) \<and> (\<forall>b \<in> T. 0 < ext b) \<and> keyless p T
     \<and> (\<forall>b. in_pool p b \<longrightarrow> ref_cnt (heap p b) = total_own ms b + ext b) \<and> (\<forall>m \<in> set ms. plain m p)
     \<and> keyless p (tails ms) \<and> T \<inter> tails ms = {} \<and> disjoint_tails ms"

lemma total_own_simps [simp]: "total_own [] b = 0" "total_own (m # ms) b = own_count m b + total_own ms b"
  by (simp_all add: total_own_def)

lemma tails_simps [simp]: "tails [] = {}" "tails (m # ms) = tail_set m \<union> tails ms"
  by (simp_all add: tails_def)

lemma own_count_nonneg [simp]: "0 \<le> own_count m b"
  by (simp add: own_count_def)

lemma total_own_nonneg [simp]: "0 \<le> total_own ms b"
  by (induction ms) simp_all

lemma tail_own_pos: "b \<in> tail_set m \<Longrightarrow> 0 < own_count m b"
  using tail_in_owned [of m _ _ b] by (auto simp: tail_set_def own_count_def count_list_0_iff zero_less_iff_neq_zero)

lemma tails_own_pos: "b \<in> tails ms \<Longrightarrow> 0 < total_own ms b"
proof (induction ms)
  case (Cons m ms)
  then show ?case using tail_own_pos [of b m] by (auto intro: add_pos_nonneg add_nonneg_pos)
qed simp

lemma keyless_Un [simp]: "keyless p (A \<union> B) \<longleftrightarrow> keyless p A \<and> keyless p B"
  by (auto simp: keyless_def)

lemma plain_config: "config q = config p \<Longrightarrow> plain m q = plain m p"
  using config_in_pool [of q p] by (simp add: plain_def tables_ok_def)

lemma cinv_head:
  assumes "cinv ext T (m # ms) p xs"
  shows "minv (\<lambda>b. ext b + total_own ms b) (T \<union> tails ms) m p xs"
proof -
  note c = assms [unfolded cinv_def]
  have "0 < ext b + total_own ms b" if "b \<in> T \<union> tails ms" for b
    using that c tails_own_pos [of b ms] total_own_nonneg [of ms b] by (auto intro: add_pos_nonneg add_nonneg_pos)
  moreover have "st_inv (\<lambda>b. ext b + total_own ms b) m p xs" using c by (simp add: st_inv_def plain_def)
  ultimately show ?thesis using c by (auto simp: minv_def plain_def)
qed

lemma cinv_tail:
  assumes c: "cinv ext T (m # ms) p xs" and m': "minv (\<lambda>b. ext b + total_own ms b) (T \<union> tails ms) m' q ys" and cf: "config q = config p"
  shows "cinv (\<lambda>b. ext b + own_count m' b) (T \<union> tail_set m') ms q ys"
proof -
  note c = c [unfolded cinv_def] and d = minvD [OF m'] and i = st_invD [OF minvD(1) [OF m']]
  have "0 < ext b + own_count m' b" if "b \<in> T \<union> tail_set m'" for b
    using that c tail_own_pos [of b m'] own_count_nonneg [of m' b] by (auto intro: add_pos_nonneg add_nonneg_pos)
  moreover have "ref_cnt (heap q b) = total_own ms b + (ext b + own_count m' b)" if "in_pool q b" for b using i(4) [OF that] by simp
  ultimately show ?thesis unfolding cinv_def using c d(5,7,8) i(1) plain_config [OF cf] by auto
qed

lemma cinv_join:
  assumes c: "cinv (\<lambda>b. ext b + own_count m b) (T \<union> tail_set m) ms q ys" and m: "plain m q" and e: "\<forall>b. 0 \<le> ext b" "\<forall>b \<in> T. 0 < ext b" "T \<inter> tail_set m = {}"
  shows "cinv ext T (m # ms) q ys"
  using c m e unfolding cinv_def by auto

lemma minv_plain: "minv ext T m p xs \<Longrightarrow> plain m p"
  by (simp add: minv_def plain_def st_inv_def)

subsection \<open>Running an operation on every manager\<close>

fun total_cost :: "(nat \<Rightarrow> st_manager \<Rightarrow> int) \<Rightarrow> nat \<Rightarrow> st_manager list \<Rightarrow> int" where
  "total_cost cost i [] = 0"
| "total_cost cost i (m # ms) = cost i m + total_cost cost (Suc i) ms"

lemma total_cost_nonneg: "(\<And>i m. 0 \<le> cost i m) \<Longrightarrow> 0 \<le> total_cost cost i ms"
  by (induction ms arbitrary: i) simp_all

text \<open>
  An operation that succeeds on every manager satisfying \<open>Q\<close>, takes at most \<open>cost\<close> blocks from the free list
  and leaves the manager as \<open>R\<close> says.
\<close>

definition manager_step ::
  "int \<times> bool \<times> int \<times> bool \<Rightarrow> block_ref set \<Rightarrow> (nat \<Rightarrow> st_manager \<Rightarrow> bool) \<Rightarrow> (nat \<Rightarrow> st_manager \<Rightarrow> int)
     \<Rightarrow> (nat \<Rightarrow> st_manager \<Rightarrow> block_pool \<Rightarrow> ('a \<times> st_manager \<times> block_pool) result) \<Rightarrow> (nat \<Rightarrow> st_manager \<Rightarrow> 'a \<Rightarrow> st_manager \<Rightarrow> bool) \<Rightarrow> bool" where
  "manager_step C X Q cost f R \<longleftrightarrow>
     (\<forall>i m p xs ext T. Q i m \<and> minv ext T m p xs \<and> config p = C \<and> set xs \<subseteq> X \<and> cost i m \<le> int (length xs) \<longrightarrow>
       (\<exists>x m' q ys. f i m p = Inr (x, m', q) \<and> stepped ext T p xs (cost i m) m' q ys \<and> set ys \<subseteq> X \<and> R i m x m'))"

lemma manager_stepI:
  assumes "\<And>i m p xs ext T. Q i m \<Longrightarrow> minv ext T m p xs \<Longrightarrow> config p = C \<Longrightarrow> set xs \<subseteq> X \<Longrightarrow> cost i m \<le> int (length xs) \<Longrightarrow>
      \<exists>x m' q ys. f i m p = Inr (x, m', q) \<and> stepped ext T p xs (cost i m) m' q ys \<and> set ys \<subseteq> X \<and> R i m x m'"
  shows "manager_step C X Q cost f R"
  unfolding manager_step_def using assms by blast

lemma each_manager_spec:
  assumes step: "manager_step C X Q cost f R"
    and cost: "\<And>i m. 0 \<le> cost i m"
    and inv: "cinv ext T ms p xs" "config p = C" "set xs \<subseteq> X" "\<forall>j < length ms. Q (i + j) (ms ! j)" "total_cost cost i ms \<le> int (length xs)"
  shows "\<exists>vs ms' q ys. each_manager f i ms p = Inr (vs, ms', q) \<and> cinv ext T ms' q ys \<and> config q = C \<and> set ys \<subseteq> X
    \<and> int (length xs) - total_cost cost i ms \<le> int (length ys) \<and> length vs = length ms \<and> length ms' = length ms
    \<and> (\<forall>j < length ms. R (i + j) (ms ! j) (vs ! j) (ms' ! j))"
  using inv
proof (induction ms arbitrary: i ext T p xs)
  case Nil
  then show ?case by (intro exI [of _ "[]"] exI [of _ p] exI [of _ xs]) simp
next
  case (Cons m ms)
  have q0: "Q i m" "\<forall>j < length ms. Q (Suc i + j) (ms ! j)" using Cons.prems(4) by (metis add_0_right length_greater_0_conv list.distinct(1) nth_Cons_0) (use Cons.prems(4) in auto)
  have c0: "cost i m \<le> int (length xs)" using Cons.prems(5) total_cost_nonneg [of cost "Suc i" ms] cost by simp
  obtain x m' p1 xs1 where s: "f i m p = Inr (x, m', p1)"
      "stepped (\<lambda>b. ext b + total_own ms b) (T \<union> tails ms) p xs (cost i m) m' p1 xs1" "set xs1 \<subseteq> X" "R i m x m'"
    using step [unfolded manager_step_def] q0(1) cinv_head [OF Cons.prems(1)] Cons.prems(2,3) c0 by blast
  note st = s(2) [unfolded stepped_def]
  have m': "minv (\<lambda>b. ext b + total_own ms b) (T \<union> tails ms) m' p1 xs1" and cf: "config p1 = config p" using st by blast+
  note tl = cinv_tail [OF Cons.prems(1) m' cf]
  have room: "total_cost cost (Suc i) ms \<le> int (length xs1)" using st Cons.prems(5) by simp
  obtain vs ms' p2 xs2 where r: "each_manager f (Suc i) ms p1 = Inr (vs, ms', p2)" "cinv (\<lambda>b. ext b + own_count m' b) (T \<union> tail_set m') ms' p2 xs2"
      "config p2 = C" "set xs2 \<subseteq> X" "int (length xs1) - total_cost cost (Suc i) ms \<le> int (length xs2)" "length vs = length ms" "length ms' = length ms"
      "\<forall>j < length ms. R (Suc i + j) (ms ! j) (vs ! j) (ms' ! j)"
    using Cons.IH [OF tl _ s(3) q0(2) room] cf Cons.prems(2) by auto
  have "cinv ext T (m' # ms') p2 xs2"
  proof (rule cinv_join [OF r(2)])
    show "plain m' p2" using minv_plain [OF m'] plain_config [of p2 p1] r(3) cf Cons.prems(2) by simp
    show "\<forall>b. 0 \<le> ext b" "\<forall>b \<in> T. 0 < ext b" using Cons.prems(1) by (simp_all add: cinv_def)
    show "T \<inter> tail_set m' = {}" using minvD(8) [OF m'] by blast
  qed
  moreover have "each_manager f i (m # ms) p = Inr (x # vs, m' # ms', p2)" using s(1) r(1) by simp
  moreover have "R (i + j) ((m # ms) ! j) ((x # vs) ! j) ((m' # ms') ! j)" if "j < length (m # ms)" for j
    using that s(4) r(8) by (cases j) auto
  ultimately show ?case using r st by (intro exI [of _ "x # vs"] exI [of _ "m' # ms'"] exI [of _ p2] exI [of _ xs2]) simp
qed

end
