(* ===== verification/Coordinator_Alloc.thy ===== *)
theory Coordinator_Alloc
  imports Coordinator_Inv
begin

text \<open>
  Counting and allocating over all groups. The number of blocks \<open>get_num_blocks_to_allocate\<close> predicts is what
  the three phases that follow take from the free list: touching the blocks of a prefix hit, allocating
  blocks for tokens a connector will load, allocating blocks for new tokens. So if the prediction fits, no
  phase can fail, although the groups draw on one pool one after the other.
\<close>

definition coord_inv :: "(block_ref \<Rightarrow> int) \<Rightarrow> coordinator \<Rightarrow> block_ref list \<Rightarrow> bool" where
  "coord_inv ext c xs \<longleftrightarrow> cinv ext {} (single_type_managers c) (coord_pool c) xs"

text \<open>The size in blocks that a table must reach.\<close>

definition target_blocks :: "int \<Rightarrow> int \<Rightarrow> st_manager \<Rightarrow> int" where
  "target_blocks n enc m = cdiv (if kind m = CrossAttention then enc else n) (sm_block_size m)"

definition missing :: "string \<Rightarrow> int \<Rightarrow> int \<Rightarrow> st_manager \<Rightarrow> int" where
  "missing rid n enc m = need rid (target_blocks n enc m) m"

lemma missing_nonneg [simp]: "0 \<le> missing rid n enc m"
  by (simp add: missing_def need_def)

subsection \<open>Sums over the managers\<close>

lemma total_cost_cong:
  "length ms = length ms' \<Longrightarrow> (\<And>j. j < length ms \<Longrightarrow> f (i + j) (ms ! j) = g (i + j) (ms' ! j)) \<Longrightarrow> total_cost f i ms = total_cost g i ms'"
proof (induction ms ms' arbitrary: i rule: list_induct2)
  case (Cons m ms m' ms')
  have "f i m = g i m'" using Cons.prems [of 0] by simp
  moreover have "total_cost f (Suc i) ms = total_cost g (Suc i) ms'"
    using Cons.prems [of "Suc _"] by (intro Cons.IH) simp
  ultimately show ?case by simp
qed simp

lemma total_cost_add: "total_cost (\<lambda>i m. f i m + g i m) i ms = total_cost f i ms + total_cost g i ms"
  by (induction ms arbitrary: i) simp_all

lemma total_cost_mono:
  "(\<And>j. j < length ms \<Longrightarrow> f (i + j) (ms ! j) \<le> g (i + j) (ms ! j)) \<Longrightarrow> total_cost f i ms \<le> total_cost g i ms"
proof (induction ms arbitrary: i)
  case (Cons m ms)
  have "f i m \<le> g i m" using Cons.prems [of 0] by simp
  moreover have "total_cost f (Suc i) ms \<le> total_cost g (Suc i) ms" using Cons.prems [of "Suc _"] by (intro Cons.IH) simp
  ultimately show ?case by simp
qed simp

subsection \<open>What is counted\<close>

text \<open>A manager whose table already holds what the request has computed.\<close>

definition covered :: "string \<Rightarrow> int \<Rightarrow> st_manager \<Rightarrow> bool" where
  "covered rid tot m \<longleftrightarrow> kind m = CircularBuffer \<or> num_cached_block m rid \<noteq> None \<or> get_num_skipped_tokens (kind m) tot div sm_block_size m \<le> int (length (req_blocks rid m))"

lemma count_plain:
  assumes "covered rid tot m"
  shows "get_num_blocks_to_allocate rid num_toks [] tot l False m p = Inr (need rid (cdiv num_toks (sm_block_size m)) m)"
proof (cases "kind m = CircularBuffer")
  case True
  then show ?thesis by (simp add: get_num_blocks_to_allocate_def need_def)
next
  case False
  have cap: "capped_required_blocks m num_toks False = cdiv num_toks (sm_block_size m)" by (simp add: capped_required_blocks_def split: option.splits)
  show ?thesis
  proof (cases "num_cached_block m rid = None")
    case True
    then have "max (get_num_skipped_tokens (kind m) tot div sm_block_size m) (int (length (req_blocks rid m))) = int (length (req_blocks rid m))"
      using assms False by (simp add: covered_def)
    then show ?thesis using True False
      by (simp add: get_num_blocks_to_allocate_def base_num_blocks_to_allocate_def cap Let_def need_def has_partial_local_hit_def get_num_evictable_blocks_def max.commute)
  next
    case cached: False
    then show ?thesis using False
      by (simp add: get_num_blocks_to_allocate_def base_num_blocks_to_allocate_def cap Let_def need_def max.commute)
  qed
qed

lemma count_new:
  assumes "takes_hits m" "req_blocks rid m = []" "num_cached_block m rid = None" "\<not> has_partial_local_hit m new l"
    "window_ok (kind m)" "0 \<le> tot" "0 < sm_block_size m"
  shows "get_num_blocks_to_allocate rid num_toks new tot l False m p
    = Inr (hit_cost tot new p m + max 0 (cdiv num_toks (sm_block_size m) - int (max (skipped_blocks tot m) (length new))))"
proof -
  have cap: "capped_required_blocks m num_toks False = cdiv num_toks (sm_block_size m)" by (simp add: capped_required_blocks_def split: option.splits)
  let ?k = "get_num_skipped_tokens (kind m) tot div sm_block_size m"
  have k0: "0 \<le> ?k" using skipped_nonneg [OF assms(5,6)] assms(7) by (simp add: pos_imp_zdiv_nonneg_iff)
  then have k: "int (skipped_blocks tot m) = ?k" "nat ?k = skipped_blocks tot m" by (simp_all add: skipped_blocks_def)
  have "kind m \<noteq> CircularBuffer" using assms(1) by (simp add: takes_hits_def)
  then have "get_num_blocks_to_allocate rid num_toks new tot l False m p
      = Inr (max (cdiv num_toks (sm_block_size m) - max ?k (int (length new))) 0 + get_num_evictable_blocks (drop (nat (max 0 ?k)) new) p)"
    using assms(2-4) by (simp add: get_num_blocks_to_allocate_def base_num_blocks_to_allocate_def cap Let_def)
  also have "max 0 ?k = ?k" using k0 by simp
  finally show ?thesis using assms(1) by (simp add: hit_cost_def k(2) max.commute of_nat_max k(1))
qed

subsection \<open>Steps of the coordinator\<close>

text \<open>Everything but the managers and the pool stays, and so does the configuration of the pool.\<close>

definition coord_kept :: "coordinator \<Rightarrow> coordinator \<Rightarrow> bool" where
  "coord_kept c c' \<longleftrightarrow> c' = c\<lparr>single_type_managers := single_type_managers c', coord_pool := coord_pool c'\<rparr>
     \<and> length (single_type_managers c') = length (single_type_managers c) \<and> config (coord_pool c') = config (coord_pool c)"

lemma coord_kept_refl [simp]: "coord_kept c c"
  by (simp add: coord_kept_def)

lemma coord_kept_trans: "coord_kept c c' \<Longrightarrow> coord_kept c' c'' \<Longrightarrow> coord_kept c c''"
  by (cases c; cases c'; cases c'') (simp add: coord_kept_def)

lemma on_managers_spec:
  assumes step: "manager_step (config (coord_pool c)) X Q cost f R"
    and cost: "\<And>i m. 0 \<le> cost i m"
    and inv: "coord_inv ext c xs" "set xs \<subseteq> X" "\<And>j. j < length (single_type_managers c) \<Longrightarrow> Q j (single_type_managers c ! j)"
      "total_cost cost 0 (single_type_managers c) \<le> int (length xs)"
  shows "\<exists>vs c' ys. on_managers f c = Inr (vs, c') \<and> coord_inv ext c' ys \<and> coord_kept c c' \<and> set ys \<subseteq> X
    \<and> int (length xs) - total_cost cost 0 (single_type_managers c) \<le> int (length ys) \<and> length vs = length (single_type_managers c)
    \<and> (\<forall>j < length (single_type_managers c). R j (single_type_managers c ! j) (vs ! j) (single_type_managers c' ! j))"
proof -
  have q: "\<forall>j < length (single_type_managers c). Q (0 + j) (single_type_managers c ! j)" using inv(3) by simp
  obtain vs ms' p ys where r: "each_manager f 0 (single_type_managers c) (coord_pool c) = Inr (vs, ms', p)" "cinv ext {} ms' p ys"
      "config p = config (coord_pool c)" "set ys \<subseteq> X" "int (length xs) - total_cost cost 0 (single_type_managers c) \<le> int (length ys)"
      "length vs = length (single_type_managers c)" "length ms' = length (single_type_managers c)"
      "\<forall>j < length (single_type_managers c). R (0 + j) (single_type_managers c ! j) (vs ! j) (ms' ! j)"
    using each_manager_spec [OF step cost inv(1) [unfolded coord_inv_def] refl inv(2) q inv(4)]
    by (elim exE conjE) (rule that; assumption)
  then show ?thesis
    by (intro exI [of _ vs] exI [of _ "c\<lparr>single_type_managers := ms', coord_pool := p\<rparr>"] exI [of _ ys])
      (simp add: on_managers_def coord_inv_def coord_kept_def)
qed

lemma total_cost_0 [simp]: "total_cost (\<lambda>i m. 0) i ms = 0"
  by (induction ms arbitrary: i) simp_all

lemma no_value_Inr [simp]: "no_value (Inr (m, p)) = Inr ((), m, p)"
  by (simp add: no_value_def)

lemma coord_remove_skipped_spec:
  assumes inv: "coord_inv ext c xs" and w: "\<forall>m \<in> set (single_type_managers c). window_ok (kind m)" "\<forall>l. pr = Some l \<longrightarrow> 0 \<le> l"
  shows "\<exists>c' ys. coord_remove_skipped_blocks rid n pr c = Inr c' \<and> coord_inv ext c' ys \<and> coord_kept c c' \<and> length xs \<le> length ys
    \<and> (\<forall>j < length (single_type_managers c). let m = single_type_managers c ! j; m' = single_type_managers c' ! j in
         same_config m m' \<and> length (req_blocks rid m') = length (req_blocks rid m) \<and> num_cached_block m' = num_cached_block m \<and> others_same rid m m')"
proof -
  let ?R = "\<lambda>(i::nat) m (x::unit) m'. same_config m m' \<and> length (req_blocks rid m') = length (req_blocks rid m)
    \<and> num_cached_block m' = num_cached_block m \<and> others_same rid m m'"
  have step: "manager_step (config (coord_pool c)) UNIV (\<lambda>i m. window_ok (kind m)) (\<lambda>i m. 0) (\<lambda>i m p. no_value (remove_skipped_blocks rid n pr m p)) ?R"
  proof (rule manager_stepI)
    fix i m p xs ext T assume k: "window_ok (kind m)" "minv ext T m p xs"
    obtain m' q ys where "remove_skipped_blocks rid n pr m p = Inr (m', q)" "stepped ext T p xs 0 m' q ys" "?R i m () m'"
      using remove_skipped_step [OF k(2,1) w(2), of rid n] by blast
    then show "\<exists>x m' q ys. no_value (remove_skipped_blocks rid n pr m p) = Inr (x, m', q) \<and> stepped ext T p xs 0 m' q ys \<and> set ys \<subseteq> UNIV \<and> ?R i m x m'" by (intro exI [of _ "()"] exI [of _ m'] exI [of _ q] exI [of _ ys]) simp
  qed
  obtain vs c' ys where r: "on_managers (\<lambda>i m p. no_value (remove_skipped_blocks rid n pr m p)) c = Inr (vs, c')" "coord_inv ext c' ys"
      "coord_kept c c'" "int (length xs) - 0 \<le> int (length ys)"
      "\<forall>j < length (single_type_managers c). ?R j (single_type_managers c ! j) (vs ! j) (single_type_managers c' ! j)"
    using on_managers_spec [OF step _ inv] w(1) by fastforce
  then show ?thesis by (intro exI [of _ c'] exI [of _ ys]) (simp add: coord_remove_skipped_blocks_def Let_def)
qed

lemma coord_free_spec:
  assumes inv: "coord_inv ext c xs"
  shows "\<exists>c' ys. coord_free rid c = Inr c' \<and> coord_inv ext c' ys \<and> coord_kept c c' \<and> length xs \<le> length ys
    \<and> (\<forall>j < length (single_type_managers c). let m = single_type_managers c ! j; m' = single_type_managers c' ! j in
         same_config m m' \<and> req_blocks rid m' = [] \<and> num_cached_block m' rid = None \<and> others_same rid m m')"
proof -
  let ?R = "\<lambda>(i::nat) m (x::unit) m'. same_config m m' \<and> req_blocks rid m' = [] \<and> num_cached_block m' rid = None \<and> others_same rid m m'"
  have step: "manager_step (config (coord_pool c)) UNIV (\<lambda>i m. True) (\<lambda>i m. 0) (\<lambda>i m p. no_value (mgr_free rid m p)) ?R"
  proof (rule manager_stepI)
    fix i m p xs ext T assume k: "minv ext T m p xs"
    obtain m' q ys where "mgr_free rid m p = Inr (m', q)" "stepped ext T p xs 0 m' q ys" "?R i m () m'"
      using mgr_free_step [OF k, of rid] by blast
    then show "\<exists>x m' q ys. no_value (mgr_free rid m p) = Inr (x, m', q) \<and> stepped ext T p xs 0 m' q ys \<and> set ys \<subseteq> UNIV \<and> ?R i m x m'" by (intro exI [of _ "()"] exI [of _ m'] exI [of _ q] exI [of _ ys]) simp
  qed
  obtain vs c' ys where r: "on_managers (\<lambda>i m p. no_value (mgr_free rid m p)) c = Inr (vs, c')" "coord_inv ext c' ys"
      "coord_kept c c'" "int (length xs) - 0 \<le> int (length ys)"
      "\<forall>j < length (single_type_managers c). ?R j (single_type_managers c ! j) (vs ! j) (single_type_managers c' ! j)"
    using on_managers_spec [OF step _ inv] by fastforce
  then show ?thesis by (intro exI [of _ c'] exI [of _ ys]) (simp add: coord_free_def Let_def)
qed

lemma coord_allocate_new_spec:
  assumes inv: "coord_inv ext c xs" and room: "total_cost (\<lambda>i. missing rid n enc) 0 (single_type_managers c) \<le> int (length xs)"
  shows "\<exists>bss c' ys. coord_allocate_new_blocks rid n enc c = Inr (bss, c') \<and> coord_inv ext c' ys \<and> coord_kept c c'
    \<and> length bss = length (single_type_managers c)
    \<and> (\<forall>j < length (single_type_managers c). let m = single_type_managers c ! j in
         grown rid (bss ! j) m (single_type_managers c' ! j) \<and> int (length (bss ! j)) = missing rid n enc m)"
proof -
  let ?f = "\<lambda>(i::nat) m p. allocate_new_blocks rid (if kind m = CrossAttention then enc else n) m p"
  let ?R = "\<lambda>(i::nat) m bs m'. grown rid bs m m' \<and> int (length bs) = missing rid n enc m"
  have step: "manager_step (config (coord_pool c)) UNIV (\<lambda>i m. True) (\<lambda>i. missing rid n enc) ?f ?R"
  proof (rule manager_stepI)
    fix i m p xs ext T assume k: "minv ext T m p xs" "missing rid n enc m \<le> int (length xs)"
    show "\<exists>x m' q ys. ?f i m p = Inr (x, m', q) \<and> stepped ext T p xs (missing rid n enc m) m' q ys \<and> set ys \<subseteq> UNIV \<and> ?R i m x m'"
      using allocate_new_step [OF k(1) k(2) [unfolded missing_def target_blocks_def]] unfolding missing_def target_blocks_def by blast
  qed
  obtain vs c' ys where r: "on_managers ?f c = Inr (vs, c')" "coord_inv ext c' ys" "coord_kept c c'" "length vs = length (single_type_managers c)"
      "\<forall>j < length (single_type_managers c). ?R j (single_type_managers c ! j) (vs ! j) (single_type_managers c' ! j)"
    using on_managers_spec [OF step _ inv _ _ room] by fastforce
  then show ?thesis by (intro exI [of _ vs] exI [of _ c'] exI [of _ ys]) (simp add: coord_allocate_new_blocks_def Let_def)
qed

text \<open>
  Seating a request: the blocks of its prefix hit, then blocks for the tokens a connector will load. What is
  left to allocate afterwards is the rest of the prediction.
\<close>

definition seat_rest :: "string \<Rightarrow> int \<Rightarrow> int \<Rightarrow> int \<Rightarrow> block_ref list \<Rightarrow> st_manager \<Rightarrow> int" where
  "seat_rest rid n enc tot new m =
     (if takes_hits m then max 0 (target_blocks n enc m - int (max (skipped_blocks tot m) (length new))) else missing rid n enc m)"

definition seated :: "string \<Rightarrow> int \<Rightarrow> block_ref list \<Rightarrow> st_manager \<Rightarrow> st_manager \<Rightarrow> bool" where
  "seated rid tot new m m' \<longleftrightarrow> same_config m m' \<and> others_same rid m m'
     \<and> (\<exists>bs. req_blocks rid m' = (if takes_hits m then replicate (skipped_blocks tot m) null_block @ drop (skipped_blocks tot m) new
                                    else req_blocks rid m) @ bs)"

lemma others_same_trans: "others_same rid m m' \<Longrightarrow> others_same rid m' m'' \<Longrightarrow> others_same rid m m''"
  by (simp add: others_same_def)

lemma hits_missing:
  assumes "hits_added rid tot new m m'"
  shows "missing rid n enc m' = seat_rest rid n enc tot new m"
  using assms by (auto simp: hits_added_def missing_def seat_rest_def need_def target_blocks_def same_config_def takes_hits_def max_def of_nat_diff)

lemma ext_le_missing:
  assumes "l + e \<le> n" "0 < sm_block_size m"
  shows "ext_need rid l e m \<le> missing rid n enc m"
proof -
  have "cdiv (l + e) (sm_block_size m) \<le> cdiv n (sm_block_size m)" using assms by (intro cdiv_mono) simp_all
  then have "max 0 (cdiv (l + e) (sm_block_size m) - int (length (req_blocks rid m)))
      \<le> max 0 (cdiv n (sm_block_size m) - int (length (req_blocks rid m)))" by linarith
  then show ?thesis
    by (cases "kind m") (simp_all add: ext_need_def missing_def need_def target_blocks_def Let_def del: max.bounded_iff get_num_skipped_tokens.simps)
qed

lemma grown_missing:
  assumes g: "grown rid bs m m'" and b: "int (length bs) = ext_need rid l e m" and n: "l + e \<le> n" "0 < sm_block_size m"
  shows "missing rid n enc m' = missing rid n enc m - ext_need rid l e m"
proof (cases "kind m = CircularBuffer")
  case True
  then show ?thesis using g b by (auto simp: grown_def same_config_def ext_need_def missing_def need_def split: if_splits)
next
  case False
  let ?t = "target_blocks n enc m - int (length (req_blocks rid m))"
  have "missing rid n enc m = max 0 ?t" "missing rid n enc m' = max 0 (?t - int (length bs))"
    using False g by (simp_all add: grown_def same_config_def missing_def need_def target_blocks_def)
  then show ?thesis using ext_le_missing [OF n, of rid enc] b by simp
qed

lemma hits_ok_config: "config q = config p \<Longrightarrow> hits_ok rid l new q m = hits_ok rid l new p m"
  using config_in_pool [of q p] by (simp add: hits_ok_def)

lemma coord_add_local_spec:
  assumes inv: "coord_inv ext c xs" and len: "length new = length (single_type_managers c)" and tot: "0 \<le> l + e"
    and ok: "\<forall>j < length new. hits_ok rid l (new ! j) (coord_pool c) (single_type_managers c ! j)"
    and room: "total_cost (\<lambda>i. hit_cost (l + e) (new ! i) (coord_pool c)) 0 (single_type_managers c) \<le> int (length xs)"
  shows "\<exists>vs c' ys. on_managers (\<lambda>i m p. bindE (py_index new (int i)) (\<lambda>bs. no_value (add_local_computed_blocks rid bs l e m p))) c = Inr (vs, c')
    \<and> coord_inv ext c' ys \<and> coord_kept c c'
    \<and> int (length xs) - total_cost (\<lambda>i. hit_cost (l + e) (new ! i) (coord_pool c)) 0 (single_type_managers c) \<le> int (length ys)
    \<and> (\<forall>j < length new. hits_added rid (l + e) (new ! j) (single_type_managers c ! j) (single_type_managers c' ! j))"
proof -
  let ?f = "\<lambda>i m p. bindE (py_index new (int i)) (\<lambda>bs. no_value (add_local_computed_blocks rid bs l e m p))"
  let ?R = "\<lambda>i m (x::unit) m'. hits_added rid (l + e) (new ! i) m m'"
  have wf: "pool_wf (coord_pool c) xs" using inv by (simp add: coord_inv_def cinv_def)
  have step: "manager_step (config (coord_pool c)) (set xs) (\<lambda>i m. i < length new \<and> hits_ok rid l (new ! i) (coord_pool c) m)
      (\<lambda>i. hit_cost (l + e) (new ! i) (coord_pool c)) ?f ?R"
  proof (rule manager_stepI)
    fix i m p ys ext T
    assume k: "i < length new \<and> hits_ok rid l (new ! i) (coord_pool c) m" "minv ext T m p ys" "config p = config (coord_pool c)" "set ys \<subseteq> set xs"
    have h: "hits_ok rid l (new ! i) p m" using k(1) hits_ok_config [OF k(3)] by simp
    obtain m' q zs where "add_local_computed_blocks rid (new ! i) l e m p = Inr (m', q)"
        "stepped ext T p ys (hit_cost (l + e) (new ! i) (coord_pool c) m) m' q zs" "hits_added rid (l + e) (new ! i) m m'" "set zs \<subseteq> set ys"
      using add_local_step [OF k(2) h tot wf k(4)] by blast
    then show "\<exists>x m' q zs. ?f i m p = Inr (x, m', q) \<and> stepped ext T p ys (hit_cost (l + e) (new ! i) (coord_pool c) m) m' q zs
        \<and> set zs \<subseteq> set xs \<and> ?R i m x m'"
      using k(1,4) by (intro exI [of _ "()"] exI [of _ m'] exI [of _ q] exI [of _ zs]) (simp add: py_index_nat)
  qed
  have nn: "0 \<le> hit_cost (l + e) (new ! i) (coord_pool c) m" for i m by (simp add: hit_cost_def get_num_evictable_blocks_def)
  obtain vs c' ys where "on_managers ?f c = Inr (vs, c')" "coord_inv ext c' ys" "coord_kept c c'"
      "int (length xs) - total_cost (\<lambda>i. hit_cost (l + e) (new ! i) (coord_pool c)) 0 (single_type_managers c) \<le> int (length ys)"
      "\<forall>j < length (single_type_managers c). ?R j (single_type_managers c ! j) (vs ! j) (single_type_managers c' ! j)"
    using on_managers_spec [OF step nn inv subset_refl _ room] ok len by fastforce
  then show ?thesis using len by (intro exI [of _ vs] exI [of _ c'] exI [of _ ys]) simp
qed

lemma coord_external_spec:
  assumes inv: "coord_inv ext c xs"
    and room: "total_cost (\<lambda>i. ext_need rid l e) 0 (single_type_managers c) \<le> int (length xs)"
  shows "\<exists>vs c' ys. on_managers (\<lambda>i m p. no_value (allocate_external_computed_blocks rid l e m p)) c = Inr (vs, c')
    \<and> coord_inv ext c' ys \<and> coord_kept c c'
    \<and> int (length xs) - total_cost (\<lambda>i. ext_need rid l e) 0 (single_type_managers c) \<le> int (length ys)
    \<and> (\<forall>j < length (single_type_managers c). \<exists>bs. grown rid bs (single_type_managers c ! j) (single_type_managers c' ! j)
         \<and> int (length bs) = ext_need rid l e (single_type_managers c ! j))"
proof -
  let ?f = "\<lambda>(i::nat) m p. no_value (allocate_external_computed_blocks rid l e m p)"
  let ?R = "\<lambda>(i::nat) m (x::unit) m'. \<exists>bs. grown rid bs m m' \<and> int (length bs) = ext_need rid l e m"
  have step: "manager_step (config (coord_pool c)) UNIV (\<lambda>i m. True) (\<lambda>i. ext_need rid l e) ?f ?R"
  proof (rule manager_stepI)
    fix i m p xs ext T assume k: "minv ext T m p xs" "ext_need rid l e m \<le> int (length xs)"
    obtain bs m' q ys where "allocate_external_computed_blocks rid l e m p = Inr (m', q)" "stepped ext T p xs (ext_need rid l e m) m' q ys"
        "grown rid bs m m'" "int (length bs) = ext_need rid l e m"
      using allocate_external_step [OF k] by blast
    then show "\<exists>x m' q ys. ?f i m p = Inr (x, m', q) \<and> stepped ext T p xs (ext_need rid l e m) m' q ys \<and> set ys \<subseteq> UNIV \<and> ?R i m x m'"
      by (intro exI [of _ "()"] exI [of _ m'] exI [of _ q] exI [of _ ys]) auto
  qed
  have nn: "0 \<le> ext_need rid l e m" for m by (cases "kind m") (simp_all add: ext_need_def need_def Let_def)
  show ?thesis using on_managers_spec [OF step nn inv subset_UNIV _ room] by fastforce
qed

lemma coord_block_size: "coord_inv ext c xs \<Longrightarrow> j < length (single_type_managers c) \<Longrightarrow> 0 < sm_block_size (single_type_managers c ! j)"
  by (simp add: coord_inv_def cinv_def plain_def tables_ok_def)

lemma allocate_new_computed_seats:
  assumes inv: "coord_inv ext c xs" and len: "length new = length (single_type_managers c)" and tot: "0 \<le> l + e" "l + e \<le> n"
    and fresh: "\<forall>m \<in> set (single_type_managers c). num_cached_block m rid = None"
    and ok: "\<forall>j < length new. hits_ok rid l (new ! j) (coord_pool c) (single_type_managers c ! j)"
    and room: "total_cost (\<lambda>i m. hit_cost (l + e) (new ! i) (coord_pool c) m + seat_rest rid n enc (l + e) (new ! i) m) 0 (single_type_managers c) \<le> int (length xs)"
  shows "\<exists>c' ys. allocate_new_computed_blocks rid new l e c = Inr c' \<and> coord_inv ext c' ys \<and> coord_kept c c'
    \<and> total_cost (\<lambda>i. missing rid n enc) 0 (single_type_managers c') \<le> int (length ys)
    \<and> (\<forall>j < length new. seated rid (l + e) (new ! j) (single_type_managers c ! j) (single_type_managers c' ! j))"
proof -
  let ?ms = "single_type_managers c" and ?h = "total_cost (\<lambda>i. hit_cost (l + e) (new ! i) (coord_pool c)) 0 (single_type_managers c)"
  let ?s = "total_cost (\<lambda>i. seat_rest rid n enc (l + e) (new ! i)) 0 ?ms"
  have split: "?h + ?s \<le> int (length xs)" using room by (simp only: total_cost_add)
  have "0 \<le> ?s" by (intro total_cost_nonneg) (simp add: seat_rest_def)
  then have h: "?h \<le> int (length xs)" using split by simp
  obtain vs c1 ys where a: "on_managers (\<lambda>i m p. bindE (py_index new (int i)) (\<lambda>bs. no_value (add_local_computed_blocks rid bs l e m p))) c = Inr (vs, c1)"
      "coord_inv ext c1 ys" "coord_kept c c1" "int (length xs) - ?h \<le> int (length ys)"
      "\<forall>j < length new. hits_added rid (l + e) (new ! j) (?ms ! j) (single_type_managers c1 ! j)"
    using coord_add_local_spec [OF inv len tot(1) ok h] by (elim exE conjE) (rule that; assumption)
  have len1: "length (single_type_managers c1) = length new" using a(3) len by (simp add: coord_kept_def)
  have "total_cost (\<lambda>i. missing rid n enc) 0 (single_type_managers c1) = ?s"
    using a(5) len len1 by (intro total_cost_cong) (simp_all add: hits_missing)
  then have m1: "total_cost (\<lambda>i. missing rid n enc) 0 (single_type_managers c1) \<le> int (length ys)" using split a(4) by simp
  have s1: "seated rid (l + e) (new ! j) (?ms ! j) (single_type_managers c1 ! j)" if "j < length new" for j
    using a(5) that by (auto simp: hits_added_def seated_def)
  have start: "allocate_new_computed_blocks rid new l e c = (if 0 < e then bindE (on_managers (\<lambda>i m p. no_value (allocate_external_computed_blocks rid l e m p)) c1) (\<lambda>(_, c2). Inr c2) else Inr c1)"
    using fresh a(1) by (simp add: allocate_new_computed_blocks_def)
  show ?thesis
  proof (cases "0 < e")
    case False
    then show ?thesis using start a(2,3) m1 s1 by (intro exI [of _ c1] exI [of _ ys]) simp
  next
    case True
    have le: "ext_need rid l e m \<le> missing rid n enc m" if "m \<in> set (single_type_managers c1)" for m
      using that coord_block_size [OF a(2)] ext_le_missing [OF tot(2)] by (auto simp: in_set_conv_nth)
    have e1: "total_cost (\<lambda>i. ext_need rid l e) 0 (single_type_managers c1) \<le> int (length ys)"
      using total_cost_mono [of "single_type_managers c1" "\<lambda>i. ext_need rid l e" 0 "\<lambda>i. missing rid n enc"] le m1 by simp
    obtain vs' c2 zs where b: "on_managers (\<lambda>i m p. no_value (allocate_external_computed_blocks rid l e m p)) c1 = Inr (vs', c2)"
        "coord_inv ext c2 zs" "coord_kept c1 c2" "int (length ys) - total_cost (\<lambda>i. ext_need rid l e) 0 (single_type_managers c1) \<le> int (length zs)"
        "\<forall>j < length (single_type_managers c1). \<exists>bs. grown rid bs (single_type_managers c1 ! j) (single_type_managers c2 ! j)
         \<and> int (length bs) = ext_need rid l e (single_type_managers c1 ! j)"
      using coord_external_spec [OF a(2) e1] by (elim exE conjE) (rule that; assumption)
    have len2: "length (single_type_managers c2) = length (single_type_managers c1)" using b(3) by (simp add: coord_kept_def)
    have "total_cost (\<lambda>i m. missing rid n enc m) 0 (single_type_managers c1)
        = total_cost (\<lambda>i m. missing rid n enc m + ext_need rid l e (single_type_managers c1 ! i)) 0 (single_type_managers c2)"
      using b(5) len2 grown_missing [OF _ _ tot(2) coord_block_size [OF a(2)]] by (intro total_cost_cong) fastforce+
    also have "\<dots> = total_cost (\<lambda>i. missing rid n enc) 0 (single_type_managers c2) + total_cost (\<lambda>i m. ext_need rid l e (single_type_managers c1 ! i)) 0 (single_type_managers c2)"
      by (rule total_cost_add)
    also have "total_cost (\<lambda>i m. ext_need rid l e (single_type_managers c1 ! i)) 0 (single_type_managers c2) = total_cost (\<lambda>i. ext_need rid l e) 0 (single_type_managers c1)"
      using len2 by (intro total_cost_cong) simp_all
    finally have m2: "total_cost (\<lambda>i. missing rid n enc) 0 (single_type_managers c2) \<le> int (length zs)" using m1 b(4) by simp
    have "seated rid (l + e) (new ! j) (?ms ! j) (single_type_managers c2 ! j)" if "j < length new" for j
      using s1 [OF that] b(5) that len1 by (fastforce simp: seated_def grown_def intro: same_config_trans others_same_trans)
    then show ?thesis using start True b(1,2) m2 coord_kept_trans [OF a(3) b(3)] by (intro exI [of _ c2] exI [of _ zs]) simp
  qed
qed

subsection \<open>The prediction\<close>

text \<open>For a request with a table only what is missing is counted; for a new one also the hits that nobody holds.\<close>

lemma blocks_to_allocate_sum:
  assumes "\<And>j. j < length ms \<Longrightarrow>
      (if kind (ms ! j) = CrossAttention then get_num_blocks_to_allocate rid enc [] 0 0 False (ms ! j) p
       else bindE (py_index new (int (i + j))) (\<lambda>bs. get_num_blocks_to_allocate rid n bs tot l False (ms ! j) p)) = Inr (f (i + j) (ms ! j))"
  shows "blocks_to_allocate rid n new enc tot l False i ms p = Inr (total_cost f i ms)"
  using assms
proof (induction ms arbitrary: i)
  case (Cons m ms)
  have "(if kind (ms ! j) = CrossAttention then get_num_blocks_to_allocate rid enc [] 0 0 False (ms ! j) p
      else bindE (py_index new (int (Suc i + j))) (\<lambda>bs. get_num_blocks_to_allocate rid n bs tot l False (ms ! j) p)) = Inr (f (Suc i + j) (ms ! j))"
    if "j < length ms" for j using Cons.prems [of "Suc j"] that by (simp split: if_splits)
  then have "blocks_to_allocate rid n new enc tot l False (Suc i) ms p = Inr (total_cost f (Suc i) ms)" by (rule Cons.IH)
  then show ?case using Cons.prems [of 0] by (simp split: if_splits)
qed simp

lemma covered_cross: "kind m = CrossAttention \<Longrightarrow> covered rid 0 m"
  by (simp add: covered_def)

lemma count_running:
  assumes "length new = length (single_type_managers c)"
    "\<forall>j < length new. new ! j = [] \<and> (kind (single_type_managers c ! j) = CrossAttention \<or> covered rid tot (single_type_managers c ! j))"
  shows "coord_get_num_blocks_to_allocate rid n new enc tot l False c = Inr (total_cost (\<lambda>i. missing rid n enc) 0 (single_type_managers c))"
  unfolding coord_get_num_blocks_to_allocate_def
proof (rule blocks_to_allocate_sum)
  fix j assume j: "j < length (single_type_managers c)"
  then show "(if kind (single_type_managers c ! j) = CrossAttention then get_num_blocks_to_allocate rid enc [] 0 0 False (single_type_managers c ! j) (coord_pool c)
      else bindE (py_index new (int (0 + j))) (\<lambda>bs. get_num_blocks_to_allocate rid n bs tot l False (single_type_managers c ! j) (coord_pool c)))
    = Inr (missing rid n enc (single_type_managers c ! j))"
    using assms by (auto simp: py_index_nat count_plain covered_cross missing_def target_blocks_def)
qed

lemma count_fresh:
  assumes len: "length new = length (single_type_managers c)" and inv: "coord_inv ext c xs" and tot: "0 \<le> tot"
    and fresh: "\<forall>m \<in> set (single_type_managers c). num_cached_block m rid = None"
    and ok: "\<forall>j < length new. hits_ok rid l (new ! j) (coord_pool c) (single_type_managers c ! j)"
  shows "coord_get_num_blocks_to_allocate rid n new enc tot l False c
    = Inr (total_cost (\<lambda>i m. hit_cost tot (new ! i) (coord_pool c) m + seat_rest rid n enc tot (new ! i) m) 0 (single_type_managers c))"
  unfolding coord_get_num_blocks_to_allocate_def
proof (rule blocks_to_allocate_sum)
  fix j assume j: "j < length (single_type_managers c)"
  let ?m = "single_type_managers c ! j"
  have h: "hits_ok rid l (new ! j) (coord_pool c) ?m" and f: "num_cached_block ?m rid = None" using j len ok fresh by simp_all
  note bs = coord_block_size [OF inv j]
  have "get_num_blocks_to_allocate rid n (new ! j) tot l False ?m (coord_pool c)
      = Inr (hit_cost tot (new ! j) (coord_pool c) ?m + seat_rest rid n enc tot (new ! j) ?m)" if "kind ?m \<noteq> CrossAttention"
  proof (cases "takes_hits ?m")
    case True
    then show ?thesis using count_new [OF True _ f, of "new ! j" l tot n "coord_pool c"] h bs tot that
      by (simp add: hits_ok_def seat_rest_def target_blocks_def)
  next
    case False
    then have "kind ?m = CircularBuffer" "new ! j = []" using that h by (simp_all add: takes_hits_def hits_ok_def)
    then show ?thesis using count_plain [of rid tot ?m n l "coord_pool c"] False
      by (simp add: covered_def hit_cost_def seat_rest_def missing_def target_blocks_def)
  qed
  then show "(if kind ?m = CrossAttention then get_num_blocks_to_allocate rid enc [] 0 0 False ?m (coord_pool c)
      else bindE (py_index new (int (0 + j))) (\<lambda>bs. get_num_blocks_to_allocate rid n bs tot l False ?m (coord_pool c)))
    = Inr (hit_cost tot (new ! (0 + j)) (coord_pool c) ?m + seat_rest rid n enc tot (new ! (0 + j)) ?m)"
    using j len by (auto simp: py_index_nat count_plain covered_cross missing_def target_blocks_def hit_cost_def seat_rest_def takes_hits_def)
qed

end
