(* ===== verification/Coordinator_Cache.thy ===== *)
theory Coordinator_Cache
  imports Coordinator_Alloc
begin

text \<open>
  Caching over all groups. The blocks behind the cached part of a table carry no key and occur nowhere else,
  so registering the next full blocks never meets a block that is registered already, and the groups do not
  disturb each other.
\<close>

subsection \<open>The mask has one entry per new block\<close>

lemma fold_length: "(\<And>x ys. length (f x ys) = length ys) \<Longrightarrow> length (fold f xs ys) = length ys"
  by (induction xs arbitrary: ys) simp_all

lemma set_range_length [simp]: "length (set_range s lo hi mk) = length mk"
  by (simp add: set_range_def fold_length)

lemma mask_lengths [simp]:
  "length (segment_mask s e shift per nd mk) = length mk" "length (final_segment_mask s e per nd fe mk) = length mk"
  "length (boundary_masks s e al bs shift nd bnds mk) = length mk"
  by (simp_all add: segment_mask_def final_segment_mask_def boundary_masks_def fold_length Let_def)

lemma swa_mask_ok: "mask_ok (swa_reachable_block_mask s e al bs w eagle retention bnds fe) (nat (e - s))"
  by (simp add: swa_reachable_block_mask_def mask_ok_def Let_def split: option.splits)

lemma reachable_mask_ok: "mask_ok (reachable_block_mask m s e retention bnds) (nat (e - s))"
  by (cases "kind m") (simp_all add: reachable_block_mask_def swa_mask_ok, simp_all add: mask_ok_def)

subsection \<open>One manager\<close>

text \<open>
  What caching up to \<open>n\<close> tokens relies on: the table and the request's hashes reach that far, and a group of
  blocks larger than the hash block has no partial prompt block to register.
\<close>

definition no_partial_tail :: "request \<Rightarrow> int \<Rightarrow> st_manager \<Rightarrow> block_pool \<Rightarrow> bool" where
  "no_partial_tail r n m p \<longleftrightarrow> sm_block_size m = hash_block_size p
     \<or> (let boundary = num_prompt_tokens r div hash_block_size p * hash_block_size p
        in boundary = 0 \<or> boundary > n \<or> boundary mod sm_block_size m = 0)"

definition cache_ready :: "request \<Rightarrow> int \<Rightarrow> st_manager \<Rightarrow> block_pool \<Rightarrow> bool" where
  "cache_ready r n m p \<longleftrightarrow> (sm_enable_caching m \<and> kind m \<noteq> CircularBuffer \<longrightarrow>
     kind m \<noteq> CrossAttention \<and> group_ok (kv_cache_group_id m) \<and> enable_caching p \<and> 0 < hash_block_size p \<and> hash_block_size p dvd sm_block_size m
     \<and> n div sm_block_size m \<le> int (length (req_blocks (request_id r) m)) \<and> n div hash_block_size p \<le> int (length (block_hashes r))
     \<and> (is_full (kind m) \<longrightarrow> no_partial_tail r n m p))"

lemma cache_ready_memo [simp]: "cache_ready (with_memo r mm) n m p = cache_ready r n m p"
  by (simp add: cache_ready_def no_partial_tail_def)

lemma cache_ready_config: "config q = config p \<Longrightarrow> cache_ready r n m q = cache_ready r n m p"
  by (simp add: cache_ready_def no_partial_tail_def config_def)

definition cached_more :: "request \<Rightarrow> int \<Rightarrow> st_manager \<Rightarrow> st_manager \<Rightarrow> bool" where
  "cached_more r n m m' \<longleftrightarrow> same_config m m' \<and> others_same (request_id r) m m' \<and> req_blocks (request_id r) m' = req_blocks (request_id r) m
     \<and> (sm_enable_caching m \<and> kind m \<noteq> CircularBuffer \<longrightarrow> n div sm_block_size m \<le> int (cached_blocks_of m' (request_id r)))"

lemma distinct_filter_nth:
  "(\<And>i j. i < length xs \<Longrightarrow> j < length xs \<Longrightarrow> xs ! i = xs ! j \<Longrightarrow> P (xs ! i) \<Longrightarrow> i = j) \<Longrightarrow> distinct (filter P xs)"
proof (induction xs)
  case (Cons x xs)
  have "distinct (filter P xs)" using Cons.prems [of "Suc _" "Suc _"] by (intro Cons.IH) auto
  moreover have "x \<notin> set xs" if "P x"
  proof
    assume "x \<in> set xs"
    then obtain j where "j < length xs" "xs ! j = x" by (auto simp: in_set_conv_nth)
    then show False using Cons.prems [of 0 "Suc j"] that by simp
  qed
  ultimately show ?case by auto
qed simp

text \<open>The new full blocks of a table are keyless and distinct.\<close>

lemma tail_full_blocks_ok:
  assumes inv: "minv ext T m p xs" and ec: "enable_caching p"
    and nc: "nc = cached_blocks_of m rid" "nc \<le> nf" "nf \<le> length (req_blocks rid m)"
    and c: "0 < hash_block_size p" "0 < c" "nf * c \<le> length (block_hashes r)" "group_ok gid" "mask_ok bmask (nf - nc)"
  shows "full_blocks_ok p r (req_blocks rid m) nc nf c gid bmask"
proof -
  note d = minvD [OF inv] and s = st_invD [OF minvD(1) [OF inv]]
  let ?bl = "req_blocks rid m"
  have own: "?bl ! i = null_block \<or> in_pool p (?bl ! i)" if "i < nf" for i
  proof -
    have "?bl ! i \<in> set ?bl" using that nc(3) by simp
    then show ?thesis using s(7) req_blocks_owned [of rid m] by blast
  qed
  have tl: "tail_at m rid i (?bl ! i)" if "nc \<le> i" "i < nf" "?bl ! i \<noteq> null_block" for i
    using that nc by (simp add: tail_at_def)
  have prom: "promotable p (?bl ! i) t" if "nc \<le> i" "i < nf" "?bl ! i \<noteq> null_block" for i t
  proof -
    have "?bl ! i \<in> tail_set m" using tl [OF that] unfolding tail_set_def by blast
    then have "keys_of p (?bl ! i) = []" using d(7) ec by (simp add: keyless_def)
    then show ?thesis using keys_of_Nil s(1) by (simp add: promotable_def pool_wf_def)
  qed
  have "distinct (filter (\<lambda>b. b \<noteq> null_block) (take (nf - nc) (drop nc ?bl)))"
  proof (rule distinct_filter_nth)
    fix i j assume ij: "i < length (take (nf - nc) (drop nc ?bl))" "j < length (take (nf - nc) (drop nc ?bl))"
      "take (nf - nc) (drop nc ?bl) ! i = take (nf - nc) (drop nc ?bl) ! j" "take (nf - nc) (drop nc ?bl) ! i \<noteq> null_block"
    then have "?bl ! (nc + i) = ?bl ! (nc + j)" "?bl ! (nc + i) \<noteq> null_block" "nc + i < nf" "nc + j < nf" using nc(3) by auto
    then have "nc + i = nc + j" using tl [of "nc + i"] tl [of "nc + j"] d(6) unfolding tails_unique_def by (metis le_add1)
    then show "i = j" by simp
  qed
  then show ?thesis unfolding full_blocks_ok_def using own prom nc(2,3) c by blast
qed

lemma req_blocks_touch [simp]: "req_blocks rid' (touch_req rid m) = req_blocks rid' m" "req_blocks rid' (m1\<lparr>num_cached_block := v\<rparr>) = req_blocks rid' m1"
  by (simp add: touch_req_def req_blocks_set) (simp add: req_blocks_def)

lemma cached_tail_step:
  assumes inv: "minv ext T m p xs" and nf: "nf \<le> length (req_blocks rid m)" "nc = cached_blocks_of m rid"
    and q: "pool_wf q xs" "same_refs p q" "\<forall>b. b \<notin> set (take (nf - nc) (drop nc (req_blocks rid m))) \<or> b = null_block \<longrightarrow> keys_of q b = keys_of p b"
    and le: "nc \<le> nf"
  shows "stepped ext T p xs 0 ((touch_req rid m)\<lparr>num_cached_block := (num_cached_block m)(rid \<mapsto> int nf)\<rparr>) q xs"
proof -
  let ?m' = "(touch_req rid m)\<lparr>num_cached_block := (num_cached_block m)(rid \<mapsto> int nf)\<rparr>"
  note d = minvD [OF inv] and d' = minvD [OF touch_req_step [OF inv, of rid]]
  have cf: "config q = config p" using same_refs_config [OF q(2)] .
  have st: "st_inv ext ?m' q xs"
    using d'(1) q(1,2) config_in_pool [OF cf] by (simp add: st_inv_def tables_ok_def own_count_def owned_def req_blocks_def same_refs_def)
  have tl: "tail_at m rid' i b \<and> (rid' = rid \<longrightarrow> nf \<le> i)" if "tail_at ?m' rid' i b" for rid' i b
    using that le nf(2) by (auto simp: tail_at_def cached_blocks_of_def split: if_splits)
  have newly: "\<exists>i < nf. tail_at m rid i b" if b: "b \<in> set (take (nf - nc) (drop nc (req_blocks rid m)))" "b \<noteq> null_block" for b
  proof -
    obtain j where "j < nf - nc" "b = req_blocks rid m ! (nc + j)" using b(1) nf(1) by (auto simp: in_set_conv_nth)
    then show ?thesis using b(2) nf by (intro exI [of _ "nc + j"]) (auto simp: tail_at_def)
  qed
  have same: "keys_of q b = keys_of p b" if "b \<in> T \<union> tail_set ?m'" for b
  proof (rule ccontr)
    assume "keys_of q b \<noteq> keys_of p b"
    then obtain i where i: "i < nf" "tail_at m rid i b" using q(3) newly by blast
    then have "b \<in> tail_set ?m'" using that d(8) unfolding tail_set_def by blast
    then obtain rid' i' where "tail_at ?m' rid' i' b" unfolding tail_set_def by blast
    then have "tail_at m rid' i' b" "rid' = rid \<longrightarrow> nf \<le> i'" using tl by blast+
    then show False using i d(6) unfolding tails_unique_def by (metis not_le)
  qed
  have ec: "enable_caching q = enable_caching p" using cf by (simp add: config_def)
  have sub: "tail_set ?m' \<subseteq> tail_set m" using tl unfolding tail_set_def by blast
  have kl: "keyless q T" "keyless q (tail_set ?m')" using d(5,7) sub same unfolding keyless_def ec by auto
  have "tails_unique ?m'" using d(6) tl unfolding tails_unique_def by blast
  then have "minv ext T ?m' q xs" unfolding minv_def using st d(2-4,8) kl sub by (auto simp: touch_req_def set_req_blocks_def)
  then show ?thesis using kl cf by (simp add: stepped_def)
qed

lemma base_cache_step:
  assumes inv: "minv ext T m p xs" and rd: "cache_ready r n m p" and on: "sm_enable_caching m" "kind m \<noteq> CircularBuffer"
  shows "\<exists>mm m' q. base_cache_blocks dig r n retention bnds m p = Inr (with_memo r mm, m', q) \<and> stepped ext T p xs 0 m' q xs \<and> cached_more r n m m'"
proof -
  note d = minvD [OF inv] and s = st_invD [OF minvD(1) [OF inv]]
  let ?rid = "request_id r" and ?bs = "sm_block_size m" and ?h = "hash_block_size p"
  define nc nf c where "nc = cached_blocks_of m (request_id r)" and "nf = nat (n div sm_block_size m)" and "c = nat (sm_block_size m div hash_block_size p)"
  have nci: "(case num_cached_block m ?rid of None \<Rightarrow> 0 | Some k \<Rightarrow> k) = int nc"
    using d(3) [of ?rid] by (simp add: nc_def cached_blocks_of_def split: option.splits)
  have k: "group_ok (kv_cache_group_id m)" "enable_caching p" "0 < ?h" "?h dvd ?bs" "n div ?bs \<le> int (length (req_blocks ?rid m))"
      "n div ?h \<le> int (length (block_hashes r))" using rd on by (simp_all add: cache_ready_def)
  show ?thesis
  proof (cases "n div ?bs \<le> int nc")
    case True
    then have "base_cache_blocks dig r n retention bnds m p = Inr (r, m, p)" by (simp add: base_cache_blocks_def nci Let_def)
    moreover have "stepped ext T p xs 0 m p xs" using inv d(5) by (simp add: stepped_def)
    moreover have "cached_more r n m m" using True by (simp add: cached_more_def others_same_def nc_def)
    ultimately show ?thesis by (intro exI [of _ "prompt_embeds_per_block_hashes r"] exI [of _ m] exI [of _ p]) simp
  next
    case False
    then have nf: "n div ?bs = int nf" "nc < nf" by (simp_all add: nf_def)
    have cb: "int c * ?h = ?bs" "0 < c" using k(3,4) s(6) by (auto simp: c_def dvd_def zero_less_mult_iff)
    have "int (nf * c) * ?h \<le> n" using pos_mod_sign [OF s(6), of n] nf(1) cb(1) by (simp add: minus_mod_eq_div_mult [symmetric] mult.assoc flip: nf(1))
    then have "int (nf * c) \<le> n div ?h" using zdiv_mono1 [of "int (nf * c) * ?h" n ?h] k(3) by simp
    then have hl: "nf * c \<le> length (block_hashes r)" using k(6) by linarith
    define bmask where "bmask = reachable_block_mask m (int nc) (int nf) retention (bnds @ (if shared_prefix_boundary r \<noteq> 0 then [shared_prefix_boundary r] else []))"
    have mk: "mask_ok bmask (nf - nc)" using reachable_mask_ok [of m "int nc" "int nf"] by (simp add: bmask_def nat_minus_as_int)
    have fok: "full_blocks_ok p r (req_blocks ?rid m) nc nf c (kv_cache_group_id m) bmask"
      using tail_full_blocks_ok [OF inv k(2) nc_def _ _ k(3) cb(2) hl k(1) mk] nf k(5) by simp
    obtain mm q where q: "cache_full_blocks dig r (req_blocks ?rid m) (int nc) (int nf) (int c * ?h) (kv_cache_group_id m) bmask p = Inr (with_memo r mm, q)"
        "pool_wf q xs" "same_refs p q" "\<forall>b. b \<notin> set (take (nf - nc) (drop nc (req_blocks ?rid m))) \<or> b = null_block \<longrightarrow> keys_of q b = keys_of p b"
      using cache_full_blocks_spec [OF s(1) fok] by blast
    let ?m' = "(touch_req ?rid m)\<lparr>num_cached_block := (num_cached_block m)(?rid \<mapsto> int nf)\<rparr>"
    have run: "base_cache_blocks dig r n retention bnds m p = Inr (with_memo r mm, ?m', q)"
      using q(1) nf False cb(1) by (simp add: base_cache_blocks_def nci Let_def bmask_def)
    have "stepped ext T p xs 0 ?m' q xs" by (rule cached_tail_step [OF inv _ _ q(2-4)]) (use nf k(5) nc_def in simp_all)
    moreover have "cached_more r n m ?m'" using nf(1) by (simp add: cached_more_def others_same_def cached_blocks_of_def)
    ultimately show ?thesis using run by blast
  qed
qed

lemma mgr_cache_step:
  assumes inv: "minv ext T m p xs" and rd: "cache_ready r n m p" and on: "sm_enable_caching m"
  shows "\<exists>mm m' q. mgr_cache_blocks dig r n retention bnds m p = Inr (with_memo r mm, m', q) \<and> stepped ext T p xs 0 m' q xs \<and> cached_more r n m m'"
proof (cases "kind m = CircularBuffer")
  case True
  then have "mgr_cache_blocks dig r n retention bnds m p = Inr (with_memo r (prompt_embeds_per_block_hashes r), m, p)" by (simp add: mgr_cache_blocks_def)
  moreover have "stepped ext T p xs 0 m p xs" using inv minvD(5) [OF inv] by (simp add: stepped_def)
  ultimately show ?thesis using True by (intro exI [of _ "prompt_embeds_per_block_hashes r"] exI [of _ m] exI [of _ p]) (simp add: cached_more_def others_same_def)
next
  case False
  obtain mm m' q where b: "base_cache_blocks dig r n retention bnds m p = Inr (with_memo r mm, m', q)" "stepped ext T p xs 0 m' q xs" "cached_more r n m m'"
    using base_cache_step [OF inv rd on False] by blast
  have cf: "hash_block_size q = hash_block_size p" "sm_block_size m' = sm_block_size m"
    using b(2,3) by (simp_all add: stepped_def config_def cached_more_def same_config_def)
  have pr: "num_prompt_tokens (with_memo r mm) = num_prompt_tokens r" by simp
  have full: "full_cache_blocks dig r n retention bnds m p = Inr (with_memo r mm, m', q)" if f: "is_full (kind m)"
  proof -
    define B where "B = num_prompt_tokens r div hash_block_size p * hash_block_size p"
    have "no_partial_tail r n m p" using rd on False f by (simp add: cache_ready_def)
    then consider "sm_block_size m = hash_block_size p" | (out) "B = 0 \<or> B > n" | (full) "B mod sm_block_size m = 0"
      by (auto simp: no_partial_tail_def B_def Let_def)
    then have "sm_block_size m' = hash_block_size q \<or> cache_partial_tail_block dig (with_memo r mm) n m' q = Inr (with_memo r mm, m', q)"
    proof cases
      case out
      then show ?thesis by (simp only: cache_partial_tail_block_def Let_def cf pr B_def [symmetric] if_True simp_thms)
    next
      case full
      then show ?thesis by (simp only: cache_partial_tail_block_def Let_def cf pr B_def [symmetric] if_True if_cancel simp_thms)
    qed (simp add: cf)
    then show ?thesis unfolding full_cache_blocks_def b(1) by auto
  qed
  have nx: "kind m \<noteq> CrossAttention" using rd on False by (simp add: cache_ready_def)
  have "mgr_cache_blocks dig r n retention bnds m p =
      (if is_full (kind m) then full_cache_blocks dig r n retention bnds m p else base_cache_blocks dig r n retention bnds m p)"
    using False nx by (cases "kind m") (simp_all add: mgr_cache_blocks_def is_full_def)
  then have "mgr_cache_blocks dig r n retention bnds m p = Inr (with_memo r mm, m', q)" using b(1) full by (simp only: if_cancel split: if_split) blast
  then show ?thesis using b(2,3) by blast
qed

subsection \<open>All managers\<close>

lemma cache_managers_spec:
  assumes "cinv ext T ms p xs" "\<forall>m \<in> set ms. cache_ready r (f m) m p"
  shows "\<exists>mm ms' q. cache_managers dig f retention bnds r ms p = Inr (with_memo r mm, ms', q) \<and> cinv ext T ms' q xs \<and> config q = config p
    \<and> length ms' = length ms \<and> (\<forall>j < length ms. cached_more r (f (ms ! j)) (ms ! j) (ms' ! j))"
  using assms
proof (induction ms arbitrary: ext T p r)
  case Nil
  then show ?case by (intro exI [of _ "prompt_embeds_per_block_hashes r"] exI [of _ "[]"] exI [of _ p]) simp
next
  case (Cons m ms)
  note hd = cinv_head [OF Cons.prems(1)]
  obtain mm m' p1 where s: "(if sm_enable_caching m then mgr_cache_blocks dig r (f m) retention bnds m p else Inr (r, m, p)) = Inr (with_memo r mm, m', p1)"
      "stepped (\<lambda>b. ext b + total_own ms b) (T \<union> tails ms) p xs 0 m' p1 xs" "cached_more r (f m) m m'"
  proof (cases "sm_enable_caching m")
    case True
    have "cache_ready r (f m) m p" using Cons.prems(2) by simp
    then obtain mm m' q where "mgr_cache_blocks dig r (f m) retention bnds m p = Inr (with_memo r mm, m', q)"
        "stepped (\<lambda>b. ext b + total_own ms b) (T \<union> tails ms) p xs 0 m' q xs" "cached_more r (f m) m m'"
      using mgr_cache_step [OF hd _ True] by blast
    then show ?thesis using that [of mm m' q] unfolding if_P [OF True] by blast
  next
    case False
    have "stepped (\<lambda>b. ext b + total_own ms b) (T \<union> tails ms) p xs 0 m p xs" using hd minvD(5) [OF hd] by (simp add: stepped_def)
    then show ?thesis using that [of "prompt_embeds_per_block_hashes r" m p] False by (simp add: cached_more_def others_same_def)
  qed
  have m': "minv (\<lambda>b. ext b + total_own ms b) (T \<union> tails ms) m' p1 xs" and cf: "config p1 = config p" using s(2) by (simp_all add: stepped_def)
  have rd: "\<forall>m \<in> set ms. cache_ready (with_memo r mm) (f m) m p1" using Cons.prems(2) cache_ready_config [OF cf] by simp
  obtain mm' ms' p2 where t: "cache_managers dig f retention bnds (with_memo r mm) ms p1 = Inr (with_memo (with_memo r mm) mm', ms', p2)"
      "cinv (\<lambda>b. ext b + own_count m' b) (T \<union> tail_set m') ms' p2 xs" "config p2 = config p1" "length ms' = length ms"
      "\<forall>j < length ms. cached_more (with_memo r mm) (f (ms ! j)) (ms ! j) (ms' ! j)"
    using Cons.IH [OF cinv_tail [OF Cons.prems(1) m' cf] rd] by blast
  have "cinv ext T (m' # ms') p2 xs"
  proof (rule cinv_join [OF t(2)])
    show "plain m' p2" using minv_plain [OF m'] plain_config [OF t(3)] by simp
    show "\<forall>b. 0 \<le> ext b" "\<forall>b \<in> T. 0 < ext b" using Cons.prems(1) by (simp_all add: cinv_def)
    show "T \<inter> tail_set m' = {}" using minvD(8) [OF m'] by blast
  qed
  moreover have "cached_more r (f ((m # ms) ! j)) ((m # ms) ! j) ((m' # ms') ! j)" if "j < length (m # ms)" for j
    using that s(3) t(5) by (cases j) (auto simp: cached_more_def)
  ultimately show ?case using s(1) t(1,3,4) cf by (intro exI [of _ mm'] exI [of _ "m' # ms'"] exI [of _ p2]) simp
qed

lemma coord_cache_spec:
  assumes inv: "coord_inv ext c xs" and rd: "\<forall>m \<in> set (single_type_managers c). cache_ready r (num_tokens_to_cache n m c) m (coord_pool c)"
  shows "\<exists>mm c'. coord_cache_blocks dig r n c = Inr (with_memo r mm, c') \<and> coord_inv ext c' xs \<and> coord_kept c c'
    \<and> (\<forall>j < length (single_type_managers c). cached_more r (num_tokens_to_cache n (single_type_managers c ! j) c) (single_type_managers c ! j) (single_type_managers c' ! j))"
proof -
  let ?f = "\<lambda>m. num_tokens_to_cache n m c"
  obtain mm ms' q where "cache_managers dig ?f (retention_interval c) (get_replay_boundaries r c) r (single_type_managers c) (coord_pool c) = Inr (with_memo r mm, ms', q)"
      "cinv ext {} ms' q xs" "config q = config (coord_pool c)" "length ms' = length (single_type_managers c)"
      "\<forall>j < length (single_type_managers c). cached_more r (?f (single_type_managers c ! j)) (single_type_managers c ! j) (ms' ! j)"
    using cache_managers_spec [OF inv [unfolded coord_inv_def], of r ?f] rd by blast
  then show ?thesis by (intro exI [of _ mm] exI [of _ "c\<lparr>single_type_managers := ms', coord_pool := q\<rparr>"])
      (simp add: coord_cache_blocks_def coord_inv_def coord_kept_def)
qed

end
