(* ===== verification/KV_Alloc.thy ===== *)
theory KV_Alloc
  imports KV_Manager Coordinator_Cache
begin

text \<open>
  Allocation as the scheduler sees it. For a well-formed call \<open>allocate_slots\<close> never raises: it refuses exactly
  when the predicted number of blocks does not fit, and otherwise every group of the request has room for all
  its tokens, no other request is touched and the accounting of the pool stays exact.
\<close>

subsection \<open>Seating and growing\<close>

text \<open>
  A well-formed call. A request that takes over a prefix hit, or tokens of a connector, without being known to
  any manager has empty tables; every other request brings no new blocks and its tables cover what it has computed.
\<close>

definition first_seat :: "string \<Rightarrow> bool \<Rightarrow> coordinator \<Rightarrow> bool" where
  "first_seat rid takes c \<longleftrightarrow> takes \<and> (\<forall>m \<in> set (single_type_managers c). num_cached_block m rid = None)"

definition alloc_ok :: "string \<Rightarrow> block_ref list list \<Rightarrow> bool \<Rightarrow> int \<Rightarrow> int \<Rightarrow> coordinator \<Rightarrow> bool" where
  "alloc_ok rid new takes l e c \<longleftrightarrow> length new = length (single_type_managers c) \<and> 0 \<le> l + e
     \<and> (\<forall>j < length new. if first_seat rid takes c then hits_ok rid l (new ! j) (coord_pool c) (single_type_managers c ! j)
          else new ! j = [] \<and> (kind (single_type_managers c ! j) = CrossAttention \<or> covered rid (l + e) (single_type_managers c ! j)))"

text \<open>What a manager holds for the request afterwards; \<open>bs\<close> are the blocks that are returned.\<close>

definition table_ready :: "string \<Rightarrow> int \<Rightarrow> int \<Rightarrow> int \<Rightarrow> block_ref list \<Rightarrow> bool \<Rightarrow> block_ref list \<Rightarrow> st_manager \<Rightarrow> st_manager \<Rightarrow> bool" where
  "table_ready rid n enc tot new seat bs m m' \<longleftrightarrow> same_config m m' \<and> others_same rid m m' \<and> missing rid n enc m' = 0
     \<and> (\<exists>loaded. req_blocks rid m' = (if seat \<and> takes_hits m then replicate (skipped_blocks tot m) null_block @ drop (skipped_blocks tot m) new
                                       else req_blocks rid m) @ loaded @ bs)"

lemma grown_full: "grown rid bs m m' \<Longrightarrow> int (length bs) = missing rid n enc m \<Longrightarrow> missing rid n enc m' = 0"
  by (auto simp: grown_def missing_def need_def target_blocks_def same_config_def split: if_splits)

lemma seat_and_grow:
  assumes inv: "coord_inv ext c xs" and ok: "alloc_ok rid new takes l e c" and n: "l + e \<le> n"
  shows "\<exists>k. coord_get_num_blocks_to_allocate rid n new enc (l + e) l False c = Inr k \<and> (k \<le> int (length xs) \<longrightarrow>
    (\<exists>c2 bss c3 zs. (if takes then allocate_new_computed_blocks rid new l e c else Inr c) = Inr c2 \<and> coord_allocate_new_blocks rid n enc c2 = Inr (bss, c3)
      \<and> coord_inv ext c3 zs \<and> coord_kept c c3 \<and> length bss = length new
      \<and> (\<forall>j < length new. table_ready rid n enc (l + e) (new ! j) (first_seat rid takes c) (bss ! j) (single_type_managers c ! j) (single_type_managers c3 ! j))))"
proof -
  let ?ms = "single_type_managers c"
  have len: "length new = length ?ms" and tot: "0 \<le> l + e" using ok by (simp_all add: alloc_ok_def)
  obtain k where k: "coord_get_num_blocks_to_allocate rid n new enc (l + e) l False c = Inr k"
    and seat: "k \<le> int (length xs) \<Longrightarrow> \<exists>c2 ys. (if takes then allocate_new_computed_blocks rid new l e c else Inr c) = Inr c2 \<and> coord_inv ext c2 ys
      \<and> coord_kept c c2 \<and> total_cost (\<lambda>i. missing rid n enc) 0 (single_type_managers c2) \<le> int (length ys)
      \<and> (\<forall>j < length new. if first_seat rid takes c then seated rid (l + e) (new ! j) (?ms ! j) (single_type_managers c2 ! j)
            else single_type_managers c2 ! j = ?ms ! j)"
  proof (cases "first_seat rid takes c")
    case True
    then have f: "takes" "\<forall>m \<in> set ?ms. num_cached_block m rid = None" and h: "\<forall>j < length new. hits_ok rid l (new ! j) (coord_pool c) (?ms ! j)"
      using ok by (simp_all add: first_seat_def alloc_ok_def)
    show ?thesis using that [OF count_fresh [OF len inv tot f(2) h]] allocate_new_computed_seats [OF inv len tot n f(2) h] True f(1) by simp
  next
    case False
    then have h: "\<forall>j < length new. new ! j = [] \<and> (kind (?ms ! j) = CrossAttention \<or> covered rid (l + e) (?ms ! j))"
      using ok by (simp add: alloc_ok_def)
    then have "\<forall>bs \<in> set new. bs = []" by (simp add: all_set_conv_all_nth)
    then have "(if takes then allocate_new_computed_blocks rid new l e c else Inr c) = Inr c"
      using False by (auto simp: first_seat_def allocate_new_computed_blocks_def)
    then show ?thesis using that [OF count_running [OF len h]] inv False by (intro that [OF count_running [OF len h]]) auto
  qed
  have "\<exists>c2 bss c3 zs. (if takes then allocate_new_computed_blocks rid new l e c else Inr c) = Inr c2 \<and> coord_allocate_new_blocks rid n enc c2 = Inr (bss, c3)
      \<and> coord_inv ext c3 zs \<and> coord_kept c c3 \<and> length bss = length new
      \<and> (\<forall>j < length new. table_ready rid n enc (l + e) (new ! j) (first_seat rid takes c) (bss ! j) (?ms ! j) (single_type_managers c3 ! j))"
    if le: "k \<le> int (length xs)"
  proof -
    obtain c2 ys where s: "(if takes then allocate_new_computed_blocks rid new l e c else Inr c) = Inr c2" "coord_inv ext c2 ys" "coord_kept c c2"
        "total_cost (\<lambda>i. missing rid n enc) 0 (single_type_managers c2) \<le> int (length ys)"
        "\<forall>j < length new. if first_seat rid takes c then seated rid (l + e) (new ! j) (?ms ! j) (single_type_managers c2 ! j)
            else single_type_managers c2 ! j = ?ms ! j"
      using seat [OF le] by (elim exE conjE) (rule that; assumption)
    obtain bss c3 zs where g: "coord_allocate_new_blocks rid n enc c2 = Inr (bss, c3)" "coord_inv ext c3 zs" "coord_kept c2 c3"
        "length bss = length (single_type_managers c2)"
        "\<forall>j < length (single_type_managers c2). let m = single_type_managers c2 ! j in
           grown rid (bss ! j) m (single_type_managers c3 ! j) \<and> int (length (bss ! j)) = missing rid n enc m"
      using coord_allocate_new_spec [OF s(2,4)] by (elim exE conjE) (rule that; assumption)
    have l2: "length (single_type_managers c2) = length new" using s(3) len by (simp add: coord_kept_def)
    have "table_ready rid n enc (l + e) (new ! j) (first_seat rid takes c) (bss ! j) (?ms ! j) (single_type_managers c3 ! j)" if j: "j < length new" for j
    proof -
      have gr: "grown rid (bss ! j) (single_type_managers c2 ! j) (single_type_managers c3 ! j)"
        and z: "missing rid n enc (single_type_managers c3 ! j) = 0" using g(5) j l2 grown_full by (auto simp: Let_def)
      show ?thesis
      proof (cases "first_seat rid takes c")
        case True
        then have "seated rid (l + e) (new ! j) (?ms ! j) (single_type_managers c2 ! j)" using s(5) j by simp
        then show ?thesis using gr z True unfolding table_ready_def seated_def grown_def
          by (auto intro: same_config_trans others_same_trans)
      next
        case False
        then show ?thesis using gr z s(5) j unfolding table_ready_def grown_def by simp
      qed
    qed
    then show ?thesis using s(1) g(1,2,4) l2 coord_kept_trans [OF s(3) g(3)] by (intro exI [of _ c2] exI [of _ bss] exI [of _ c3] exI [of _ zs]) simp
  qed
  then show ?thesis using k by blast
qed

subsection \<open>The admission gate\<close>

lemma count_total:
  assumes "num_cached_block m rid = None \<or> new = []"
  shows "\<exists>k. get_num_blocks_to_allocate rid n new tot l cap m p = Inr k"
  using assms by (auto simp: get_num_blocks_to_allocate_def base_num_blocks_to_allocate_def Let_def)

lemma blocks_to_allocate_total:
  assumes "\<forall>j < length ms. i + j < length new \<and> (num_cached_block (ms ! j) rid = None \<or> new ! (i + j) = [])"
  shows "\<exists>k. blocks_to_allocate rid n new enc tot l cap i ms p = Inr k"
  using assms
proof (induction ms arbitrary: i)
  case (Cons m ms)
  have h: "i < length new" "num_cached_block m rid = None \<or> new ! i = []" using Cons.prems by auto
  have "\<forall>j < length ms. Suc i + j < length new \<and> (num_cached_block (ms ! j) rid = None \<or> new ! (Suc i + j) = [])"
    using Cons.prems by (auto dest: spec [of _ "Suc _"])
  then obtain k where k: "blocks_to_allocate rid n new enc tot l cap (Suc i) ms p = Inr k" using Cons.IH by blast
  obtain a where "get_num_blocks_to_allocate rid n (new ! i) tot l cap m p = Inr a" using count_total [OF h(2)] by blast
  moreover obtain b where "get_num_blocks_to_allocate rid enc [] 0 0 cap m p = Inr b" using count_total [of m rid "[]"] by blast
  ultimately show ?case using k h(1) by (simp add: py_index_nat)
qed simp

lemma alloc_ok_total:
  assumes "alloc_ok rid new takes l e c"
  shows "\<exists>k. coord_get_num_blocks_to_allocate rid n new enc tot l' cap c = Inr k"
  unfolding coord_get_num_blocks_to_allocate_def
  using assms by (intro blocks_to_allocate_total) (auto simp: alloc_ok_def first_seat_def split: if_splits)

lemma gate_total:
  assumes "alloc_ok rid new takes l e (kv_coordinator k)" "rid = request_id r"
  shows "\<exists>g. full_sequence_blocked r new enc tot l' w must_fit k = Inr g"
proof -
  obtain n where "coord_get_num_blocks_to_allocate rid (min (num_tokens r) (kv_max_model_len k)) new enc tot l' True (kv_coordinator k) = Inr n"
    using alloc_ok_total [OF assms(1)] by blast
  then show ?thesis by (cases must_fit) (auto simp: full_sequence_blocked_def assms(2))
qed

subsection \<open>The window is released first\<close>

lemma alloc_ok_kept:
  assumes ok: "alloc_ok rid new takes l e c" and kp: "coord_kept c c1"
    and r: "\<forall>j < length (single_type_managers c). let m = single_type_managers c ! j; m' = single_type_managers c1 ! j in
         same_config m m' \<and> length (req_blocks rid m') = length (req_blocks rid m) \<and> num_cached_block m' = num_cached_block m \<and> others_same rid m m'"
  shows "alloc_ok rid new takes l e c1" "first_seat rid takes c1 = first_seat rid takes c"
proof -
  have len: "length (single_type_managers c1) = length (single_type_managers c)" and cf: "config (coord_pool c1) = config (coord_pool c)"
    using kp by (simp_all add: coord_kept_def)
  show fs: "first_seat rid takes c1 = first_seat rid takes c"
    using r len by (auto simp: first_seat_def all_set_conv_all_nth Let_def)
  have "hits_ok rid l (new ! j) (coord_pool c1) (single_type_managers c1 ! j) = hits_ok rid l (new ! j) (coord_pool c) (single_type_managers c ! j)
      \<and> covered rid (l + e) (single_type_managers c1 ! j) = covered rid (l + e) (single_type_managers c ! j)
      \<and> kind (single_type_managers c1 ! j) = kind (single_type_managers c ! j)" if "j < length (single_type_managers c)" for j
  proof -
    let ?m = "single_type_managers c ! j" and ?m1 = "single_type_managers c1 ! j"
    have e: "same_config ?m ?m1" "length (req_blocks rid ?m1) = length (req_blocks rid ?m)" "num_cached_block ?m1 = num_cached_block ?m"
      using r that by (simp_all add: Let_def)
    then have "req_blocks rid ?m1 = [] \<longleftrightarrow> req_blocks rid ?m = []" by (metis length_0_conv)
    then show ?thesis using e hits_ok_config [OF cf]
      by (simp add: hits_ok_def covered_def same_config_def takes_hits_def has_partial_local_hit_def config_in_pool [OF cf])
  qed
  then show "alloc_ok rid new takes l e c1" using ok len unfolding alloc_ok_def fs by auto
qed

lemma free_blocks_length: "coord_inv ext c xs \<Longrightarrow> get_num_free_blocks (coord_pool c) = int (length xs)"
  using fq.count_length by (simp add: coord_inv_def cinv_def pool_wf_def pending_wf_def get_num_free_blocks_def)

subsection \<open>Caching what was computed\<close>

text \<open>
  The configuration under which an allocation may cache: the groups that cache are prefix-cacheable, their blocks
  are multiples of the hash block, the request's hashes are up to date and a full-attention group has no partial
  prompt block to register.
\<close>

definition cache_setup :: "request \<Rightarrow> coordinator \<Rightarrow> bool" where
  "cache_setup r c \<longleftrightarrow> 0 \<le> num_reprefillable_tokens c \<and> 0 < scheduler_block_size c
     \<and> (\<forall>m \<in> set (single_type_managers c). sm_enable_caching m \<and> kind m \<noteq> CircularBuffer \<longrightarrow>
          kind m \<noteq> CrossAttention \<and> group_ok (kv_cache_group_id m) \<and> enable_caching (coord_pool c) \<and> 0 < hash_block_size (coord_pool c)
          \<and> hash_block_size (coord_pool c) dvd sm_block_size m \<and> num_tokens r div hash_block_size (coord_pool c) \<le> int (length (block_hashes r))
          \<and> (is_full (kind m) \<longrightarrow> sm_block_size m = hash_block_size (coord_pool c)
               \<or> sm_block_size m dvd num_prompt_tokens r div hash_block_size (coord_pool c) * hash_block_size (coord_pool c)))"

lemma cache_setup_kept:
  assumes kp: "coord_kept c c'" and m: "\<forall>j < length (single_type_managers c). same_config (single_type_managers c ! j) (single_type_managers c' ! j)"
    and s: "cache_setup r c"
  shows "cache_setup r c'"
proof -
  have len: "length (single_type_managers c') = length (single_type_managers c)" and cf: "config (coord_pool c') = config (coord_pool c)"
    and f: "c' = c\<lparr>single_type_managers := single_type_managers c', coord_pool := coord_pool c'\<rparr>" using kp by (simp_all add: coord_kept_def)
  have g: "num_reprefillable_tokens c' = num_reprefillable_tokens c" "scheduler_block_size c' = scheduler_block_size c" by (subst f; simp)+
  have h: "enable_caching (coord_pool c') = enable_caching (coord_pool c)" "hash_block_size (coord_pool c') = hash_block_size (coord_pool c)"
    using cf by (simp_all add: config_def)
  show ?thesis using s m unfolding cache_setup_def g h by (auto simp: all_set_conv_all_nth len same_config_def)
qed

lemma tokens_to_cache_le:
  assumes "0 \<le> num_reprefillable_tokens c" "0 < scheduler_block_size c"
  shows "num_tokens_to_cache n m c \<le> max 0 n"
  using round_down_bounds [OF assms(2), of n] assms(1) by (auto simp: num_tokens_to_cache_def align_cacheable_def Let_def)

lemma no_missing_covers:
  assumes "missing rid n enc m = 0" "kind m \<noteq> CircularBuffer" "0 < sm_block_size m"
  shows "(if kind m = CrossAttention then enc else n) \<le> int (length (req_blocks rid m)) * sm_block_size m"
proof -
  have "max 0 (target_blocks n enc m - int (length (req_blocks rid m))) = 0" using assms by (simp add: missing_def need_def)
  then have "target_blocks n enc m \<le> int (length (req_blocks rid m))" by linarith
  then show ?thesis using cdiv_le_iff [OF assms(3)] by (simp add: target_blocks_def)
qed

lemma ready_to_cache:
  assumes inv: "coord_inv ext c xs" and s: "cache_setup r c" and full: "\<forall>m \<in> set (single_type_managers c). missing (request_id r) n enc m = 0"
    and t: "t \<le> n" "t \<le> num_tokens r" and m: "m \<in> set (single_type_managers c)"
  shows "cache_ready r (num_tokens_to_cache t m c) m (coord_pool c)"
proof (cases "sm_enable_caching m \<and> kind m \<noteq> CircularBuffer")
  case True
  let ?t = "num_tokens_to_cache t m c" and ?len = "int (length (req_blocks (request_id r) m))" and ?h = "hash_block_size (coord_pool c)"
  have c: "kind m \<noteq> CrossAttention" "group_ok (kv_cache_group_id m)" "enable_caching (coord_pool c)" "0 < ?h" "?h dvd sm_block_size m"
      "num_tokens r div ?h \<le> int (length (block_hashes r))" and fl: "is_full (kind m) \<longrightarrow> no_partial_tail r ?t m (coord_pool c)"
    using s True m by (auto simp: cache_setup_def no_partial_tail_def Let_def)
  have bs: "0 < sm_block_size m" using inv m by (simp add: coord_inv_def cinv_def plain_def tables_ok_def)
  have le: "?t \<le> max 0 t" using tokens_to_cache_le s by (simp add: cache_setup_def)
  have "t \<le> ?len * sm_block_size m" using no_missing_covers [of "request_id r" n enc m] full m True c(1) bs t(1) by force
  moreover have "0 \<le> ?len * sm_block_size m" using bs by simp
  ultimately have "?t \<le> ?len * sm_block_size m" using le by linarith
  then have "?t div sm_block_size m \<le> ?len" using zdiv_mono1 [of ?t "?len * sm_block_size m" "sm_block_size m"] bs by simp
  moreover have "?t \<le> num_tokens r" using le t(2) by (simp add: num_tokens_def)
  then have "?t div ?h \<le> int (length (block_hashes r))" using zdiv_mono1 [of ?t "num_tokens r" ?h] c(4,6) by linarith
  ultimately show ?thesis using c fl by (simp add: cache_ready_def)
qed (auto simp: cache_ready_def)

text \<open>\<open>table_ready\<close> with, in the groups that cache, all full blocks of the computed tokens cached.\<close>

definition blocks_cached :: "request \<Rightarrow> int \<Rightarrow> coordinator \<Rightarrow> st_manager \<Rightarrow> bool" where
  "blocks_cached r t c m \<longleftrightarrow> (sm_enable_caching m \<and> kind m \<noteq> CircularBuffer \<longrightarrow>
     num_tokens_to_cache t m c div sm_block_size m \<le> int (cached_blocks_of m (request_id r)))"

lemma table_ready_cached:
  assumes "table_ready (request_id r) n enc tot new seat bs m m'" "cached_more r t m' m''"
  shows "table_ready (request_id r) n enc tot new seat bs m m''"
proof -
  note t = assms(1) [unfolded table_ready_def] and c = assms(2) [unfolded cached_more_def]
  have "missing (request_id r) n enc m'' = missing (request_id r) n enc m'"
    using c by (simp add: missing_def need_def target_blocks_def same_config_def)
  moreover have "same_config m m''" using t c same_config_trans by blast
  moreover have "others_same (request_id r) m m''" using t c others_same_trans by blast
  ultimately show ?thesis using t c unfolding table_ready_def by metis
qed

subsection \<open>The whole call\<close>

definition kv_inv :: "(block_ref \<Rightarrow> int) \<Rightarrow> kv_manager \<Rightarrow> block_ref list \<Rightarrow> bool" where
  "kv_inv ext k xs \<longleftrightarrow> coord_inv ext (kv_coordinator k) xs \<and> 0 \<le> watermark_blocks k
     \<and> length (single_type_managers (kv_coordinator k)) = num_kv_cache_groups k
     \<and> (\<forall>m \<in> set (single_type_managers (kv_coordinator k)). window_ok (kind m))"

definition computed_blocks :: "kv_cache_blocks option \<Rightarrow> kv_manager \<Rightarrow> kv_cache_blocks" where
  "computed_blocks new_computed k = (case new_computed of None \<Rightarrow> empty_kv_cache_blocks k | Some b \<Rightarrow> b)"

text \<open>What the scheduler guarantees of a call.\<close>

definition slots_call_ok :: "request \<Rightarrow> int \<Rightarrow> int \<Rightarrow> kv_cache_blocks option \<Rightarrow> int \<Rightarrow> int \<Rightarrow> bool \<Rightarrow> int \<Rightarrow> kv_manager \<Rightarrow> bool" where
  "slots_call_ok r num_new num_new_computed new_computed num_lookahead num_external delay_cache reserved k \<longleftrightarrow>
     (num_new \<noteq> 0 \<or> num_external \<noteq> 0) \<and> 0 \<le> num_new \<and> 0 \<le> num_lookahead \<and> 0 \<le> reserved \<and> 0 \<le> num_prompt_tokens r
     \<and> num_computed_tokens r + num_new_computed + num_external + num_new \<le> kv_max_model_len k
     \<and> alloc_ok (request_id r) (blocks_of (computed_blocks new_computed k)) (computed_blocks new_computed k \<noteq> empty_kv_cache_blocks k \<or> num_external > 0)
         (num_computed_tokens r + num_new_computed) num_external (kv_coordinator k)
     \<and> (delay_cache \<or> cache_setup r (kv_coordinator k))"

lemma kv_inv_kept:
  assumes "kv_inv ext k xs" "coord_inv ext c ys" "coord_kept (kv_coordinator k) c"
    "\<forall>j < length (single_type_managers (kv_coordinator k)). same_config (single_type_managers (kv_coordinator k) ! j) (single_type_managers c ! j)"
  shows "kv_inv ext (k\<lparr>kv_coordinator := c\<rparr>) ys"
proof -
  have l: "length (single_type_managers c) = length (single_type_managers (kv_coordinator k))"
    and f: "c = (kv_coordinator k)\<lparr>single_type_managers := single_type_managers c, coord_pool := coord_pool c\<rparr>"
    using assms(3) by (simp_all add: coord_kept_def)
  have "kv_cache_groups c = kv_cache_groups (kv_coordinator k)" by (subst f) simp
  then show ?thesis using assms(1,2,4) l by (auto simp: kv_inv_def num_kv_cache_groups_def all_set_conv_all_nth same_config_def)
qed

lemma blocks_of_create: "length bss = num_kv_cache_groups k \<Longrightarrow> blocks_of (create_kv_cache_blocks bss k) = bss"
  by (auto simp: create_kv_cache_blocks_def empty_kv_cache_blocks_def intro: replicate_eqI [symmetric])

text \<open>The last phase: cache, unless a connector still has to load the blocks.\<close>

lemma commit_spec:
  assumes inv: "coord_inv ext c3 zs" and s: "delay \<or> cache_setup r c3" and t: "t \<le> n"
    and tr: "\<forall>j < length (single_type_managers c3). table_ready (request_id r) n enc tot (new ! j) seat (bss ! j) (ms ! j) (single_type_managers c3 ! j)"
  shows "\<exists>mm c4. (if delay then Inr (x, r, k\<lparr>kv_coordinator := c3\<rparr>)
      else bindE (coord_cache_blocks dig r (min t (num_tokens r)) c3) (\<lambda>(r', c4). Inr (x, r', k\<lparr>kv_coordinator := c4\<rparr>)))
      = Inr (x, with_memo r mm, k\<lparr>kv_coordinator := c4\<rparr>)
    \<and> coord_inv ext c4 zs \<and> coord_kept c3 c4
    \<and> (\<forall>j < length (single_type_managers c3). table_ready (request_id r) n enc tot (new ! j) seat (bss ! j) (ms ! j) (single_type_managers c4 ! j)
         \<and> same_config (single_type_managers c3 ! j) (single_type_managers c4 ! j)
         \<and> (\<not> delay \<longrightarrow> blocks_cached r (min t (num_tokens r)) c4 (single_type_managers c4 ! j)))"
proof (cases delay)
  case True
  then show ?thesis using inv tr by (intro exI [of _ "prompt_embeds_per_block_hashes r"] exI [of _ c3]) simp
next
  case False
  then have s: "cache_setup r c3" using s by simp
  have full: "\<forall>m \<in> set (single_type_managers c3). missing (request_id r) n enc m = 0"
    using tr by (auto simp: in_set_conv_nth table_ready_def)
  have rd: "\<forall>m \<in> set (single_type_managers c3). cache_ready r (num_tokens_to_cache (min t (num_tokens r)) m c3) m (coord_pool c3)"
    using ready_to_cache [OF inv s full, of "min t (num_tokens r)"] t by simp
  obtain mm c4 where c: "coord_cache_blocks dig r (min t (num_tokens r)) c3 = Inr (with_memo r mm, c4)" "coord_inv ext c4 zs" "coord_kept c3 c4"
      "\<forall>j < length (single_type_managers c3). cached_more r (num_tokens_to_cache (min t (num_tokens r)) (single_type_managers c3 ! j) c3)
         (single_type_managers c3 ! j) (single_type_managers c4 ! j)"
    using coord_cache_spec [OF inv rd, of dig] by (elim exE conjE) (rule that; assumption)
  have f: "c4 = c3\<lparr>single_type_managers := single_type_managers c4, coord_pool := coord_pool c4\<rparr>" using c(3) by (simp add: coord_kept_def)
  have ntc: "num_tokens_to_cache t' m' c4 = num_tokens_to_cache t' m c3" if "same_config m m'" for t' m m'
    by (subst f) (use that in \<open>simp add: num_tokens_to_cache_def align_cacheable_def same_config_def Let_def\<close>)
  have "blocks_cached r (min t (num_tokens r)) c4 (single_type_managers c4 ! j)" if "j < length (single_type_managers c3)" for j
  proof -
    note cm = c(4) [rule_format, OF that, unfolded cached_more_def]
    then have sc: "same_config (single_type_managers c3 ! j) (single_type_managers c4 ! j)" by blast
    show ?thesis using cm unfolding blocks_cached_def ntc [OF sc] by (simp add: same_config_def)
  qed
  moreover have "table_ready (request_id r) n enc tot (new ! j) seat (bss ! j) (ms ! j) (single_type_managers c4 ! j)
      \<and> same_config (single_type_managers c3 ! j) (single_type_managers c4 ! j)" if "j < length (single_type_managers c3)" for j
    using table_ready_cached [OF tr [rule_format, OF that] c(4) [rule_format, OF that]] c(4) that unfolding cached_more_def by blast
  ultimately show ?thesis using False c(1-3) by (intro exI [of _ mm] exI [of _ c4]) simp
qed

lemma take_slots_spec:
  fixes k computed e
  defines "takes \<equiv> computed \<noteq> empty_kv_cache_blocks k \<or> 0 < e"
  assumes inv: "kv_inv ext k xs" and c1: "coord_inv ext c1 ys" "coord_kept (kv_coordinator k) c1"
      "\<forall>j < num_kv_cache_groups k. same_config (single_type_managers (kv_coordinator k) ! j) (single_type_managers c1 ! j)"
    and al: "alloc_ok (request_id r) (blocks_of computed) takes l e c1" and t: "l + e \<le> n" "t \<le> n" "delay \<or> cache_setup r (kv_coordinator k)"
    and room: "coord_get_num_blocks_to_allocate (request_id r) n (blocks_of computed) enc (l + e) l False c1 = Inr num" "num \<le> int (length ys)"
  shows "\<exists>b mm c4 zs. take_slots dig r computed l e n enc t delay c1 k = Inr (Some b, with_memo r mm, k\<lparr>kv_coordinator := c4\<rparr>)
    \<and> kv_inv ext (k\<lparr>kv_coordinator := c4\<rparr>) zs \<and> coord_kept (kv_coordinator k) c4
    \<and> (\<forall>j < num_kv_cache_groups k. table_ready (request_id r) n enc (l + e) (blocks_of computed ! j) (first_seat (request_id r) takes c1) (blocks_of b ! j)
           (single_type_managers c1 ! j) (single_type_managers c4 ! j)
         \<and> (\<not> delay \<longrightarrow> blocks_cached r (min t (num_tokens r)) c4 (single_type_managers c4 ! j)))"
proof -
  let ?c = "kv_coordinator k" and ?rid = "request_id r" and ?new = "blocks_of computed"
  have len: "length (single_type_managers ?c) = num_kv_cache_groups k" using inv by (simp add: kv_inv_def)
  then have l1: "length (single_type_managers c1) = num_kv_cache_groups k" using c1(2) by (simp add: coord_kept_def)
  then have ln: "length ?new = num_kv_cache_groups k" using al by (simp add: alloc_ok_def)
  obtain c2 bss c3 zs where s: "(if takes then allocate_new_computed_blocks ?rid ?new l e c1 else Inr c1) = Inr c2"
      "coord_allocate_new_blocks ?rid n enc c2 = Inr (bss, c3)" "coord_inv ext c3 zs" "coord_kept c1 c3" "length bss = length ?new"
      "\<forall>j < length ?new. table_ready ?rid n enc (l + e) (?new ! j) (first_seat ?rid takes c1) (bss ! j) (single_type_managers c1 ! j) (single_type_managers c3 ! j)"
    using seat_and_grow [OF c1(1) al t(1), of enc] room by auto
  note kp = coord_kept_trans [OF c1(2) s(4)]
  have l3: "length (single_type_managers c3) = num_kv_cache_groups k" using s(4) l1 by (simp add: coord_kept_def)
  have sc3: "\<forall>j < num_kv_cache_groups k. same_config (single_type_managers ?c ! j) (single_type_managers c3 ! j)"
    using s(6) c1(3) ln same_config_trans unfolding table_ready_def by metis
  have st3: "delay \<or> cache_setup r c3" using t(3) cache_setup_kept [OF kp] sc3 len by auto
  obtain mm c4 where c: "(if delay then Inr (Some (create_kv_cache_blocks bss k), r, k\<lparr>kv_coordinator := c3\<rparr>)
      else bindE (coord_cache_blocks dig r (min t (num_tokens r)) c3) (\<lambda>(r', c4). Inr (Some (create_kv_cache_blocks bss k), r', k\<lparr>kv_coordinator := c4\<rparr>)))
      = Inr (Some (create_kv_cache_blocks bss k), with_memo r mm, k\<lparr>kv_coordinator := c4\<rparr>)" "coord_inv ext c4 zs" "coord_kept c3 c4"
      "\<forall>j < num_kv_cache_groups k. table_ready ?rid n enc (l + e) (?new ! j) (first_seat ?rid takes c1) (bss ! j) (single_type_managers c1 ! j) (single_type_managers c4 ! j)
         \<and> same_config (single_type_managers c3 ! j) (single_type_managers c4 ! j)
         \<and> (\<not> delay \<longrightarrow> blocks_cached r (min t (num_tokens r)) c4 (single_type_managers c4 ! j))"
    using commit_spec [OF s(3) st3 t(2) s(6) [unfolded ln, folded l3], of "Some (create_kv_cache_blocks bss k)" k dig] unfolding l3
    by (elim exE conjE) (rule that; assumption)
  have "kv_inv ext (k\<lparr>kv_coordinator := c4\<rparr>) zs"
    using kv_inv_kept [OF inv c(2) coord_kept_trans [OF kp c(3)]] sc3 c(4) len same_config_trans by metis
  moreover have "take_slots dig r computed l e n enc t delay c1 k = Inr (Some (create_kv_cache_blocks bss k), with_memo r mm, k\<lparr>kv_coordinator := c4\<rparr>)"
    unfolding take_slots_def takes_def [symmetric] s(1,2) bindE_Inr prod.case Let_def by (rule c(1))
  moreover have "blocks_of (create_kv_cache_blocks bss k) = bss" using blocks_of_create s(5) ln by simp
  ultimately show ?thesis using c(4) coord_kept_trans [OF kp c(3)]
    by (intro exI [of _ "create_kv_cache_blocks bss k"] exI [of _ mm] exI [of _ c4] exI [of _ zs]) simp
qed

text \<open>The boundaries of the call: the tokens that get slots, and the coordinator after the window was released.\<close>

definition slot_tokens :: "request \<Rightarrow> int \<Rightarrow> int \<Rightarrow> int \<Rightarrow> int \<Rightarrow> kv_manager \<Rightarrow> int" where
  "slot_tokens r num_new num_new_computed num_lookahead num_external k =
     min (num_computed_tokens r + num_new_computed + num_external + num_new + num_lookahead) (kv_max_model_len k)"

definition window_release :: "request \<Rightarrow> int \<Rightarrow> int \<Rightarrow> kv_manager \<Rightarrow> coordinator result" where
  "window_release r num_new_computed num_external k =
     coord_remove_skipped_blocks (request_id r) (max 0 (num_computed_tokens r + num_new_computed + num_external - num_in_flight_tokens r))
       (Some (num_prompt_tokens r)) (kv_coordinator k)"

text \<open>Some block count does not fit: that of the whole sequence, if asked for, or that of the slots.\<close>

definition refused :: "request \<Rightarrow> int \<Rightarrow> int \<Rightarrow> kv_cache_blocks option \<Rightarrow> int \<Rightarrow> int \<Rightarrow> int \<Rightarrow> bool \<Rightarrow> int \<Rightarrow> bool \<Rightarrow> kv_manager \<Rightarrow> bool" where
  "refused r num_new num_new_computed new_computed num_lookahead num_external num_enc must_fit reserved has_sched k \<longleftrightarrow>
     (let new = blocks_of (computed_blocks new_computed k); l = num_computed_tokens r + num_new_computed; w = admission_watermark r has_sched k in
      full_sequence_blocked r new num_enc (l + num_external) l w must_fit k = Inr True
      \<or> (\<exists>c n. window_release r num_new_computed num_external k = Inr c
           \<and> coord_get_num_blocks_to_allocate (request_id r) (slot_tokens r num_new num_new_computed num_lookahead num_external k) new num_enc
               (l + num_external) l False c = Inr n
           \<and> n + w > get_num_free_blocks (coord_pool c) - reserved))"

text \<open>The window can always be released, and the counts exist before and after.\<close>

lemma slots_prepare:
  fixes r nc newc e k
  defines "l \<equiv> num_computed_tokens r + nc" and "new \<equiv> blocks_of (computed_blocks newc k)"
    and "takes \<equiv> computed_blocks newc k \<noteq> empty_kv_cache_blocks k \<or> 0 < e"
  assumes inv: "kv_inv ext k xs" and ok: "slots_call_ok r nn nc newc la e delay reserved k"
  shows "\<exists>c1 ys n g. window_release r nc e k = Inr c1 \<and> coord_inv ext c1 ys \<and> coord_kept (kv_coordinator k) c1
    \<and> (\<forall>j < num_kv_cache_groups k. same_config (single_type_managers (kv_coordinator k) ! j) (single_type_managers c1 ! j))
    \<and> (\<forall>j < num_kv_cache_groups k. others_same (request_id r) (single_type_managers (kv_coordinator k) ! j) (single_type_managers c1 ! j))
    \<and> alloc_ok (request_id r) new takes l e c1 \<and> first_seat (request_id r) takes c1 = first_seat (request_id r) takes (kv_coordinator k)
    \<and> coord_get_num_blocks_to_allocate (request_id r) (slot_tokens r nn nc la e k) new enc (l + e) l False c1 = Inr n
    \<and> full_sequence_blocked r new enc (l + e) l (admission_watermark r has_sched k) must_fit k = Inr g"
proof -
  let ?c = "kv_coordinator k" and ?rid = "request_id r"
  note i = inv [unfolded kv_inv_def] and o = ok [unfolded slots_call_ok_def, folded l_def new_def takes_def]
  have al: "alloc_ok ?rid new takes l e ?c" using o by blast
  obtain c1 ys where w: "coord_remove_skipped_blocks ?rid (max 0 (l + e - num_in_flight_tokens r)) (Some (num_prompt_tokens r)) ?c = Inr c1"
      "coord_inv ext c1 ys" "coord_kept ?c c1"
      "\<forall>j < length (single_type_managers ?c). let m = single_type_managers ?c ! j; m' = single_type_managers c1 ! j in
         same_config m m' \<and> length (req_blocks ?rid m') = length (req_blocks ?rid m) \<and> num_cached_block m' = num_cached_block m \<and> others_same ?rid m m'"
    using coord_remove_skipped_spec [of ext ?c xs "Some (num_prompt_tokens r)" ?rid "max 0 (l + e - num_in_flight_tokens r)"] i o by (elim exE conjE) auto
  note al1 = alloc_ok_kept [OF al w(3,4)]
  obtain n where "coord_get_num_blocks_to_allocate ?rid (slot_tokens r nn nc la e k) new enc (l + e) l False c1 = Inr n"
    using alloc_ok_total [OF al1(1)] by blast
  moreover obtain g where "full_sequence_blocked r new enc (l + e) l (admission_watermark r has_sched k) must_fit k = Inr g"
    using gate_total [OF al refl] by blast
  ultimately show ?thesis using w i al1
    by (intro exI [of _ c1] exI [of _ ys] exI [of _ n] exI [of _ g]) (simp add: window_release_def l_def Let_def)
qed

lemma allocate_slots_spec:
  assumes inv: "kv_inv ext k xs" and ok: "slots_call_ok r nn nc newc la e delay reserved k"
  shows "\<exists>c1 res mm k' ys. window_release r nc e k = Inr c1 \<and> coord_kept (kv_coordinator k) c1
    \<and> (\<forall>j < num_kv_cache_groups k. others_same (request_id r) (single_type_managers (kv_coordinator k) ! j) (single_type_managers c1 ! j))
    \<and> allocate_slots dig r nn nc newc la e delay enc must_fit reserved has_sched k = Inr (res, with_memo r mm, k') \<and> kv_inv ext k' ys
    \<and> coord_kept (kv_coordinator k) (kv_coordinator k')
    \<and> (res = None \<longleftrightarrow> refused r nn nc newc la e enc must_fit reserved has_sched k)
    \<and> (res = None \<longrightarrow> kv_coordinator k' \<in> {kv_coordinator k, c1})
    \<and> (\<forall>b. res = Some b \<longrightarrow> (\<forall>j < num_kv_cache_groups k.
         table_ready (request_id r) (slot_tokens r nn nc la e k) enc (num_computed_tokens r + nc + e) (blocks_of (computed_blocks newc k) ! j)
           (first_seat (request_id r) (computed_blocks newc k \<noteq> empty_kv_cache_blocks k \<or> 0 < e) (kv_coordinator k)) (blocks_of b ! j)
           (single_type_managers c1 ! j) (single_type_managers (kv_coordinator k') ! j)
         \<and> (\<not> delay \<longrightarrow> blocks_cached r (min (num_computed_tokens r + nc + e + nn) (num_tokens r)) (kv_coordinator k') (single_type_managers (kv_coordinator k') ! j))))"
proof -
  let ?c = "kv_coordinator k" and ?rid = "request_id r" and ?w = "admission_watermark r has_sched k" and ?n = "slot_tokens r nn nc la e k"
  define l new takes where "l = num_computed_tokens r + nc" and "new = blocks_of (computed_blocks newc k)"
    and "takes = (computed_blocks newc k \<noteq> empty_kv_cache_blocks k \<or> 0 < e)"
  note o = ok [unfolded slots_call_ok_def, folded l_def new_def takes_def]
  have lm: "min (l + e) (kv_max_model_len k) = l + e" and ln: "l + e \<le> ?n" "l + e + nn \<le> ?n" using o by (auto simp: slot_tokens_def l_def)
  have nz: "(nn = 0 \<and> e = 0) = False" and st: "min (l + e + nn + la) (kv_max_model_len k) = ?n" using o by (auto simp: slot_tokens_def l_def)
  obtain c1 ys n g where p: "window_release r nc e k = Inr c1" "coord_inv ext c1 ys" "coord_kept ?c c1"
      "\<forall>j < num_kv_cache_groups k. same_config (single_type_managers ?c ! j) (single_type_managers c1 ! j)"
      "\<forall>j < num_kv_cache_groups k. others_same ?rid (single_type_managers ?c ! j) (single_type_managers c1 ! j)"
      "alloc_ok ?rid new takes l e c1" "first_seat ?rid takes c1 = first_seat ?rid takes ?c"
      "coord_get_num_blocks_to_allocate ?rid ?n new enc (l + e) l False c1 = Inr n" "full_sequence_blocked r new enc (l + e) l ?w must_fit k = Inr g"
    using slots_prepare [OF inv ok, of enc has_sched must_fit, folded l_def new_def takes_def] by (elim exE conjE) (rule that; assumption)
  have wr: "coord_remove_skipped_blocks ?rid (max 0 (l + e - num_in_flight_tokens r)) (Some (num_prompt_tokens r)) ?c = Inr c1"
    using p(1) by (simp add: window_release_def l_def)
  define F where "F = (n + ?w > get_num_free_blocks (coord_pool c1) - reserved)"
  have ref: "refused r nn nc newc la e enc must_fit reserved has_sched k \<longleftrightarrow> g \<or> F"
    unfolding refused_def Let_def l_def [symmetric] new_def [symmetric] p(1,9) F_def using p(8) by auto
  have call: "allocate_slots dig r nn nc newc la e delay enc must_fit reserved has_sched k =
     (if g then Inr (None, r, k) else if F then Inr (None, r, k\<lparr>kv_coordinator := c1\<rparr>)
      else take_slots dig r (computed_blocks newc k) l e ?n enc (l + e + nn) delay c1 k)"
    unfolding allocate_slots_def Let_def computed_blocks_def [symmetric] l_def [symmetric] new_def [symmetric] lm p(8,9) bindE_Inr wr st
      F_def [symmetric] nz if_False ..
  show ?thesis
  proof (cases "g \<or> F")
    case True
    have "kv_inv ext (k\<lparr>kv_coordinator := c1\<rparr>) ys" using kv_inv_kept [OF inv p(2,3)] p(4) inv by (simp add: kv_inv_def)
    then show ?thesis using call p(1,3,5) ref True inv
      by (intro exI [of _ c1] exI [of _ None] exI [of _ "prompt_embeds_per_block_hashes r"] exI [of _ "if g then k else k\<lparr>kv_coordinator := c1\<rparr>"]
          exI [of _ "if g then xs else ys"]) auto
  next
    case False
    have "0 \<le> ?w" using inv by (simp add: admission_watermark_def kv_inv_def)
    then have nle: "n \<le> int (length ys)" using False free_blocks_length [OF p(2)] o by (simp add: F_def)
    have dc: "delay \<or> cache_setup r ?c" using o by blast
    obtain b mm c4 zs where "take_slots dig r (computed_blocks newc k) l e ?n enc (l + e + nn) delay c1 k = Inr (Some b, with_memo r mm, k\<lparr>kv_coordinator := c4\<rparr>)"
        "kv_inv ext (k\<lparr>kv_coordinator := c4\<rparr>) zs" "coord_kept ?c c4"
        "\<forall>j < num_kv_cache_groups k. table_ready ?rid ?n enc (l + e) (new ! j) (first_seat ?rid takes c1) (blocks_of b ! j) (single_type_managers c1 ! j) (single_type_managers c4 ! j)
           \<and> (\<not> delay \<longrightarrow> blocks_cached r (min (l + e + nn) (num_tokens r)) c4 (single_type_managers c4 ! j))"
      using take_slots_spec [OF inv p(2-4) p(6) [unfolded new_def takes_def] ln dc p(8) [unfolded new_def] nle, of dig, folded new_def takes_def]
      by (elim exE conjE) (rule that; assumption)
    then show ?thesis using call p(1,3,5) ref False unfolding p(7) unfolding takes_def l_def new_def
      by (intro exI [of _ c1] exI [of _ "Some b"] exI [of _ mm] exI [of _ "k\<lparr>kv_coordinator := c4\<rparr>"] exI [of _ zs]) simp
  qed
qed

end
