(* ===== verification/Hybrid_Hits.thy ===== *)
theory Hybrid_Hits
  imports Hybrid_Search
begin

text \<open>
  The hybrid coordinator from its constructor to its hits: what \<open>get_kv_cache_coordinator\<close> builds satisfies
  the conditions of the search (\<open>coord_ok\<close>), and the properties of the search.
\<close>

subsection \<open>Splitting the groups by spec\<close>

text \<open>The ids of the groups collected so far, among the first \<open>n\<close> groups.\<close>

definition collected :: "kv_cache_group list \<Rightarrow> nat \<Rightarrow> spec_group list \<Rightarrow> bool" where
  "collected groups n gs \<longleftrightarrow> distinct (concat (map group_ids gs))
     \<and> (\<forall>g \<in> set gs. group_ids g \<noteq> [] \<and> (\<forall>i \<in> set (group_ids g). i < n \<and> g_spec (groups ! i) = sg_spec g) \<and> prefix_cacheable (sg_spec g))"

lemma add_to_groups_cases:
  obtains xs g ys where "gs = xs @ g # ys" "sg_spec g = sp"
      "add_to_groups i sp e gs = xs @ g\<lparr>group_ids := group_ids g @ [i], sg_use_eagle := sg_use_eagle g \<or> e\<rparr> # ys"
  | "add_to_groups i sp e gs = gs @ [\<lparr>sg_spec = sp, group_ids = [i], sg_use_eagle = e\<rparr>]"
proof (cases "List.find (\<lambda>k. sg_spec (gs ! k) = sp) [0..<length gs]")
  case None
  then show ?thesis using that(2) by (simp add: add_to_groups_def)
next
  case (Some k)
  then have k: "k < length gs" "sg_spec (gs ! k) = sp" by (auto simp: find_Some_iff)
  show ?thesis
    using that(1) [of "take k gs" "gs ! k" "drop (Suc k) gs"] Some k
    by (simp add: add_to_groups_def id_take_nth_drop [symmetric] upd_conv_take_nth_drop)
qed

lemma collected_add:
  assumes "collected groups n gs" "g_spec (groups ! n) = sp" "prefix_cacheable sp"
  shows "collected groups (Suc n) (add_to_groups n sp e gs)"
proof -
  have new: "n \<notin> set (concat (map group_ids gs))" using assms(1) unfolding collected_def by fastforce
  show ?thesis
  proof (cases rule: add_to_groups_cases [of gs sp n e])
    case (1 xs g ys)
    then show ?thesis using assms new by (auto simp: collected_def less_Suc_eq)
  next
    case 2
    then show ?thesis using assms new by (auto simp: collected_def less_Suc_eq)
  qed
qed

lemma collected_Suc: "collected groups n gs \<Longrightarrow> collected groups (Suc n) gs"
  unfolding collected_def by (meson less_SucI)

lemma collected_all:
  "collected groups n (fold (\<lambda>i gs. let sp = g_spec (groups ! i) in
     if prefix_cacheable sp then add_to_groups i sp (i \<in> set eagle_ids) gs else gs) [0..<n] [])"
proof (induction n)
  case 0
  then show ?case by (simp add: collected_def)
next
  case (Suc n)
  then show ?case using collected_add [OF Suc refl] collected_Suc [OF Suc] by (simp add: Let_def)
qed

lemma concat_partition:
  "mset (concat (map f (filter P xs @ filter (\<lambda>x. \<not> P x) xs))) = mset (concat (map f xs))"
  by (induction xs) auto

lemma collected_split: "collected groups (length groups) (split_groups groups eagle_ids)"
proof -
  define gs where "gs = fold (\<lambda>i gs. let sp = g_spec (groups ! i) in
     if prefix_cacheable sp then add_to_groups i sp (i \<in> set eagle_ids) gs else gs) [0..<length groups] []"
  have c: "collected groups (length groups) gs" unfolding gs_def by (rule collected_all)
  have eq: "split_groups groups eagle_ids = filter (\<lambda>g. is_full (g_kind (sg_spec g))) gs @ filter (\<lambda>g. \<not> is_full (g_kind (sg_spec g))) gs"
    by (simp add: split_groups_def gs_def Let_def)
  have "mset (concat (map group_ids (split_groups groups eagle_ids))) = mset (concat (map group_ids gs))" unfolding eq by (rule concat_partition)
  then have "distinct (concat (map group_ids (split_groups groups eagle_ids)))" using c unfolding collected_def by (metis mset_eq_imp_distinct_iff)
  then show ?thesis using c unfolding collected_def eq by auto
qed

text \<open>A spec group is an EAGLE group only if one of its groups is.\<close>

lemma split_groups_eagle: "eagle_ids = [] \<Longrightarrow> \<forall>g \<in> set (split_groups groups eagle_ids). \<not> sg_use_eagle g"
proof -
  assume e: "eagle_ids = []"
  have "\<forall>g \<in> set (fold (\<lambda>i gs. let sp = g_spec (groups ! i) in
     if prefix_cacheable sp then add_to_groups i sp (i \<in> set eagle_ids) gs else gs) [0..<n] []). \<not> sg_use_eagle g" for n
  proof (induction n)
    case (Suc n)
    let ?gs = "fold (\<lambda>i gs. let sp = g_spec (groups ! i) in
     if prefix_cacheable sp then add_to_groups i sp (i \<in> set eagle_ids) gs else gs) [0..<n] []"
    show ?case
    proof (cases rule: add_to_groups_cases [of ?gs "g_spec (groups ! n)" n False])
      case (1 xs g ys)
      then show ?thesis using Suc e by (auto simp: Let_def)
    next
      case 2
      then show ?thesis using Suc e by (auto simp: Let_def)
    qed
  qed simp
  then show ?thesis unfolding split_groups_def Let_def by auto
qed

subsection \<open>What the constructor builds\<close>

lemma set_eagle_keeps: "length (set_eagle gs ms) = length ms \<and> (\<forall>i < length ms. sm_block_size (set_eagle gs ms ! i) = sm_block_size (ms ! i))"
proof -
  have "length (fold (\<lambda>i ms. ms[i := (ms ! i)\<lparr>use_eagle := True\<rparr>]) is' ms) = length ms
    \<and> (\<forall>i < length ms. sm_block_size (fold (\<lambda>i ms. ms[i := (ms ! i)\<lparr>use_eagle := True\<rparr>]) is' ms ! i) = sm_block_size (ms ! i))" for is'
  proof (induction is' arbitrary: ms)
    case (Cons j js)
    then show ?case using Cons.IH [of "ms[j := (ms ! j)\<lparr>use_eagle := True\<rparr>]"]
      by (cases "j < length ms") (auto simp: nth_list_update)
  qed simp
  then show ?thesis by (simp add: set_eagle_def)
qed

definition spec_ok :: "kv_cache_spec \<Rightarrow> int \<Rightarrow> int \<Rightarrow> bool \<Rightarrow> bool" where
  "spec_ok sp dcp sbs eagle \<longleftrightarrow>
     (let d = dcp_world_size_for_kv_cache_spec sp dcp; bs = (if d > 1 then g_block_size sp * d else g_block_size sp)
      in 0 < bs \<and> sbs mod bs = 0 \<and> kind_ok (g_kind sp) bs sbs d 1 eagle)"

lemma init_coordinator_Inr:
  assumes "init_coordinator cls groups nb mml mif eagle caching ev dcp pcp sbs hbs mets nz look ret md ui = Inr c"
  shows "coord_class c = cls" "kv_cache_groups c = groups" "scheduler_block_size c = sbs" "\<not> enable_partial_hash_hits c"
    "coord_dcp_world_size c = dcp" "coord_pcp_world_size c = pcp" "eagle_group_ids c = init_eagle_group_ids eagle groups"
    "hash_block_size (coord_pool c) = hbs" "length (single_type_managers c) = length groups"
    "\<And>i. i < length groups \<Longrightarrow> sm_block_size (single_type_managers c ! i) =
       (let sp = g_spec (groups ! i); d = dcp_world_size_for_kv_cache_spec sp dcp in if d > 1 then g_block_size sp * d else g_block_size sp)"
    "init_pool nb caching hbs ev mets md ui = Inr (coord_pool c)"
  using assms
  by (auto simp: init_coordinator_def err_simps Let_def get_manager_for_kv_cache_spec_def init_manager_def init_pool_def split: if_splits)

lemma hybrid_coordinator_ok:
  assumes new: "get_kv_cache_coordinator groups nb mml mif eagle True ev dcp pcp sbs hbs mets nz look ret md ui = Inr c"
    and g: "length groups \<noteq> 1" "length groups \<le> 2 ^ 32" "0 < hbs" "0 < sbs"
    and k: "\<forall>g \<in> set groups. prefix_cacheable (g_spec g) \<longrightarrow> spec_ok (g_spec g) dcp sbs (eagle \<or> (\<exists>h \<in> set groups. is_eagle_group h))"
  shows "coord_class c = Hybrid \<and> coord_ok c \<and> init_pool nb True hbs ev mets md ui = Inr (coord_pool c) \<and> kv_cache_groups c = groups"
proof -
  obtain c0 where c0: "init_coordinator Hybrid groups nb mml mif eagle True ev dcp pcp sbs hbs mets nz look ret md ui = Inr c0"
      and h: "init_hybrid hbs c0 = Inr c"
    using new g(1) by (auto simp: get_kv_cache_coordinator_def Let_def err_simps)
  note i = init_coordinator_Inr [OF c0]
  let ?gs = "split_groups groups (init_eagle_group_ids eagle groups)"
  have c: "c = c0\<lparr>attention_groups := ?gs,
        single_type_managers := set_eagle ?gs (map (\<lambda>m. m\<lparr>cache_hit_alignment_tokens := cache_hit_alignment c0\<rparr>) (single_type_managers c0))\<rparr>"
      and ne: "?gs \<noteq> []" and pcp: "pcp = 1"
      and hb: "\<forall>(m, g) \<in> set (zip (single_type_managers c0) groups). prefix_cacheable (g_spec g) \<longrightarrow> sm_block_size m mod hbs = 0"
    using h by (auto simp: init_hybrid_def verify_and_split_kv_cache_groups_def err_simps Let_def i)
  note col = collected_split [of groups "init_eagle_group_ids eagle groups", unfolded collected_def]
  have len: "length (single_type_managers c) = length groups" using set_eagle_keeps i(9) by (simp add: c)
  have sm: "sm_block_size (single_type_managers c ! j) = sm_block_size (single_type_managers c0 ! j)" if "j < length groups" for j
    using set_eagle_keeps that i(9) by (simp add: c)
  have eag: "sg_use_eagle g \<longrightarrow> eagle \<or> (\<exists>h \<in> set groups. is_eagle_group h)" if "g \<in> set ?gs" for g
  proof (cases "init_eagle_group_ids eagle groups = []")
    case True
    then show ?thesis using split_groups_eagle that by blast
  next
    case False
    then show ?thesis by (auto simp: init_eagle_group_ids_def Let_def filter_empty_conv split: if_splits)
  qed
  have "search_ok c g" if gi: "g \<in> set ?gs" for g
  proof -
    have ids: "group_ids g \<noteq> []" "\<forall>j \<in> set (group_ids g). j < length groups \<and> g_spec (groups ! j) = sg_spec g" "prefix_cacheable (sg_spec g)"
      using col gi by auto
    have gb: "group_block_size c g = (let d = dcp_world_size_for_kv_cache_spec (sg_spec g) dcp in if d > 1 then g_block_size (sg_spec g) * d else g_block_size (sg_spec g))"
      by (simp add: group_block_size_def c i(5))
    have mb: "\<forall>j \<in> set (group_ids g). sm_block_size (single_type_managers c ! j) = group_block_size c g"
      using ids(2) sm i(10) by (simp add: gb Let_def)
    obtain j where j: "j \<in> set (group_ids g)" using ids(1) by (cases "group_ids g") auto
    have "(single_type_managers c0 ! j, groups ! j) \<in> set (zip (single_type_managers c0) groups)" using j ids(2) i(9) by (auto simp: in_set_zip)
    then have hm: "group_block_size c g mod hbs = 0" using hb ids(2,3) j sm mb by fastforce
    have "groups ! j \<in> set groups" using j ids(2) by simp
    then have "spec_ok (sg_spec g) dcp sbs (eagle \<or> (\<exists>h \<in> set groups. is_eagle_group h))" using k ids(2,3) j by metis
    then have so: "0 < group_block_size c g" "sbs mod group_block_size c g = 0"
        "kind_ok (g_kind (sg_spec g)) (group_block_size c g) sbs (dcp_world_size_for_kv_cache_spec (sg_spec g) dcp) 1 (sg_use_eagle g)"
      using eag [OF gi] by (auto simp: spec_ok_def gb Let_def kind_ok_def split: manager_kind.splits)
    have "\<forall>j \<in> set (group_ids g). group_ok (int j)" using ids(2) g(2) by (auto simp: group_ok_def)
    then show ?thesis unfolding search_ok_def using ids(1,2) len mb hm so by (simp add: c i pcp)
  qed
  then have "coord_ok c" unfolding coord_ok_def using col ne g(3,4) i(3,4,8) by (simp add: c)
  then show ?thesis using i(1,2,11) by (simp add: c)
qed

lemma coord_ok_pool: "hash_block_size p = hash_block_size (coord_pool c) \<Longrightarrow> coord_ok (c\<lparr>coord_pool := p\<rparr>) = coord_ok c"
  by (simp add: coord_ok_def search_ok_def group_block_size_def)

lemma init_pool_hash: "init_pool n caching hbs ev mets md ui = Inr p \<Longrightarrow> hash_block_size p = hbs"
  by (auto simp: init_pool_def err_simps)

text \<open>The coordinator of two or more groups, over whatever pool its blocks have reached.\<close>

lemma hybrid_ready:
  assumes "get_kv_cache_coordinator groups nb mml mif eagle True ev dcp pcp sbs hbs mets nz look ret md ui = Inr c0"
    and "length groups \<noteq> 1" "length groups \<le> 2 ^ 32" "0 < hbs" "0 < sbs"
    and "\<forall>g \<in> set groups. prefix_cacheable (g_spec g) \<longrightarrow> spec_ok (g_spec g) dcp sbs (eagle \<or> (\<exists>h \<in> set groups. is_eagle_group h))"
    and p: "pool_reach p" "hash_block_size p = hbs" and c: "c = c0\<lparr>coord_pool := p\<rparr>"
  shows "coord_ok c" "index_wf (coord_pool c)" "hash_block_size (coord_pool c) = hbs" "coord_class c = Hybrid" "kv_cache_groups c = groups"
proof -
  note h = hybrid_coordinator_ok [OF assms(1-6)]
  then have "hash_block_size (coord_pool c0) = hbs" by (blast intro: init_pool_hash)
  then show "coord_ok c" using h p(2) coord_ok_pool by (simp add: c)
  obtain xs where "pool_wf p xs" using pool_reach_wf [OF p(1)] by blast
  then show "index_wf (coord_pool c)" unfolding c by (simp add: pool_wfD)
  show "hash_block_size (coord_pool c) = hbs" "coord_class c = Hybrid" "kv_cache_groups c = groups" using h p(2) by (simp_all add: c)
qed

lemma hybrid_dispatch: "coord_class c = Hybrid \<Longrightarrow> coord_find_longest_cache_hit hs n c = hybrid_find_longest_cache_hit hs n c"
  by (simp add: coord_find_longest_cache_hit_def)

text \<open>A pool in which one block is cached for group 0 and one for group 1, under the same hash.\<close>

lemma two_groups_cached:
  obtains s where "pool_reach s" "config s = (4, True, 2, False)" "keys_of s (Blk 1) = [pack_key [5] 0]" "keys_of s (Blk 2) = [pack_key [5] 1]"
proof -
  obtain q where q: "pool_reach q" "pool_wf q [Blk 3]" "config q = (4, True, 2, False)" "\<forall>c. keys_of q c = []"
    by (blast intro: small_pool_two_taken)
  have fresh: "full_blocks_ok p sample_request [b] 0 1 1 g None"
    if "config p = (4, True, 2, False)" "keys_of p b = []" "pool_wf p xs" "group_ok g" "in_pool p b" for p b g xs
    using that keys_of_Nil [OF pool_wfD(7) [OF that(3)], of b]
    by (simp add: full_blocks_ok_def config_def sample_request_def mask_ok_def kept_def promotable_def)
  have ip: "in_pool p (Blk 1) \<and> in_pool p (Blk 2)" if "config p = (4, True, 2, False)" for p
    using two_taken_in_pool [OF that] by simp
  have h: "hash_block_size p = 2" if "config p = (4, True, 2, False)" for p using that by (simp add: config_def)
  have ok1: "full_blocks_ok q sample_request [Blk 1] 0 1 1 0 None" using fresh [OF q(3) _ q(2)] q(4) ip [OF q(3)] by (simp add: group_ok_def)
  obtain r1 s1 where s1: "cache_full_blocks (\<lambda>_. []) sample_request [Blk 1] (int 0) (int 1) (int 1 * hash_block_size q) 0 None q = Inr (r1, s1)"
      "pool_wf s1 [Blk 3]" "same_refs q s1" "keys_of s1 (Blk 1) = [pack_key [5] 0]" "keys_of s1 (Blk 2) = []"
    using cache_full_blocks_spec [OF q(2) ok1, of "\<lambda>_. []"] q(4) by (auto simp: kept_def sample_request_def null_block_def)
  have c1: "config s1 = (4, True, 2, False)" using s1(3) q(3) by (simp add: same_refs_def config_def)
  have ok2: "full_blocks_ok s1 sample_request [Blk 2] 0 1 1 1 None" using fresh [OF c1 s1(5) s1(2)] ip [OF c1] by (simp add: group_ok_def)
  obtain r2 s2 where s2: "cache_full_blocks (\<lambda>_. []) sample_request [Blk 2] (int 0) (int 1) (int 1 * hash_block_size s1) 1 None s1 = Inr (r2, s2)"
      "same_refs s1 s2" "keys_of s2 (Blk 1) = [pack_key [5] 0]" "keys_of s2 (Blk 2) = [pack_key [5] 1]"
    using cache_full_blocks_spec [OF s1(2) ok2, of "\<lambda>_. []"] s1(4) by (auto simp: kept_def sample_request_def null_block_def)
  have "config s2 = (4, True, 2, False)" using s2(2) c1 by (simp add: same_refs_def config_def)
  moreover have "pool_reach s2" using reach_full [OF reach_full [OF q(1) ok1 s1(1)] ok2 s2(1)] .
  ultimately show ?thesis using that s2(3,4) by blast
qed

text \<open>A full-attention group and a group with a window of three tokens, blocks of two tokens.\<close>

definition sample_groups :: "kv_cache_group list" where
  "sample_groups =
     [\<lparr>g_spec = \<lparr>g_kind = FullAttention, g_block_size = 2, g_spec_id = ''full''\<rparr>, is_eagle_group = False\<rparr>,
      \<lparr>g_spec = \<lparr>g_kind = SlidingWindow 3 0, g_block_size = 2, g_spec_id = ''window''\<rparr>, is_eagle_group = False\<rparr>]"

lemma sample_coordinator:
  "\<exists>c0. get_kv_cache_coordinator sample_groups 4 64 8 False True False 1 1 2 2 False False 0 None ''GPU'' False = Inr c0
     \<and> attention_groups c0 = [\<lparr>sg_spec = g_spec (sample_groups ! 0), group_ids = [0], sg_use_eagle = False\<rparr>,
                              \<lparr>sg_spec = g_spec (sample_groups ! 1), group_ids = [1], sg_use_eagle = False\<rparr>]
     \<and> coord_dcp_world_size c0 = 1 \<and> scheduler_block_size c0 = 2"
proof -
  obtain p where p: "init_pool 4 True 2 False False ''GPU'' False = Inr p" using init_pool_spec [of 4 True 2 False False "''GPU''" False] by auto
  have u: "[0..<2::nat] = [0, 1]" "[0..<Suc (Suc 0)] = [0, 1]" "[0..<Suc 0] = [0]" by (simp_all add: upt_rec)
  show ?thesis
    by (simp add: get_kv_cache_coordinator_def init_coordinator_def sample_groups_def p assertE_def Let_def init_eagle_group_ids_def
        validate_prefix_cache_retention_interval_def init_hybrid_def verify_and_split_kv_cache_groups_def split_groups_def add_to_groups_def
        prefix_cacheable_def is_full_def u get_manager_for_kv_cache_spec_def init_manager_def dcp_world_size_for_kv_cache_spec_def)
qed

lemma sample_spec_ok: "\<forall>g \<in> set sample_groups. prefix_cacheable (g_spec g) \<longrightarrow> spec_ok (g_spec g) 1 2 False"
  by (simp add: sample_groups_def spec_ok_def dcp_world_size_for_kv_cache_spec_def kind_ok_def)

subsection \<open>Properties\<close>

text \<open>
  C3. Every group can serve the common hit. For a hybrid coordinator as the constructor builds it (groups of
  full, R-SWA, sliding-window or chunked-local attention, with or without EAGLE, and circular-buffer groups
  that take no part), over any reachable pool, the fixed-point search ends and returns a length of at
  most \<open>maxl\<close> tokens, a multiple of the scheduler block. For every group that takes part the list of
  blocks has exactly the length of the hit, and each block a later query of that group reads is a pool
  block registered under the key of its prefix for that group; the lists of the other groups are empty.
\<close>

theorem hybrid_hit_served:
  assumes new: "get_kv_cache_coordinator groups nb mml mif eagle True ev dcp pcp sbs hbs mets nz look ret md ui = Inr c0"
    and g: "length groups \<noteq> 1" "length groups \<le> 2 ^ 32" "0 < hbs" "0 < sbs"
    and k: "\<forall>g \<in> set groups. prefix_cacheable (g_spec g) \<longrightarrow> spec_ok (g_spec g) dcp sbs (eagle \<or> (\<exists>h \<in> set groups. is_eagle_group h))"
    and p: "pool_reach p" "hash_block_size p = hbs" and c: "c = c0\<lparr>coord_pool := p\<rparr>"
    and m: "0 \<le> maxl" "maxl div hbs \<le> int (length hs)"
  shows "\<exists>bls L u. coord_find_longest_cache_hit hs maxl c = Some (Inr (bls, L, u)) \<and> 0 \<le> L \<and> L \<le> maxl \<and> L mod sbs = 0 \<and> 0 \<le> u
    \<and> length bls = length groups
    \<and> (\<forall>g \<in> set (attention_groups c). \<forall>i \<in> set (group_ids g). int (length (bls ! i)) * group_block_size c g = L
        \<and> (\<forall>j. needed_from (g_kind (sg_spec g)) (group_block_size c g) (length (bls ! i)) \<le> j \<and> j < length (bls ! i) \<longrightarrow>
             in_pool p (bls ! i ! j) \<and> pack_key (block_key (group_hashes c g) hs j) (int i) \<in> set (keys_of p (bls ! i ! j))))
    \<and> (\<forall>i < length groups. i \<notin> ids_of (attention_groups c) \<longrightarrow> bls ! i = [])"
proof -
  note r = hybrid_ready [OF new g k p c]
  obtain bls L u where f: "hybrid_find_longest_cache_hit hs maxl c = Some (Inr (bls, L, u))" "0 \<le> L" "L \<le> maxl" "0 \<le> u"
      "length bls = length (kv_cache_groups c)" "\<forall>i < length bls. i \<notin> ids_of (attention_groups c) \<longrightarrow> bls ! i = []"
      "\<forall>g \<in> set (attention_groups c). group_serves c hs g L \<and> (\<forall>i \<in> set (group_ids g). list_serves c hs g i L (bls ! i))"
    using hybrid_find_spec [OF r(1,2) _ m(1), of hs] m(2) r(3) by metis
  have sbs: "scheduler_block_size c = sbs"
    using new g(1) by (auto simp: get_kv_cache_coordinator_def Let_def err_simps c init_hybrid_def verify_and_split_kv_cache_groups_def dest: init_coordinator_Inr(3))
  have "attention_groups c \<noteq> []" using r(1) by (simp add: coord_ok_def)
  then have al: "L mod sbs = 0" using f(7) sbs by (metis group_serves_def list.set_sel(1))
  have "int (length (bls ! i)) * group_block_size c g = L \<and> (\<forall>j. needed_from (g_kind (sg_spec g)) (group_block_size c g) (length (bls ! i)) \<le> j \<and> j < length (bls ! i) \<longrightarrow>
      in_pool p (bls ! i ! j) \<and> pack_key (block_key (group_hashes c g) hs j) (int i) \<in> set (keys_of p (bls ! i ! j)))"
    if gi: "g \<in> set (attention_groups c)" "i \<in> set (group_ids g)" for g i
  proof -
    note o = coord_okD [OF r(1) gi(1)]
    have so: "sbs mod group_block_size c g = 0" using o(3) sbs by (simp add: search_ok_def)
    then have "group_block_size c g dvd L" using al by (meson dvd_trans mod_0_imp_dvd)
    then have "int (nat (L div group_block_size c g)) * group_block_size c g = L" using f(2) o(9) by (simp add: pos_imp_zdiv_nonneg_iff)
    moreover have "list_serves c hs g i L (bls ! i)" using f(7) gi by blast
    ultimately show ?thesis unfolding list_serves_def serves_def o(7) by (simp add: c)
  qed
  then show ?thesis using f(1-6) al hybrid_dispatch [OF r(4)] r(5)
    by (intro exI [of _ bls] exI [of _ L] exI [of _ u]) simp
qed

theorem hybrid_hit_served_witness:
  "\<exists>c0 s bls L u. get_kv_cache_coordinator sample_groups 4 64 8 False True False 1 1 2 2 False False 0 None ''GPU'' False = Inr c0
    \<and> pool_reach s \<and> coord_find_longest_cache_hit [[5]] 3 (c0\<lparr>coord_pool := s\<rparr>) = Some (Inr (bls, L, u)) \<and> L \<le> 3 \<and> L mod 2 = 0 \<and> length bls = 2"
proof -
  obtain c0 where c0: "get_kv_cache_coordinator sample_groups 4 64 8 False True False 1 1 2 2 False False 0 None ''GPU'' False = Inr c0"
    using sample_coordinator by blast
  obtain s where s: "pool_reach s" "config s = (4, True, 2, False)" by (blast intro: two_groups_cached)
  have h: "hash_block_size s = 2" using s(2) by (simp add: config_def)
  have e: "\<not> (\<exists>h \<in> set sample_groups. is_eagle_group h)" and l: "length sample_groups = 2" by (simp_all add: sample_groups_def)
  show ?thesis using hybrid_hit_served [OF c0 _ _ _ _ _ s(1) h refl, of 3 "[[5]]"] e l sample_spec_ok c0 s(1) by fastforce
qed

text \<open>
  C6. Without EAGLE the common hit is the longest one. Under the same conditions and with no EAGLE group, the length
  the search returns can be served by every group that takes part, and every multiple of the
  scheduler block of at most \<open>maxl\<close> tokens that all of them can serve is at most that length: although the
  groups are searched one after the other and each restarts from the length of the others, no common hit is lost.
\<close>

theorem hybrid_hit_greatest:
  assumes new: "get_kv_cache_coordinator groups nb mml mif False True ev dcp pcp sbs hbs mets nz look ret md ui = Inr c0"
    and g: "length groups \<noteq> 1" "length groups \<le> 2 ^ 32" "0 < hbs" "0 < sbs" "\<forall>g \<in> set groups. \<not> is_eagle_group g"
    and k: "\<forall>g \<in> set groups. prefix_cacheable (g_spec g) \<longrightarrow> spec_ok (g_spec g) dcp sbs False"
    and p: "pool_reach p" "hash_block_size p = hbs" and c: "c = c0\<lparr>coord_pool := p\<rparr>"
    and m: "0 \<le> maxl" "maxl div hbs \<le> int (length hs)"
  shows "\<exists>bls L u. coord_find_longest_cache_hit hs maxl c = Some (Inr (bls, L, u)) \<and> L \<le> maxl
    \<and> (\<forall>g \<in> set (attention_groups c). group_serves c hs g L)
    \<and> (\<forall>T \<le> maxl. (\<forall>g \<in> set (attention_groups c). group_serves c hs g T) \<longrightarrow> T \<le> L)"
proof -
  have e: "(False \<or> (\<exists>h \<in> set groups. is_eagle_group h)) = False" using g(5) by blast
  have k': "\<forall>g \<in> set groups. prefix_cacheable (g_spec g) \<longrightarrow> spec_ok (g_spec g) dcp sbs (False \<or> (\<exists>h \<in> set groups. is_eagle_group h))"
    using k unfolding e .
  note r = hybrid_ready [OF new g(1-4) k' p c]
  have ids: "init_eagle_group_ids False groups = []" using g(5) by (simp add: init_eagle_group_ids_def filter_empty_conv)
  have "attention_groups c = split_groups groups []" using new g(1)
    by (auto simp: get_kv_cache_coordinator_def Let_def err_simps c init_hybrid_def verify_and_split_kv_cache_groups_def init_coordinator_Inr(2,7) ids)
  then have "\<forall>g \<in> set (attention_groups c). \<not> sg_use_eagle g" using split_groups_eagle by metis
  then show ?thesis using hybrid_find_spec [OF r(1,2) _ m(1), of hs] m(2) r(3) hybrid_dispatch [OF r(4)] by metis
qed

theorem hybrid_hit_greatest_witness:
  "\<exists>c0 s bls u. get_kv_cache_coordinator sample_groups 4 64 8 False True False 1 1 2 2 False False 0 None ''GPU'' False = Inr c0
    \<and> pool_reach s \<and> coord_find_longest_cache_hit [[5]] 3 (c0\<lparr>coord_pool := s\<rparr>) = Some (Inr (bls, 2, u))"
proof -
  obtain c0 where c0: "get_kv_cache_coordinator sample_groups 4 64 8 False True False 1 1 2 2 False False 0 None ''GPU'' False = Inr c0"
      "attention_groups c0 = [\<lparr>sg_spec = g_spec (sample_groups ! 0), group_ids = [0], sg_use_eagle = False\<rparr>,
         \<lparr>sg_spec = g_spec (sample_groups ! 1), group_ids = [1], sg_use_eagle = False\<rparr>]" "coord_dcp_world_size c0 = 1" "scheduler_block_size c0 = 2"
    using sample_coordinator by blast
  obtain s where s: "pool_reach s" "config s = (4, True, 2, False)" "keys_of s (Blk 1) = [pack_key [5] 0]" "keys_of s (Blk 2) = [pack_key [5] 1]"
    by (rule two_groups_cached)
  have h: "hash_block_size s = 2" using s(2) by (simp add: config_def)
  define c where "c = c0\<lparr>coord_pool := s\<rparr>"
  have e: "\<forall>g \<in> set sample_groups. \<not> is_eagle_group g" and l: "length sample_groups = 2" by (simp_all add: sample_groups_def)
  have "in_pool s (Blk 1) \<and> pack_key [5] 0 \<in> set (keys_of s (Blk 1))" "in_pool s (Blk 2) \<and> pack_key [5] 1 \<in> set (keys_of s (Blk 2))"
    using s two_taken_in_pool [OF s(2)] by simp_all
  then have ci: "cached_in s [0] [5]" "cached_in s [1] [5]" unfolding cached_in_def by auto
  have serve: "group_serves c [[5]] g 2" if "g \<in> set (attention_groups c)" for g
  proof -
    have gb: "group_block_size c g = 2" using that c0(2,3)
      by (auto simp: c_def group_block_size_def sample_groups_def dcp_world_size_for_kv_cache_spec_def)
    then have gh: "group_hashes c g = 1" by (simp add: group_hashes_def c_def h)
    have cg: "cached_in s (map int (group_ids g)) [5]" using that c0(2) ci by (auto simp: c_def)
    have "coord_pool c = s" "scheduler_block_size c = 2" using c0(4) by (simp_all add: c_def)
    then show ?thesis unfolding group_serves_def servable_def gb gh using cg by (simp add: block_key_def)
  qed
  obtain bls L u where f: "coord_find_longest_cache_hit [[5]] 3 c = Some (Inr (bls, L, u))" "L \<le> 3"
      "\<forall>g \<in> set (attention_groups c). group_serves c [[5]] g L"
      "\<forall>T \<le> 3. (\<forall>g \<in> set (attention_groups c). group_serves c [[5]] g T) \<longrightarrow> T \<le> L"
    using hybrid_hit_greatest [OF c0(1) _ _ _ _ e sample_spec_ok s(1) h c_def, of 3 "[[5]]"] l by auto
  have "2 \<le> L" using f(4) serve by simp
  moreover have "L mod 2 = 0" using f(3) c0(2,4) by (auto simp: c_def group_serves_def)
  ultimately have "L = 2" using f(2) by presburger
  then show ?thesis using c0(1) s(1) f(1) unfolding c_def by blast
qed

end
