(* ===== verification/KV_Slots.thy ===== *)
theory KV_Slots
  imports KV_Alloc Hybrid_Hits
begin

text \<open>
  The KV-cache manager over its life: the states it can reach from its constructor by well-formed calls, the
  accounting that holds in all of them, and what the operations promise there.
\<close>

subsection \<open>Construction\<close>

definition scaled_block_size :: "kv_cache_spec \<Rightarrow> int \<Rightarrow> int" where
  "scaled_block_size sp dcp = (let d = dcp_world_size_for_kv_cache_spec sp dcp in if d > 1 then g_block_size sp * d else g_block_size sp)"

text \<open>A manager as built for a group: its configuration, and no request.\<close>

definition built :: "kv_cache_spec \<Rightarrow> int \<Rightarrow> bool \<Rightarrow> nat \<Rightarrow> st_manager \<Rightarrow> bool" where
  "built sp dcp caching i m \<longleftrightarrow> kind m = g_kind sp \<and> sm_block_size m = scaled_block_size sp dcp \<and> sm_enable_caching m = caching
     \<and> kv_cache_group_id m = int i \<and> req_to_blocks m = [] \<and> num_cached_block m = Map.empty \<and> partial_hit_reqs m = Map.empty \<and> pending_cow_copies m = []"

definition all_built :: "kv_cache_group list \<Rightarrow> int \<Rightarrow> bool \<Rightarrow> st_manager list \<Rightarrow> bool" where
  "all_built groups dcp caching ms \<longleftrightarrow> length ms = length groups \<and> (\<forall>i < length ms. built (g_spec (groups ! i)) dcp caching i (ms ! i))"

lemma built_upd [simp]: "built sp dcp caching i (m\<lparr>use_eagle := v\<rparr>) = built sp dcp caching i m"
  "built sp dcp caching i (m\<lparr>cache_hit_alignment_tokens := w\<rparr>) = built sp dcp caching i m"
  by (simp_all add: built_def)

lemma all_built_eagle: "all_built groups dcp caching ms \<Longrightarrow> all_built groups dcp caching (ms[j := (ms ! j)\<lparr>use_eagle := v\<rparr>])"
  by (cases "j < length ms") (auto simp: all_built_def nth_list_update)

lemma all_built_set_eagle: "all_built groups dcp caching ms \<Longrightarrow> all_built groups dcp caching (set_eagle gs ms)"
proof -
  have "all_built groups dcp caching ms \<Longrightarrow> all_built groups dcp caching (fold (\<lambda>i ms. ms[i := (ms ! i)\<lparr>use_eagle := True\<rparr>]) is' ms)" for is'
    by (induction is' arbitrary: ms) (simp_all add: all_built_eagle)
  then show "all_built groups dcp caching ms \<Longrightarrow> all_built groups dcp caching (set_eagle gs ms)" by (simp add: set_eagle_def)
qed

lemma init_coordinator_built:
  assumes "init_coordinator cls groups nb mml mif eagle caching ev dcp pcp sbs hbs mets nz look ret md ui = Inr c"
  shows "all_built groups dcp caching (single_type_managers c)" "num_reprefillable_tokens c = max 0 (look - 1)"
  using assms
  by (auto simp: init_coordinator_def err_simps Let_def get_manager_for_kv_cache_spec_def init_manager_def all_built_def built_def
      scaled_block_size_def split: if_splits)

lemma coordinator_built:
  assumes "get_kv_cache_coordinator groups nb mml mif eagle caching ev dcp pcp sbs hbs mets nz look ret md ui = Inr c"
  shows "all_built groups dcp caching (single_type_managers c)" "num_reprefillable_tokens c = max 0 (look - 1)"
    "kv_cache_groups c = groups" "scheduler_block_size c = sbs" "init_pool nb caching hbs ev mets md ui = Inr (coord_pool c)"
proof -
  define cls where "cls = (if \<not> caching then NoPrefixCache else if length groups = 1 then Unitary else Hybrid)"
  obtain c0 where c0: "init_coordinator cls groups nb mml mif eagle caching ev dcp pcp sbs hbs mets nz look ret md ui = Inr c0"
    and r: "(case cls of NoPrefixCache \<Rightarrow> Inr c0 | Unitary \<Rightarrow> init_unitary caching hbs c0 | Hybrid \<Rightarrow> init_hybrid hbs c0) = Inr c"
    using assms by (auto simp: get_kv_cache_coordinator_def Let_def err_simps cls_def split: if_splits)
  note i = init_coordinator_Inr [OF c0] and b = init_coordinator_built [OF c0]
  have al: "all_built groups dcp caching (map (\<lambda>m. m\<lparr>cache_hit_alignment_tokens := w\<rparr>) (single_type_managers c0))" for w
    using b(1) by (simp add: all_built_def)
  have "all_built groups dcp caching (single_type_managers c) \<and> num_reprefillable_tokens c = num_reprefillable_tokens c0
      \<and> kv_cache_groups c = kv_cache_groups c0 \<and> scheduler_block_size c = scheduler_block_size c0 \<and> coord_pool c = coord_pool c0"
    using r b(1) by (cases cls) (auto simp: init_unitary_def init_hybrid_def verify_and_split_kv_cache_groups_def Let_def err_simps
        intro: all_built_set_eagle [OF al] all_built_eagle [of _ _ _ _ 0])
  then show "all_built groups dcp caching (single_type_managers c)" "num_reprefillable_tokens c = max 0 (look - 1)"
    "kv_cache_groups c = groups" "scheduler_block_size c = sbs" "init_pool nb caching hbs ev mets md ui = Inr (coord_pool c)"
    using i b(2) by simp_all
qed

definition group_sane :: "kv_cache_group \<Rightarrow> bool" where
  "group_sane g \<longleftrightarrow> 0 < g_block_size (g_spec g) \<and> window_ok (g_kind (g_spec g))"

lemma built_empty: "built sp dcp caching i m \<Longrightarrow> own_count m b = 0 \<and> tail_set m = {} \<and> req_blocks rid m = []"
  by (simp add: built_def own_count_def owned_def tail_set_def tail_at_def req_blocks_def)

lemma new_coord_inv:
  assumes new: "get_kv_cache_coordinator groups nb mml mif eagle caching ev dcp pcp sbs hbs mets nz look ret md ui = Inr c"
    and sane: "\<forall>g \<in> set groups. group_sane g"
  shows "coord_inv (\<lambda>_. 0) c (map Blk [1..<nat nb])"
proof -
  note b = coordinator_built [OF new]
  have "0 < nb" using b(5) by (auto simp: init_pool_def err_simps)
  then have p: "pool_wf (coord_pool c) (map Blk [1..<nat nb])" "\<forall>b. ref_cnt (heap (coord_pool c) b) = 0"
    using init_pool_spec [of nb caching hbs ev mets md ui] b(5) by auto
  have bm: "\<exists>i < length groups. built (g_spec (groups ! i)) dcp caching i m" if "m \<in> set (single_type_managers c)" for m
    using that b(1) by (auto simp: all_built_def in_set_conv_nth)
  have e: "own_count m b = 0 \<and> tail_set m = {}" if "m \<in> set (single_type_managers c)" for m b using bm [OF that] built_empty by blast
  have "total_own (single_type_managers c) b = 0" for b unfolding total_own_def using e by (intro sum_list_nonneg_eq_0_iff [THEN iffD2]) auto
  moreover have "tails (single_type_managers c) = {}" using e by (auto simp: tails_def)
  moreover have "disjoint_tails ms" if "\<forall>m \<in> set ms. tail_set m = {}" for ms using that by (induction ms) auto
  moreover have "plain m (coord_pool c)" if m: "m \<in> set (single_type_managers c)" for m
  proof -
    obtain i where i: "i < length groups" "built (g_spec (groups ! i)) dcp caching i m" using bm [OF m] by blast
    then have "0 < scaled_block_size (g_spec (groups ! i)) dcp" using sane by (auto simp: scaled_block_size_def Let_def group_sane_def)
    then show ?thesis using i(2) by (simp add: built_def plain_def tables_ok_def owned_def tails_unique_def tail_at_def req_blocks_def)
  qed
  ultimately show ?thesis using p e by (simp add: coord_inv_def cinv_def keyless_def)
qed

lemma new_kv_inv:
  assumes new: "init_kv_manager groups nb mml sbs hbs mif caching eagle look logs ev dcp pcp mets wm nz ret md ui meta = Inr k"
    and sane: "\<forall>g \<in> set groups. group_sane g"
  shows "kv_inv (\<lambda>_. 0) k (map Blk [1..<nat nb])"
proof -
  obtain c where c: "get_kv_cache_coordinator groups nb mml (case mif of None \<Rightarrow> mml | Some n \<Rightarrow> n) eagle caching ev dcp pcp sbs hbs mets nz look ret md ui = Inr c"
      "kv_coordinator k = c" "watermark_blocks k = \<lfloor>wm * of_int nb\<rfloor>" "0 \<le> wm"
    using new by (auto simp: init_kv_manager_def Let_def err_simps)
  note b = coordinator_built [OF c(1)]
  have "0 < nb" using b(5) by (auto simp: init_pool_def err_simps)
  then have "0 \<le> watermark_blocks k" using c(3,4) by simp
  moreover have "window_ok (kind m)" if m: "m \<in> set (single_type_managers c)" for m
  proof -
    obtain i where "i < length groups" "kind m = g_kind (g_spec (groups ! i))" using m b(1) by (auto simp: all_built_def built_def in_set_conv_nth)
    then show ?thesis using sane by (simp add: group_sane_def)
  qed
  ultimately show ?thesis using new_coord_inv [OF c(1) sane] b(1,3) by (simp add: kv_inv_def c(2) num_kv_cache_groups_def all_built_def)
qed

subsection \<open>Changes of the prefix index\<close>

lemma coord_inv_keys:
  assumes inv: "coord_inv ext c xs" and q: "pool_wf q xs" "config q = config (coord_pool c)"
    "\<forall>b. ref_cnt (heap q b) = ref_cnt (heap (coord_pool c) b)" "\<forall>b. keys_of q b = keys_of (coord_pool c) b \<or> keys_of q b = []"
  shows "coord_inv ext (c\<lparr>coord_pool := q\<rparr>) xs"
proof -
  have ec: "enable_caching q = enable_caching (coord_pool c)" using q(2) by (simp add: config_def)
  have "keyless q B" if "keyless (coord_pool c) B" for B using that q(4) unfolding keyless_def ec by metis
  then show ?thesis using inv q(1,3) config_in_pool [OF q(2)] plain_config [OF q(2)] by (simp add: coord_inv_def cinv_def)
qed

lemma kv_inv_keys:
  assumes "kv_inv ext k xs" "pool_wf q xs" "config q = config (kv_pool k)" "\<forall>b. ref_cnt (heap q b) = ref_cnt (heap (kv_pool k) b)"
    "\<forall>b. keys_of q b = keys_of (kv_pool k) b \<or> keys_of q b = []"
  shows "kv_inv ext (k\<lparr>kv_coordinator := (kv_coordinator k)\<lparr>coord_pool := q\<rparr>\<rparr>) xs"
  using assms(1) coord_inv_keys [of ext "kv_coordinator k" xs, OF _ assms(2-5)] by (simp add: kv_inv_def num_kv_cache_groups_def)

lemma kv_pool_wf: "kv_inv ext k xs \<Longrightarrow> pool_wf (kv_pool k) xs"
  by (simp add: kv_inv_def coord_inv_def cinv_def)

lemma kv_evict_spec:
  assumes inv: "kv_inv ext k xs" and ids: "\<forall>i \<in> set ids. 0 \<le> i \<and> i < num_gpu_blocks (kv_pool k)"
  shows "\<exists>k'. kv_evict_blocks ids k = Inr k' \<and> kv_inv ext k' xs"
proof -
  obtain q where q: "evict_blocks ids (kv_pool k) = Inr q" "pool_wf q xs" "same_refs (kv_pool k) q"
      "keys_of q = (\<lambda>c. if block_id c \<in> set ids \<and> in_pool (kv_pool k) c then [] else keys_of (kv_pool k) c)"
    using evict_blocks_spec [OF kv_pool_wf [OF inv] ids] by blast
  then show ?thesis using kv_inv_keys [OF inv q(2) same_refs_config [OF q(3)]]
    by (simp add: kv_evict_blocks_def set_kv_pool_def same_refs_def)
qed

lemma kv_reset_spec:
  assumes inv: "kv_inv ext k xs" and r: "kv_reset_prefix_cache k = Inr (ok', k')"
  shows "kv_inv ext k' xs"
proof -
  let ?p = "kv_pool k"
  have "\<exists>ok q. reset_prefix_cache ?p = Inr (ok, q) \<and> kv_inv ext (k\<lparr>kv_coordinator := (kv_coordinator k)\<lparr>coord_pool := q\<rparr>\<rparr>) xs"
  proof (cases "num_gpu_blocks ?p - int (length xs) = 1")
    case True
    then obtain q where q: "reset_prefix_cache ?p = Inr (True, q)" "pool_wf q xs" "config q = config ?p" "\<forall>c. keys_of q c = []"
        "\<forall>c. ref_cnt (heap q c) = ref_cnt (heap ?p c)"
      using reset_prefix_cache_spec [OF kv_pool_wf [OF inv]] by auto
    then show ?thesis using kv_inv_keys [OF inv q(2,3,5)] by blast
  next
    case False
    then have "reset_prefix_cache ?p = Inr (False, ?p)" using reset_prefix_cache_spec [OF kv_pool_wf [OF inv]] by auto
    then show ?thesis using inv by (intro exI [of _ False] exI [of _ ?p]) simp
  qed
  then have "\<exists>ok c. coord_reset_prefix_cache (kv_coordinator k) = Inr (ok, c) \<and> kv_inv ext (k\<lparr>kv_coordinator := c\<rparr>) xs"
    using inv by (cases "single_type_managers (kv_coordinator k) = []") (force simp: coord_reset_prefix_cache_def)+
  then obtain ok c where c: "coord_reset_prefix_cache (kv_coordinator k) = Inr (ok, c)" "kv_inv ext (k\<lparr>kv_coordinator := c\<rparr>) xs" by blast
  have upd: "kv_inv ext (k\<lparr>kv_coordinator := c, prefix_cache_stats := v\<rparr>) xs" for v
    using c(2) by (simp add: kv_inv_def num_kv_cache_groups_def)
  show ?thesis using r c upd by (auto simp: kv_reset_prefix_cache_def Let_def split: if_splits option.splits)
qed

subsection \<open>Lookups only queue events\<close>

lemma emit_core: "emit_cached_block_events dig r n bs g p = Inr (r', q) \<Longrightarrow> core q = core p"
  by (auto simp: emit_cached_block_events_def err_simps split: if_splits prod.splits)

lemma emit_groups_core: "emit_group_events dig groups i bss r p = Inr (r', q) \<Longrightarrow> core q = core p"
proof (induction bss arbitrary: i r p)
  case (Cons bs bss)
  then show ?case by (auto simp: err_simps split: if_splits prod.splits dest!: emit_core)
qed simp

lemma kv_inv_core:
  assumes "kv_inv ext k xs" "core q = core (kv_pool k)"
  shows "kv_inv ext (k\<lparr>kv_coordinator := (kv_coordinator k)\<lparr>coord_pool := q\<rparr>\<rparr>) xs"
  using kv_inv_keys [OF assms(1), of q] core_wf [OF assms(2)] kv_pool_wf [OF assms(1)] coreD [OF assms(2)] core_keys [OF assms(2)]
  by (simp add: config_def)

lemma kv_lookup_spec:
  assumes inv: "kv_inv ext k xs" and r: "get_computed_blocks dig r k = Some (Inr (bs, n, bd, r', k'))"
  shows "kv_inv ext k' xs"
  using r inv kv_inv_core [OF inv]
  by (auto simp: get_computed_blocks_def coord_emit_cached_block_events_def err_simps split: if_splits dest!: emit_groups_core)

subsection \<open>Reachable states\<close>

text \<open>
  The states a manager reaches from its constructor by lookups, well-formed allocations, releases, caching, eviction
  and resets, in any order and for any requests.
\<close>

inductive kv_reach :: "kv_manager \<Rightarrow> bool" where
  kr_new: "init_kv_manager groups nb mml sbs hbs mif caching eagle look logs ev dcp pcp mets wm nz ret md ui meta = Inr k \<Longrightarrow>
    \<forall>g \<in> set groups. group_sane g \<Longrightarrow> kv_reach k"
| kr_lookup: "kv_reach k \<Longrightarrow> get_computed_blocks dig r k = Some (Inr (bs, n, bd, r', k')) \<Longrightarrow> kv_reach k'"
| kr_allocate: "kv_reach k \<Longrightarrow> slots_call_ok r nn nc newc la e delay reserved k \<Longrightarrow>
    allocate_slots dig r nn nc newc la e delay enc must_fit reserved has_sched k = Inr (res, r', k') \<Longrightarrow> kv_reach k'"
| kr_free: "kv_reach k \<Longrightarrow> kv_free r k = Inr k' \<Longrightarrow> kv_reach k'"
| kr_window: "kv_reach k \<Longrightarrow> \<forall>l. pr = Some l \<longrightarrow> 0 \<le> l \<Longrightarrow> kv_remove_skipped_blocks rid n pr k = Inr k' \<Longrightarrow> kv_reach k'"
| kr_cache: "kv_reach k \<Longrightarrow> \<forall>m \<in> set (single_type_managers (kv_coordinator k)). cache_ready r (num_tokens_to_cache n m (kv_coordinator k)) m (kv_pool k) \<Longrightarrow>
    kv_cache_blocks_op dig r n k = Inr (r', k') \<Longrightarrow> kv_reach k'"
| kr_evict: "kv_reach k \<Longrightarrow> \<forall>i \<in> set ids. 0 \<le> i \<and> i < num_gpu_blocks (kv_pool k) \<Longrightarrow> kv_evict_blocks ids k = Inr k' \<Longrightarrow> kv_reach k'"
| kr_reset: "kv_reach k \<Longrightarrow> kv_reset_prefix_cache k = Inr (ok, k') \<Longrightarrow> kv_reach k'"

lemma kv_step_kept:
  assumes inv: "kv_inv ext k xs" and c: "coord_inv ext c ys" "coord_kept (kv_coordinator k) c"
    "\<And>j. j < length (single_type_managers (kv_coordinator k)) \<Longrightarrow> same_config (single_type_managers (kv_coordinator k) ! j) (single_type_managers c ! j)"
  shows "\<exists>ys. kv_inv ext (k\<lparr>kv_coordinator := c\<rparr>) ys"
  using kv_inv_kept [OF inv c(1,2)] c(3) by blast

lemma kv_free_spec:
  assumes inv: "kv_inv ext k xs"
  shows "\<exists>c ys. kv_free r k = Inr (k\<lparr>kv_coordinator := c\<rparr>) \<and> kv_inv ext (k\<lparr>kv_coordinator := c\<rparr>) ys \<and> length xs \<le> length ys
    \<and> (\<forall>j < num_kv_cache_groups k. let m = single_type_managers (kv_coordinator k) ! j; m' = single_type_managers c ! j in
         req_blocks (request_id r) m' = [] \<and> num_cached_block m' (request_id r) = None \<and> others_same (request_id r) m m')"
proof -
  have len: "length (single_type_managers (kv_coordinator k)) = num_kv_cache_groups k" using inv by (simp add: kv_inv_def)
  obtain c ys where c: "coord_free (request_id r) (kv_coordinator k) = Inr c" "coord_inv ext c ys" "coord_kept (kv_coordinator k) c" "length xs \<le> length ys"
      "\<forall>j < length (single_type_managers (kv_coordinator k)). let m = single_type_managers (kv_coordinator k) ! j; m' = single_type_managers c ! j in
         same_config m m' \<and> req_blocks (request_id r) m' = [] \<and> num_cached_block m' (request_id r) = None \<and> others_same (request_id r) m m'"
    using coord_free_spec [of ext "kv_coordinator k" xs "request_id r"] inv unfolding kv_inv_def by blast
  have "kv_inv ext (k\<lparr>kv_coordinator := c\<rparr>) ys" using kv_inv_kept [OF inv c(2,3)] c(5) by (simp add: Let_def)
  then show ?thesis using c len by (intro exI [of _ c] exI [of _ ys]) (simp add: kv_free_def Let_def)
qed

lemma kv_reach_inv: "kv_reach k \<Longrightarrow> \<exists>xs. kv_inv (\<lambda>_. 0) k xs"
proof (induction rule: kv_reach.induct)
  case kr_new
  show ?case using new_kv_inv [OF kr_new] ..
next
  case kr_lookup
  then show ?case using kv_lookup_spec by blast
next
  case (kr_allocate k r nn nc newc la e delay reserved dig enc must_fit has_sched res r' k')
  then obtain xs where "kv_inv (\<lambda>_. 0) k xs" by blast
  then show ?case using allocate_slots_spec [OF _ kr_allocate.hyps(2), of "\<lambda>_. 0" xs dig enc must_fit has_sched] kr_allocate.hyps(3) by auto
next
  case (kr_free k r k')
  then obtain xs where "kv_inv (\<lambda>_. 0) k xs" by blast
  then show ?case using kv_free_spec [of "\<lambda>_. 0" k xs r] kr_free.hyps(2) by auto
next
  case (kr_window k pr rid n k')
  then obtain xs where i: "kv_inv (\<lambda>_. 0) k xs" by blast
  then obtain c ys where "coord_remove_skipped_blocks rid n pr (kv_coordinator k) = Inr c" "coord_inv (\<lambda>_. 0) c ys" "coord_kept (kv_coordinator k) c"
      "\<forall>j < length (single_type_managers (kv_coordinator k)). same_config (single_type_managers (kv_coordinator k) ! j) (single_type_managers c ! j)"
    using coord_remove_skipped_spec [of "\<lambda>_. 0" "kv_coordinator k" xs pr rid n] kr_window.hyps(2) unfolding kv_inv_def Let_def by blast
  then show ?case using kv_inv_kept [OF i] kr_window.hyps(3) by (auto simp: kv_remove_skipped_blocks_def)
next
  case (kr_cache k r n dig r' k')
  then obtain xs where i: "kv_inv (\<lambda>_. 0) k xs" by blast
  then obtain mm c where "coord_cache_blocks dig r n (kv_coordinator k) = Inr (with_memo r mm, c)" "coord_inv (\<lambda>_. 0) c xs" "coord_kept (kv_coordinator k) c"
      "\<forall>j < length (single_type_managers (kv_coordinator k)). same_config (single_type_managers (kv_coordinator k) ! j) (single_type_managers c ! j)"
    using coord_cache_spec [of "\<lambda>_. 0" "kv_coordinator k" xs r n dig] kr_cache.hyps(2) unfolding kv_inv_def cached_more_def by blast
  then show ?case using kv_inv_kept [OF i] i kr_cache.hyps(3) by (auto simp: kv_cache_blocks_op_def split: if_splits)
next
  case kr_evict
  then show ?case using kv_evict_spec by (metis Inr_inject)
next
  case kr_reset
  then show ?case using kv_reset_spec by blast
qed

subsection \<open>The blocks that are written\<close>








subsection \<open>A small manager\<close>

text \<open>Two groups over four blocks, one of them the null block.\<close>

definition sample_kv :: "kv_manager \<Rightarrow> bool" where
  "sample_kv k \<longleftrightarrow> init_kv_manager sample_groups 4 64 2 2 (Some 8) True False 0 False False 1 1 False 0 False None ''GPU'' False [] = Inr k"

lemma sample_kv_exists: "\<exists>k. sample_kv k"
  using sample_coordinator by (auto simp: sample_kv_def init_kv_manager_def assertE_def)

lemma sample_kv_facts:
  assumes "sample_kv k"
  shows "kv_reach k" "kv_inv (\<lambda>_. 0) k [Blk 1, Blk 2, Blk 3]" "num_kv_cache_groups k = 2" "kv_max_model_len k = 64" "watermark_blocks k = 0"
    "all_built sample_groups 1 True (single_type_managers (kv_coordinator k))" "num_reprefillable_tokens (kv_coordinator k) = 0"
    "scheduler_block_size (kv_coordinator k) = 2" "config (kv_pool k) = (4, True, 2, False)"
proof -
  have i: "init_kv_manager sample_groups 4 64 2 2 (Some 8) True False 0 False False 1 1 False 0 False None ''GPU'' False [] = Inr k"
    using assms by (simp add: sample_kv_def)
  have sane: "\<forall>g \<in> set sample_groups. group_sane g" by (simp add: sample_groups_def group_sane_def)
  obtain c where c: "get_kv_cache_coordinator sample_groups 4 64 8 False True False 1 1 2 2 False False 0 None ''GPU'' False = Inr c"
      "kv_coordinator k = c" "watermark_blocks k = 0" "kv_max_model_len k = 64"
    using i by (auto simp: init_kv_manager_def err_simps)
  note b = coordinator_built [OF c(1)]
  show "kv_reach k" using kr_new [OF i sane] .
  show "kv_inv (\<lambda>_. 0) k [Blk 1, Blk 2, Blk 3]" using new_kv_inv [OF i sane] by (simp add: upt_rec numeral_2_eq_2 numeral_3_eq_3)
  show "num_kv_cache_groups k = 2" using b(3) c(2) by (simp add: num_kv_cache_groups_def sample_groups_def)
  show "kv_max_model_len k = 64" "watermark_blocks k = 0" using c by simp_all
  show "all_built sample_groups 1 True (single_type_managers (kv_coordinator k))" "num_reprefillable_tokens (kv_coordinator k) = 0"
    "scheduler_block_size (kv_coordinator k) = 2" using b c(2) by simp_all
  show "config (kv_pool k) = (4, True, 2, False)" using init_pool_spec [of 4 True 2 False False "''GPU''" False] b(5) c(2) by simp
qed

lemma sample_managers:
  assumes "sample_kv k" "m \<in> set (single_type_managers (kv_coordinator k))"
  shows "kind m \<in> {FullAttention, SlidingWindow 3 0}" "sm_block_size m = 2" "kv_cache_group_id m \<in> {0, 1}" "req_blocks rid m = []" "num_cached_block m rid = None"
proof -
  have l2: "length sample_groups = 2" by (simp add: sample_groups_def)
  obtain i where "i < length (single_type_managers (kv_coordinator k))" "single_type_managers (kv_coordinator k) ! i = m"
    using assms(2) by (auto simp: in_set_conv_nth)
  then have "i < 2" "built (g_spec (sample_groups ! i)) 1 True i m" using sample_kv_facts(6) [OF assms(1)] by (auto simp: all_built_def l2)
  then show "kind m \<in> {FullAttention, SlidingWindow 3 0}" "sm_block_size m = 2" "kv_cache_group_id m \<in> {0, 1}" "req_blocks rid m = []" "num_cached_block m rid = None"
    by (auto simp: less_2_cases_iff built_def sample_groups_def scaled_block_size_def dcp_world_size_for_kv_cache_spec_def req_blocks_def)
qed

lemma sample_call_ok:
  assumes k: "sample_kv k" and n: "0 < n" "n \<le> 64"
  shows "slots_call_ok sample_request n 0 None 0 0 False 0 k"
proof -
  note f = sample_kv_facts [OF k] and m = sample_managers [OF k]
  have r: "num_computed_tokens sample_request = 0" "num_prompt_tokens sample_request = 3" "num_tokens sample_request = 3" "length (block_hashes sample_request) = 1"
    by (simp_all add: sample_request_def init_fields_def sample_args_def num_tokens_def init_token_ids_def)
  have h: "enable_caching (kv_pool k)" "hash_block_size (kv_pool k) = 2" using f(9) by (simp_all add: config_def)
  have len: "length (single_type_managers (kv_coordinator k)) = 2" using f(2,3) by (simp add: kv_inv_def)
  have "covered (request_id sample_request) 0 (single_type_managers (kv_coordinator k) ! j)" if "j < 2" for j
    using m [of "single_type_managers (kv_coordinator k) ! j"] that len by (auto simp: covered_def)
  then have "alloc_ok (request_id sample_request) (blocks_of (EmptyBlocks 2)) False 0 0 (kv_coordinator k)"
    by (simp add: alloc_ok_def len first_seat_def)
  moreover have "cache_setup sample_request (kv_coordinator k)"
    unfolding cache_setup_def h f(7,8)
  proof (intro conjI ballI impI)
    fix m' assume "m' \<in> set (single_type_managers (kv_coordinator k))"
    note m' = m [OF this]
    show "kind m' \<noteq> CrossAttention" "group_ok (kv_cache_group_id m')" "2 dvd sm_block_size m'" "sm_block_size m' = 2 \<or> sm_block_size m' dvd num_prompt_tokens sample_request div 2 * 2"
      using m' by (auto simp: group_ok_def)
  qed (use h(1) r in simp_all)
  ultimately show ?thesis using n r by (simp add: slots_call_ok_def computed_blocks_def empty_kv_cache_blocks_def f)
qed

text \<open>The small manager has room for one token in both groups.\<close>

lemma sample_not_refused:
  assumes k: "sample_kv k"
  shows "\<not> refused sample_request 1 0 None 0 0 0 False 0 True k"
proof -
  note f = sample_kv_facts [OF k] and ok = sample_call_ok [OF k, of 1]
  have al: "alloc_ok (request_id sample_request) (replicate 2 []) False 0 0 (kv_coordinator k)"
    using ok by (simp add: slots_call_ok_def computed_blocks_def empty_kv_cache_blocks_def f sample_request_def init_fields_def)
  have r: "num_computed_tokens sample_request = 0" "num_prompt_tokens sample_request = 3" by (simp_all add: sample_request_def init_fields_def sample_args_def)
  have i: "coord_inv (\<lambda>_. 0) (kv_coordinator k) [Blk 1, Blk 2, Blk 3]" "\<forall>m \<in> set (single_type_managers (kv_coordinator k)). window_ok (kind m)"
      "length (single_type_managers (kv_coordinator k)) = 2" using f(2,3) by (simp_all add: kv_inv_def)
  obtain c ys where c: "window_release sample_request 0 0 k = Inr c" "coord_inv (\<lambda>_. 0) c ys" "coord_kept (kv_coordinator k) c" "length [Blk 1, Blk 2, Blk 3] \<le> length ys"
      "\<forall>j < length (single_type_managers (kv_coordinator k)). let m = single_type_managers (kv_coordinator k) ! j; m' = single_type_managers c ! j in
         same_config m m' \<and> length (req_blocks (request_id sample_request) m') = length (req_blocks (request_id sample_request) m)
         \<and> num_cached_block m' = num_cached_block m \<and> others_same (request_id sample_request) m m'"
    using coord_remove_skipped_spec [OF i(1,2), of "Some 3" "request_id sample_request"] unfolding window_release_def r by fastforce
  have l2: "length (single_type_managers c) = 2" using c(3) i(3) by (simp add: coord_kept_def)
  have al1: "alloc_ok (request_id sample_request) (replicate 2 []) False 0 0 c" by (rule alloc_ok_kept(1) [OF al c(3,5)])
  have "missing (request_id sample_request) 1 0 (single_type_managers c ! j) = 1" if "j < 2" for j
    using c(5) sample_managers [OF k, of "single_type_managers (kv_coordinator k) ! j"] that i(3)
    by (auto simp: Let_def missing_def need_def target_blocks_def same_config_def cdiv_def)
  then have "total_cost (\<lambda>i. missing (request_id sample_request) 1 0) 0 (single_type_managers c) = total_cost (\<lambda>i m. 1) 0 (single_type_managers c)"
    using l2 by (intro total_cost_cong) simp_all
  also have "\<dots> = 2" using l2 by (cases "single_type_managers c"; cases "tl (single_type_managers c)") auto
  finally have "coord_get_num_blocks_to_allocate (request_id sample_request) 1 (replicate 2 []) 0 0 0 False c = Inr 2"
    using count_running [of "replicate 2 []" c "request_id sample_request" 0 1 0 0] al1 l2 by (simp add: alloc_ok_def first_seat_def)
  then show ?thesis using c(1,4) free_blocks_length [OF c(2)]
    by (simp add: refused_def full_sequence_blocked_def admission_watermark_def computed_blocks_def empty_kv_cache_blocks_def slot_tokens_def f r)
qed

lemma sample_allocated:
  assumes k: "sample_kv k"
  shows "\<exists>b r' k'. allocate_slots dig sample_request 1 0 None 0 0 False 0 False 0 True k = Inr (Some b, r', k') \<and> kv_reach k' \<and> enable_caching (kv_pool k')"
proof -
  note f = sample_kv_facts [OF k] and ok = sample_call_ok [OF k, of 1]
  obtain res r' k' where a: "allocate_slots dig sample_request 1 0 None 0 0 False 0 False 0 True k = Inr (res, r', k')" "res \<noteq> None"
      "coord_kept (kv_coordinator k) (kv_coordinator k')"
    using allocate_slots_spec [OF f(2) ok, of dig 0 False True] sample_not_refused [OF k] by auto
  moreover have "kv_reach k'" using kr_allocate [OF f(1) ok a(1)] by simp
  moreover have "enable_caching (kv_pool k')" using a(3) f(9) by (simp add: coord_kept_def config_def)
  ultimately show ?thesis by auto
qed

subsection \<open>Properties\<close>

text \<open>
  C1. An allocation never fails half-way. In every reachable state, for every well-formed call, \<open>allocate_slots\<close> returns: it
  refuses exactly when the predicted number of blocks, together with the watermark, exceeds the free blocks that are not
  reserved (or the whole sequence does not fit, if that was asked for). When the prediction fits, none of the phases that
  follow it, taking over the hit blocks, allocating for a connector, allocating for new tokens and caching, can run out of
  blocks or trip an assertion in any group, although the groups draw on one pool one after the other.
\<close>

theorem allocate_slots_decides:
  assumes "kv_reach k" "slots_call_ok r nn nc newc la e delay reserved k"
  shows "\<exists>res r' k'. allocate_slots dig r nn nc newc la e delay enc must_fit reserved has_sched k = Inr (res, r', k') \<and> kv_reach k'
    \<and> (res = None \<longleftrightarrow> refused r nn nc newc la e enc must_fit reserved has_sched k)"
proof -
  obtain xs where "kv_inv (\<lambda>_. 0) k xs" using kv_reach_inv [OF assms(1)] by blast
  then obtain res r' k' where "allocate_slots dig r nn nc newc la e delay enc must_fit reserved has_sched k = Inr (res, r', k')"
      "res = None \<longleftrightarrow> refused r nn nc newc la e enc must_fit reserved has_sched k"
    using allocate_slots_spec [OF _ assms(2), of "\<lambda>_. 0" xs dig enc must_fit has_sched] by blast
  then show ?thesis using kr_allocate [OF assms] by blast
qed

theorem allocate_slots_decides_witness:
  "\<exists>k b r' k'. sample_kv k \<and> allocate_slots (\<lambda>_. []) sample_request 1 0 None 0 0 False 0 False 0 True k = Inr (Some b, r', k') \<and> kv_reach k'"
proof -
  obtain k where k: "sample_kv k" using sample_kv_exists by blast
  show ?thesis
    using allocate_slots_decides [OF sample_kv_facts(1) [OF k] sample_call_ok [OF k, of 1], of "\<lambda>_. []" 0 False True] sample_not_refused [OF k] k by fastforce
qed







text \<open>
  C7. Freeing a request cannot fail and releases everything it holds. In every reachable state \<open>free\<close> succeeds, leaves the
  request without a table entry in every group, changes no table of another request, and the number of free blocks does not drop.
\<close>

theorem free_releases_request:
  assumes "kv_reach k"
  shows "\<exists>k'. kv_free r k = Inr k' \<and> kv_reach k' \<and> get_num_free_blocks (kv_pool k) \<le> get_num_free_blocks (kv_pool k')
    \<and> (\<forall>j < num_kv_cache_groups k. \<forall>rid. req_blocks rid (single_type_managers (kv_coordinator k') ! j)
         = (if rid = request_id r then [] else req_blocks rid (single_type_managers (kv_coordinator k) ! j)))"
proof -
  obtain xs where i: "kv_inv (\<lambda>_. 0) k xs" using kv_reach_inv [OF assms] by blast
  obtain c ys where c: "kv_free r k = Inr (k\<lparr>kv_coordinator := c\<rparr>)" "kv_inv (\<lambda>_. 0) (k\<lparr>kv_coordinator := c\<rparr>) ys" "length xs \<le> length ys"
      "\<forall>j < num_kv_cache_groups k. let m = single_type_managers (kv_coordinator k) ! j; m' = single_type_managers c ! j in
         req_blocks (request_id r) m' = [] \<and> num_cached_block m' (request_id r) = None \<and> others_same (request_id r) m m'"
    using kv_free_spec [OF i, of r] by (elim exE conjE) (rule that; assumption)
  have "get_num_free_blocks (kv_pool k) \<le> get_num_free_blocks (coord_pool c)"
    using pool_wfD(3) [OF kv_pool_wf [OF i]] pool_wfD(3) [OF kv_pool_wf [OF c(2)]] c(3) by simp
  then show ?thesis using c(1,4) kr_free [OF assms c(1)] by (intro exI [of _ "k\<lparr>kv_coordinator := c\<rparr>"]) (simp add: Let_def others_same_def)
qed

theorem free_releases_request_witness:
  "\<exists>k b r' k' k''. sample_kv k \<and> allocate_slots (\<lambda>_. []) sample_request 1 0 None 0 0 False 0 False 0 True k = Inr (Some b, r', k')
    \<and> kv_free sample_request k' = Inr k'' \<and> get_num_free_blocks (kv_pool k') \<le> get_num_free_blocks (kv_pool k'')"
proof -
  obtain k where k: "sample_kv k" using sample_kv_exists by blast
  obtain b r' k' where "allocate_slots (\<lambda>_. []) sample_request 1 0 None 0 0 False 0 False 0 True k = Inr (Some b, r', k')" "kv_reach k'" "enable_caching (kv_pool k')"
    using sample_allocated [OF k] by blast
  then show ?thesis using k free_releases_request [of k' sample_request] by blast
qed

end
