(* ===== verification/Spec2Isabelle.thy ===== *)
theory Spec2Isabelle
  imports Math_Utils Pool_Run Request_Queue Sched_Utils Encoder_Cache KV_Metrics KV_Slots
begin

text \<open>
  Verification of the KV-cache management of vLLM (\<open>src/vllm/v1/core\<close> and \<open>src/vllm/v1/request.py\<close>).

  \<^bold>\<open>The program.\<close> A vLLM engine serves requests whose attention keys and values are stored in fixed-size
  blocks of device memory. The scheduler decides which requests run; before each step it asks the cache
  manager for blocks. A \<^emph>\<open>block pool\<close> owns all blocks: a free queue in eviction order, a reference count per
  block, and an index from the hash of a prefix to the blocks that hold it, so that a request with a known
  prefix reuses them. Requests carry the chain of hashes of their full blocks. Layers with the same kind of
  attention form a \<^emph>\<open>KV-cache group\<close> with a \<^emph>\<open>single-type manager\<close> that keeps the block table of each request and
  knows when blocks may be released (a sliding window leaves blocks behind). A \<^emph>\<open>coordinator\<close> runs the
  managers of all groups over the shared pool and finds the longest prefix all of them have cached. The
  \<^emph>\<open>KV-cache manager\<close> is what the scheduler calls: it looks up a prefix, predicts how many blocks a request needs,
  refuses or allocates its slots, and frees them. Around this are the waiting queues, the stop check, the encoder cache for multimodal inputs, and metrics.

  \<^bold>\<open>The theories.\<close>
  \<^item> \<open>Prelude\<close>: exceptions as values (\<open>py_error + 'a\<close>, \<open>bindE\<close>, \<open>foldE\<close>), Python indexing and slicing.
  \<^item> \<open>Math_Utils\<close> (\<open>utils/math_utils.py\<close>): rounding; exactness lemmas used throughout.
  \<^item> \<open>Hash_Keys\<close> (\<open>kv_cache_utils.py\<close>): packing a hash with its group id, the seed of the chain.
  \<^item> \<open>Free_Queue\<close> (\<open>FreeKVCacheBlockQueue\<close>): the doubly linked list as pointers in an explicit store;
    refinement of every method to an operation on a list, errors included.
  \<^item> \<open>Block_Map\<close> (\<open>BlockHashToBlockMap\<close>): the index, refined to a list of blocks per key.
  \<^item> \<open>Request\<close>, \<open>Block_Hash\<close> (\<open>request.py\<close>, \<open>kv_cache_utils.py\<close>): requests, the order of requests, the block
    hasher as a partial function with its termination, what equal hashes mean.
  \<^item> \<open>Block_Pool\<close>, \<open>Pool_Inv\<close>, \<open>Pool_Cache\<close>, \<open>Pool_Run\<close> (\<open>block_pool.py\<close>): the pool, its well-formedness
    \<open>pool_wf\<close>, a specification lemma per method, reachability \<open>pool_reach\<close> and the properties of runs.
  \<^item> \<open>Heapq\<close>, \<open>Request_Queue\<close> (\<open>sched/request_queue.py\<close>): both queues over a model of \<open>heapq\<close>.
  \<^item> \<open>Sched_Utils\<close> (\<open>sched/utils.py\<close>), \<open>Encoder_Cache\<close> (\<open>encoder_cache_manager.py\<close>), \<open>KV_Metrics\<close> (\<open>kv_cache_metrics.py\<close>).
  \<^item> \<open>Single_Type\<close>, \<open>Single_Type_Inv\<close>, \<open>Window_Release\<close>, \<open>Cache_Hits\<close> (\<open>single_type_kv_cache_manager.py\<close>): the
    managers, the ownership invariant \<open>st_inv\<close> (reference counts are exactly the table entries and the
    references of others), safety of releasing blocks, the bound on held blocks, the prefix searches.
  \<^item> \<open>Coordinator\<close>, \<open>Hybrid_Search\<close>, \<open>Hybrid_Hits\<close> (\<open>kv_cache_coordinator.py\<close>): the coordinators, the fixed-point
    search over groups, its termination and that it returns the longest common hit.
  \<^item> \<open>Coordinator_Inv\<close>, \<open>Coordinator_Alloc\<close>, \<open>Coordinator_Cache\<close>: the invariant \<open>coord_inv\<close> of all managers over one pool
    (reference counts are the table entries of all groups, blocks still being written are keyless and
    unique), the steps of one manager with the free blocks they may take, lifted to the loop over all groups
    by \<open>each_manager_spec\<close>, and that the predicted number of blocks is what allocation takes.
  \<^item> \<open>KV_Manager\<close>, \<open>KV_Alloc\<close>, \<open>KV_Slots\<close> (\<open>kv_cache_manager.py\<close>): the manager, the whole of \<open>allocate_slots\<close>, and
    reachability \<open>kv_reach\<close> from the constructor. A well-formed call (\<open>slots_call_ok\<close>) brings no
    hit that ends inside a block, stays below the model length, has up-to-date hashes, and the tables of
    a running request cover what it has computed; for such calls allocation is all or nothing, blocks
    never leak and no two requests write to the same block.

  \<^bold>\<open>State and effects.\<close> Objects with identity (blocks) live in a store from block references to records;
  every method returns the new state or an exception. Third-party code is an argument: the hash function,
  the digest of prompt embeddings, clock and random numbers, the iteration order of sets. Loops that the
  code bounds only by the data (the hasher, the queue traversals, the search of the coordinator) are partial
  functions into \<open>option\<close>, and the lemmas prove that they return.

  \<^bold>\<open>Bounds.\<close> Group ids fit the four bytes of a key, as packing asserts. No fuel is used.

  \<^bold>\<open>Not modelled.\<close> The scheduler's main loop beyond the parts listed in the manifest, Mamba, sink and HiSparse managers
  (recurrent-state checkpoints, a second pool in host memory), the sizing of the cache from device memory, and
  everything that computes on tensors, talks to devices, processes or the network, or parses requests.
  Logging is omitted.
\<close>

end
